(* ===== verification/BM_Prelude.thy ===== *)
theory BM_Prelude
  imports Main "HOL-Library.Word" "HOL-Library.Multiset"
begin

text \<open>
  What the component theories share: the collections of rewriting rules, the C++
  exceptions and the combinators for code that changes a state and may throw, the types of
  \<^verbatim>\<open>include/buffer_manager/types.h\<close> and \<^verbatim>\<open>page.h\<close>, and generic lemmas on
  lists, multisets and machine words.
\<close>

unbundle bit_operations_syntax

named_theorems act_simps "evaluation of the state-and-exception combinators"
named_theorems fa_effect "effect of the frame allocator's operations"
named_theorems pt_effect "effect of the page table's operations"

subsection \<open>Exceptions\<close>

text \<open>
  The standard exceptions the code throws, with their message. \<open>system_error\<close> stands for
  the \<^verbatim>\<open>std::runtime_error\<close> built by \<^verbatim>\<open>SystemError(operation)\<close>: the name of
  the failed call and the value of \<^verbatim>\<open>errno\<close>.
\<close>

datatype exn =
    invalid_argument string
  | logic_error string
  | out_of_range string
  | runtime_error string
  | overflow_error string
  | system_error string int

text \<open>
  \<open>('s, 'a) act\<close>: a member function on an object of type \<open>'s\<close> that returns an
  \<open>'a\<close> or throws. The state is returned in both cases: C++ does not undo the writes made
  before a throw.
\<close>

type_synonym ('s, 'a) act = "'s \<Rightarrow> (exn + 'a) \<times> 's"

definition returnA :: "'a \<Rightarrow> ('s, 'a) act" where
  "returnA a = (\<lambda>s. (Inr a, s))"

definition throwA :: "exn \<Rightarrow> ('s, 'a) act" where
  "throwA e = (\<lambda>s. (Inl e, s))"

definition getA :: "('s \<Rightarrow> 'a) \<Rightarrow> ('s, 'a) act" where
  "getA f = (\<lambda>s. (Inr (f s), s))"

definition modifyA :: "('s \<Rightarrow> 's) \<Rightarrow> ('s, unit) act" where
  "modifyA f = (\<lambda>s. (Inr (), f s))"

definition bindA :: "('s, 'a) act \<Rightarrow> ('a \<Rightarrow> ('s, 'b) act) \<Rightarrow> ('s, 'b) act" where
  "bindA m f = (\<lambda>s. case m s of (Inl e, s') \<Rightarrow> (Inl e, s') | (Inr a, s') \<Rightarrow> f a s')"

definition thenA :: "('s, unit) act \<Rightarrow> ('s, 'b) act \<Rightarrow> ('s, 'b) act" where
  "thenA m n = bindA m (\<lambda>_. n)"

text \<open>\<open>catchA m h\<close>: \<^verbatim>\<open>try { m } catch (...) { h }\<close>.\<close>

definition catchA :: "('s, 'a) act \<Rightarrow> (exn \<Rightarrow> ('s, 'a) act) \<Rightarrow> ('s, 'a) act" where
  "catchA m h = (\<lambda>s. case m s of (Inl e, s') \<Rightarrow> h e s' | (Inr a, s') \<Rightarrow> (Inr a, s'))"

text \<open>A function that only reads its object and may throw.\<close>

definition readA :: "('s \<Rightarrow> exn + 'a) \<Rightarrow> ('s, 'a) act" where
  "readA f = (\<lambda>s. (f s, s))"

text \<open>Calling a member of a sub-object: \<open>zoomA get put m\<close> runs \<open>m\<close> on it.\<close>

definition zoomA :: "('s \<Rightarrow> 't) \<Rightarrow> ('t \<Rightarrow> 's \<Rightarrow> 's) \<Rightarrow> ('t, 'a) act \<Rightarrow> ('s, 'a) act" where
  "zoomA get put m = (\<lambda>s. case m (get s) of (r, t) \<Rightarrow> (r, put t s))"

definition bindE :: "exn + 'a \<Rightarrow> ('a \<Rightarrow> exn + 'b) \<Rightarrow> exn + 'b" where
  "bindE m f = (case m of Inl e \<Rightarrow> Inl e | Inr a \<Rightarrow> f a)"

lemma returnA_eval [act_simps, simp]: "returnA a s = (Inr a, s)"
  by (simp add: returnA_def)

lemma throwA_eval [act_simps, simp]: "throwA e s = (Inl e, s)"
  by (simp add: throwA_def)

lemma getA_eval [act_simps, simp]: "getA f s = (Inr (f s), s)"
  by (simp add: getA_def)

lemma modifyA_eval [act_simps, simp]: "modifyA f s = (Inr (), f s)"
  by (simp add: modifyA_def)

lemma readA_eval [act_simps, simp]: "readA f s = (f s, s)"
  by (simp add: readA_def)

lemma bindA_Inr: "m s = (Inr a, s') \<Longrightarrow> bindA m f s = f a s'"
  by (simp add: bindA_def)

lemma bindA_Inl: "m s = (Inl e, s') \<Longrightarrow> bindA m f s = (Inl e, s')"
  by (simp add: bindA_def)

lemma thenA_Inr: "m s = (Inr u, s') \<Longrightarrow> thenA m n s = n s'"
  by (simp add: thenA_def bindA_Inr)

lemma thenA_Inl: "m s = (Inl e, s') \<Longrightarrow> thenA m n s = (Inl e, s')"
  by (simp add: thenA_def bindA_Inl)

lemma bindA_basic [act_simps, simp]:
  "bindA (returnA a) f s = f a s"
  "bindA (throwA e) f s = (Inl e, s)"
  "bindA (getA g) f s = f (g s) s"
  "bindA (modifyA m) h s = h () (m s)"
  by (simp_all add: bindA_def)

lemma thenA_modifyA [act_simps, simp]: "thenA (modifyA g) n s = n (g s)"
  by (simp add: thenA_def)

lemma thenA_throwA [act_simps, simp]: "thenA (throwA e) n s = (Inl e, s)"
  by (simp add: thenA_def bindA_def)

lemma thenA_returnA [act_simps, simp]: "thenA (returnA u) n s = n s"
  by (simp add: thenA_def bindA_def)

lemma catchA_Inr: "m s = (Inr a, s') \<Longrightarrow> catchA m h s = (Inr a, s')"
  by (simp add: catchA_def)

lemma catchA_Inl: "m s = (Inl e, s') \<Longrightarrow> catchA m h s = h e s'"
  by (simp add: catchA_def)

lemma zoomA_eval: "m (get s) = (r, t) \<Longrightarrow> zoomA get put m s = (r, put t s)"
  by (simp add: zoomA_def)

lemma bindE_simps [act_simps, simp]:
  "bindE (Inl e) f = Inl e"
  "bindE (Inr a) f = f a"
  by (simp_all add: bindE_def)

lemma bindE_Inr_iff: "bindE m f = Inr b \<longleftrightarrow> (\<exists>a. m = Inr a \<and> f a = Inr b)"
  by (cases m) simp_all

subsection \<open>Types of the public headers\<close>

type_synonym byte = "8 word"
type_synonym size_t = "64 word"
type_synonym PageId = "64 word"
type_synonym FrameId = "32 word"

definition kPageSize :: size_t where
  "kPageSize = push_bit 12 1"

lemma kPageSize_eq: "kPageSize = 4096"
  by (simp add: kPageSize_def push_bit_eq_mult)

lemma unat_kPageSize [simp]: "unat kPageSize = 4096"
  by (simp add: kPageSize_eq)

text \<open>\<^verbatim>\<open>struct Page\<close>: an array of \<open>kPageSize\<close> bytes, zero when value-initialised.\<close>

record Page =
  data :: "byte list"

definition page_ok :: "Page \<Rightarrow> bool" where
  "page_ok pg \<longleftrightarrow> length (data pg) = unat kPageSize"

definition zero_page :: Page where
  "zero_page = \<lparr>data = replicate (unat kPageSize) 0\<rparr>"

text \<open>\<^verbatim>\<open>std::array::fill\<close>.\<close>

definition fill :: "byte \<Rightarrow> Page \<Rightarrow> Page" where
  "fill b pg = pg\<lparr>data := replicate (length (data pg)) b\<rparr>"

text \<open>A write that fails has transferred the first \<open>k\<close> bytes.\<close>

definition torn_page :: "nat \<Rightarrow> Page \<Rightarrow> Page \<Rightarrow> Page" where
  "torn_page k new old = \<lparr>data = take k (data new) @ drop k (data old)\<rparr>"

lemma page_ok_zero_page [simp]: "page_ok zero_page"
  by (simp add: page_ok_def zero_page_def)

lemma fill_zero: "page_ok pg \<Longrightarrow> fill 0 pg = zero_page"
  by (simp add: fill_def zero_page_def page_ok_def)

lemma page_ok_fill [simp]: "page_ok (fill b pg) = page_ok pg"
  by (simp add: fill_def page_ok_def)

lemma torn_page_0 [simp]: "torn_page 0 new old = old"
  by (simp add: torn_page_def)

lemma torn_page_full: "length (data new) \<le> k \<Longrightarrow> length (data old) \<le> k \<Longrightarrow> torn_page k new old = new"
  by (simp add: torn_page_def)

subsection \<open>Lists\<close>

lemma nth_list_update_if:
  "i < length xs \<Longrightarrow> xs[i := x] ! j = (if i = j then x else xs ! j)"
  by auto

lemma butlast_last_distinct:
  assumes "distinct xs" and "xs \<noteq> []"
  shows "distinct (butlast xs)" and "last xs \<notin> set (butlast xs)"
    and "set xs = insert (last xs) (set (butlast xs))"
proof -
  have eq: "xs = butlast xs @ [last xs]"
    using assms(2) by simp
  then show "distinct (butlast xs)" "last xs \<notin> set (butlast xs)"
    using assms(1) by (metis distinct_append distinct_butlast, metis assms(1) distinct_append
        disjoint_iff list.set_intros(1))
  show "set xs = insert (last xs) (set (butlast xs))"
    by (subst eq) simp
qed

text \<open>Tokens held by the entries of a list, after one entry changes.\<close>

lemma mset_concat_update:
  assumes "i < length xs"
  shows "mset (concat (map g (xs[i := y]))) + mset (g (xs ! i)) = mset (concat (map g xs)) + mset (g y)"
  using assms
proof (induction xs arbitrary: i)
  case Nil
  then show ?case by simp
next
  case (Cons x xs)
  then show ?case by (cases i) (auto simp: ac_simps)
qed

subsection \<open>Machine words\<close>

lemma unat_eq_iff: "unat v = unat w \<longleftrightarrow> v = w"
  by (simp add: word_unat_eq_iff)

lemma unat_32_less: "unat (f :: 32 word) < 4294967296"
  using unsigned_less [of f, where ?'a = nat] by simp

lemma unat_64_less: "unat (p :: 64 word) < 18446744073709551616"
  using unsigned_less [of p, where ?'a = nat] by simp

lemma unat_ucast_32_64 [simp]: "unat (ucast (f :: 32 word) :: 64 word) = unat f"
  using unat_32_less [of f] by (simp add: unsigned_ucast_eq take_bit_nat_eq_self_iff)

lemma unat_of_nat_64: "n < 18446744073709551616 \<Longrightarrow> unat (of_nat n :: 64 word) = n"
  by (simp add: unat_of_nat take_bit_nat_eq_self_iff)

lemma unat_of_nat_32: "n < 4294967296 \<Longrightarrow> unat (of_nat n :: 32 word) = n"
  by (simp add: unat_of_nat take_bit_nat_eq_self_iff)

lemma unat_inc_64: "unat (w :: 64 word) < m \<Longrightarrow> m < 18446744073709551616 \<Longrightarrow> unat (w + 1) = Suc (unat w)"
  by (subst unat_add_lem [THEN iffD1]) simp_all

end
