(* ===== verification/Id_Pool.thy ===== *)
theory Id_Pool
  imports BM_Prelude
begin

text \<open>
  The contract that the frame allocator and the page table share: both hand out identifiers from a
  fixed set, never one that is in use, refuse only when all are in use, and take identifiers back.
  What follows for a client that draws several identifiers and gives them back is shown once, from
  the contract.
\<close>

subsection \<open>Clients\<close>

text \<open>Drawing until \<open>n\<close> identifiers are there or the pool refuses.\<close>

fun draws :: "('s \<Rightarrow> 'i option \<times> 's) \<Rightarrow> nat \<Rightarrow> 's \<Rightarrow> 'i list \<times> 's" where
  "draws draw 0 s = ([], s)"
| "draws draw (Suc n) s =
     (case draw s of
        (None, s') \<Rightarrow> ([], s')
      | (Some i, s') \<Rightarrow> (case draws draw n s' of (is, s'') \<Rightarrow> (i # is, s'')))"

fun give_all :: "('i \<Rightarrow> ('s, unit) act) \<Rightarrow> 'i list \<Rightarrow> ('s, unit) act" where
  "give_all give [] = returnA ()"
| "give_all give (i # is) = thenA (give i) (give_all give is)"

text \<open>An operation that throws when it refuses, as such a pool.\<close>

definition refusing :: "('s, 'i) act \<Rightarrow> 's \<Rightarrow> 'i option \<times> 's" where
  "refusing m s = (case m s of (Inl e, s') \<Rightarrow> (None, s') | (Inr i, s') \<Rightarrow> (Some i, s'))"

lemma refusing_iff:
  "refusing m s = (None, s') \<longleftrightarrow> (\<exists>e. m s = (Inl e, s'))"
  "refusing m s = (Some i, s') \<longleftrightarrow> m s = (Inr i, s')"
  by (auto simp: refusing_def split: prod.splits sum.splits)

subsection \<open>Sources of fresh identifiers\<close>

locale id_source =
  fixes draw :: "'s \<Rightarrow> 'i option \<times> 's"
    and inv :: "'s \<Rightarrow> bool"
    and ids :: "'s \<Rightarrow> 'i set"
    and used :: "'s \<Rightarrow> 'i set"
  assumes draw_none: "inv s \<Longrightarrow> draw s = (None, s') \<Longrightarrow> s' = s \<and> used s = ids s"
    and draw_some: "inv s \<Longrightarrow> draw s = (Some i, s') \<Longrightarrow>
      inv s' \<and> ids s' = ids s \<and> i \<in> ids s \<and> i \<notin> used s \<and> used s' = insert i (used s)"
    and used_ids: "inv s \<Longrightarrow> used s \<subseteq> ids s"
    and ids_finite: "inv s \<Longrightarrow> finite (ids s)"
begin

lemma draws_fresh:
  assumes "inv s" and "draws draw n s = (is, s')"
  shows "inv s' \<and> ids s' = ids s \<and> distinct is \<and> set is \<inter> used s = {} \<and> used s' = used s \<union> set is"
  using assms
proof (induction n arbitrary: s "is" s')
  case (Suc n)
  show ?case
  proof (cases "draw s")
    case (Pair r s1)
    show ?thesis
    proof (cases r)
      case None
      then show ?thesis using Suc.prems Pair draw_none by fastforce
    next
      case (Some i)
      obtain js s2 where js: "draws draw n s1 = (js, s2)" by fastforce
      note d = draw_some [OF Suc.prems(1) Pair [unfolded Some]]
      have "is = i # js" "s' = s2" using Suc.prems(2) Pair Some js by simp_all
      then show ?thesis using Suc.IH [OF _ js] d by auto
    qed
  qed
qed simp

lemma draws_length:
  assumes "inv s" and "draws draw n s = (is, s')"
  shows "length is = min n (card (ids s - used s))"
  using assms
proof (induction n arbitrary: s "is" s')
  case (Suc n)
  show ?case
  proof (cases "draw s")
    case (Pair r s1)
    show ?thesis
    proof (cases r)
      case None
      then show ?thesis using Suc.prems Pair draw_none [OF Suc.prems(1)] by auto
    next
      case (Some i)
      obtain js s2 where js: "draws draw n s1 = (js, s2)" by fastforce
      note d = draw_some [OF Suc.prems(1) Pair [unfolded Some]]
      have "ids s1 - used s1 = (ids s - used s) - {i}" "i \<in> ids s - used s" using d by auto
      then have "card (ids s - used s) = Suc (card (ids s1 - used s1))"
        using ids_finite [OF Suc.prems(1)] by (simp add: card_Suc_Diff1 [symmetric] del: card_Diff_insert)
      moreover have "is = i # js" using Suc.prems(2) Pair Some js by simp
      ultimately show ?thesis using Suc.IH [OF _ js] d by simp
    qed
  qed
qed simp

text \<open>Drawing as often as there are identifiers, or more often, hands out every free one.\<close>

lemma draws_all:
  assumes "inv s" and "card (ids s) \<le> n" and "draws draw n s = (is, s')"
  shows "inv s' \<and> ids s' = ids s \<and> distinct is \<and> set is = ids s - used s \<and> used s' = ids s"
proof -
  note f = draws_fresh [OF assms(1,3)]
  have fin: "finite (ids s - used s)" using ids_finite [OF assms(1)] by simp
  have "card (ids s - used s) \<le> n"
    using card_mono [OF ids_finite [OF assms(1)], of "ids s - used s"] assms(2) by auto
  then have "card (set is) = card (ids s - used s)"
    using draws_length [OF assms(1,3)] f distinct_card by fastforce
  moreover have "set is \<subseteq> ids s - used s" using f used_ids [of s'] by auto
  ultimately have "set is = ids s - used s" using card_subset_eq [OF fin] by blast
  then show ?thesis using f used_ids [OF assms(1)] by auto
qed

end

subsection \<open>Pools that take identifiers back\<close>

locale id_pool = id_source draw inv ids used
  for draw :: "'s \<Rightarrow> 'i option \<times> 's"
    and inv :: "'s \<Rightarrow> bool"
    and ids :: "'s \<Rightarrow> 'i set"
    and used :: "'s \<Rightarrow> 'i set" +
  fixes give :: "'i \<Rightarrow> ('s, unit) act"
    and idle :: "'s \<Rightarrow> 'i set"
  assumes give_idle: "inv s \<Longrightarrow> i \<in> idle s \<Longrightarrow>
      \<exists>s'. give i s = (Inr (), s') \<and> inv s' \<and> ids s' = ids s \<and> used s' = used s - {i} \<and> idle s' = idle s - {i}"
    and give_other: "inv s \<Longrightarrow> i \<notin> idle s \<Longrightarrow> \<exists>e. give i s = (Inl e, s)"
    and idle_used: "inv s \<Longrightarrow> idle s \<subseteq> used s"
    and draw_idle: "inv s \<Longrightarrow> draw s = (Some i, s') \<Longrightarrow> idle s' = insert i (idle s)"
begin

lemma draws_idle:
  assumes "inv s" and "draws draw n s = (is, s')"
  shows "idle s' = idle s \<union> set is"
  using assms
proof (induction n arbitrary: s "is" s')
  case (Suc n)
  show ?case
  proof (cases "draw s")
    case (Pair r s1)
    show ?thesis
    proof (cases r)
      case None
      then show ?thesis using Suc.prems Pair draw_none by fastforce
    next
      case (Some i)
      obtain js s2 where js: "draws draw n s1 = (js, s2)" by fastforce
      have "is = i # js" "s' = s2" using Suc.prems(2) Pair Some js by simp_all
      then show ?thesis
        using Suc.IH [OF _ js] draw_some [OF Suc.prems(1) Pair [unfolded Some]]
          draw_idle [OF Suc.prems(1) Pair [unfolded Some]] by auto
    qed
  qed
qed simp

lemma give_all_idle:
  assumes "inv s" and "distinct is" and "set is \<subseteq> idle s"
  shows "\<exists>s'. give_all give is s = (Inr (), s') \<and> inv s' \<and> ids s' = ids s \<and>
    used s' = used s - set is \<and> idle s' = idle s - set is"
  using assms
proof (induction "is" arbitrary: s)
  case (Cons i "is")
  obtain s1 where s1: "give i s = (Inr (), s1)" "inv s1" "ids s1 = ids s" "used s1 = used s - {i}" "idle s1 = idle s - {i}"
    using give_idle [OF Cons.prems(1), of i] Cons.prems(3) by auto
  have "set is \<subseteq> idle s1" using Cons.prems(2,3) s1(5) by auto
  then obtain s' where "give_all give is s1 = (Inr (), s')" "inv s'" "ids s' = ids s1"
      "used s' = used s1 - set is" "idle s' = idle s1 - set is"
    using Cons.IH [OF s1(2)] Cons.prems(2) by auto
  then show ?case using s1 by (auto simp: thenA_Inr)
qed simp

text \<open>What was drawn can be given back, in any order, and nothing else is taken from the pool.\<close>

lemma draws_give_all:
  assumes "inv s" and "draws draw n s = (is, s')" and "distinct js" and "set js = set is"
  shows "\<exists>s''. give_all give js s' = (Inr (), s'') \<and> inv s'' \<and> ids s'' = ids s \<and> used s'' = used s"
proof -
  note f = draws_fresh [OF assms(1,2)]
  have "set js \<subseteq> idle s'" using draws_idle [OF assms(1,2)] assms(4) by auto
  then obtain s'' where "give_all give js s' = (Inr (), s'')" "inv s''" "ids s'' = ids s'" "used s'' = used s' - set js"
    using give_all_idle [OF _ assms(3)] f by blast
  then show ?thesis using f assms(4) by auto
qed

text \<open>An identifier can be given back only once.\<close>

lemma give_twice:
  assumes "inv s" and "give i s = (Inr (), s')"
  shows "\<exists>e. give i s' = (Inl e, s')"
proof -
  have "i \<in> idle s" using give_other [OF assms(1), of i] assms(2) by fastforce
  then obtain t where "give i s = (Inr (), t)" "inv t" "idle t = idle s - {i}" using give_idle [OF assms(1)] by blast
  then show ?thesis using give_other [of t i] assms(2) by simp
qed

end

end
