(* ===== verification/Frame_Allocator.thy ===== *)
theory Frame_Allocator
  imports Id_Pool
begin

text \<open>
  The frame allocator (\<^verbatim>\<open>src/page/frame_allocator.h\<close> and \<^verbatim>\<open>.cc\<close>): a pool of
  page frames and a bitmap of one bit per frame, searched 64 frames at a time from a moving
  word index. The invariant ties the bitmap to the allocation counter and says that the bits
  past the last frame are set; each operation is described by its effect on the set of
  allocated frames and on the frames' contents.
\<close>

subsection \<open>State\<close>

definition kFullWord :: "64 word" where
  "kFullWord = NOT 0"

definition kBitsPerWord :: size_t where
  "kBitsPerWord = 64"

record FrameAllocator =
  fa_frame_count :: size_t
  fa_allocated_count :: size_t
  next_search_word :: size_t
  frames :: "Page list"
  allocation_bitmap :: "64 word list"

subsection \<open>Operations\<close>

definition WordIndex :: "FrameId \<Rightarrow> size_t" where
  "WordIndex frame_id = ucast frame_id div kBitsPerWord"

definition BitMask :: "FrameId \<Rightarrow> 64 word" where
  "BitMask frame_id = push_bit (unat ((ucast frame_id :: size_t) mod kBitsPerWord)) 1"

definition MaskUnusedTailBits :: "FrameAllocator \<Rightarrow> FrameAllocator" where
  "MaskUnusedTailBits fa =
     (let valid_tail_bits = fa_frame_count fa mod kBitsPerWord in
      if valid_tail_bits = 0 then fa
      else
        let valid_mask = (push_bit (unat valid_tail_bits) 1 :: 64 word) - 1;
            invalid_mask = NOT valid_mask;
            bitmap = allocation_bitmap fa
        in fa\<lparr>allocation_bitmap := bitmap[length bitmap - 1 := last bitmap OR invalid_mask]\<rparr>)"

definition new_FrameAllocator :: "size_t \<Rightarrow> exn + FrameAllocator" where
  "new_FrameAllocator frame_count =
     (let fa = \<lparr>fa_frame_count = frame_count,
                fa_allocated_count = 0,
                next_search_word = 0,
                frames = replicate (unat frame_count) zero_page,
                allocation_bitmap =
                  replicate (unat ((frame_count + kBitsPerWord - 1) div kBitsPerWord)) 0\<rparr>
      in if frame_count = 0 then
           Inl (invalid_argument ''frame_count must be greater than zero'')
         else if frame_count > ucast (- 1 :: FrameId) then
           Inl (invalid_argument ''frame_count does not fit into FrameId'')
         else Inr (MaskUnusedTailBits fa))"

text \<open>\<^verbatim>\<open>std::countr_zero\<close>: the index of the lowest set bit, 64 for zero.\<close>

definition countr_zero :: "64 word \<Rightarrow> nat" where
  "countr_zero w = length (takeWhile (\<lambda>i. \<not> bit w i) [0..<64])"

definition ValidateFrameId :: "FrameAllocator \<Rightarrow> FrameId \<Rightarrow> exn + unit" where
  "ValidateFrameId fa frame_id =
     (if ucast frame_id \<ge> fa_frame_count fa then Inl (out_of_range ''invalid frame id'')
      else Inr ())"

definition IsAllocated_frame :: "FrameAllocator \<Rightarrow> FrameId \<Rightarrow> exn + bool" where
  "IsAllocated_frame fa frame_id =
     bindE (ValidateFrameId fa frame_id) (\<lambda>_.
     Inr ((allocation_bitmap fa ! unat (WordIndex frame_id) AND BitMask frame_id) \<noteq> 0))"

definition ValidateAllocatedFrameId :: "FrameAllocator \<Rightarrow> FrameId \<Rightarrow> exn + unit" where
  "ValidateAllocatedFrameId fa frame_id =
     bindE (ValidateFrameId fa frame_id) (\<lambda>_.
     bindE (IsAllocated_frame fa frame_id) (\<lambda>allocated.
     if \<not> allocated then Inl (logic_error ''frame is not allocated'') else Inr ()))"

text \<open>
  The search loop of \<^verbatim>\<open>AllocateFrame\<close>, from probe number \<open>probe\<close> on.
\<close>

function AllocateFrame_scan :: "FrameAllocator \<Rightarrow> nat \<Rightarrow> FrameId option \<times> FrameAllocator" where
  "AllocateFrame_scan fa probe =
     (let word_count = length (allocation_bitmap fa) in
      if probe < word_count then
        let word_index = (next_search_word fa + of_nat probe) mod of_nat word_count;
            used_word = allocation_bitmap fa ! unat word_index
        in if used_word = kFullWord then AllocateFrame_scan fa (Suc probe)
           else
             let free_bits = NOT used_word;
                 bit_index = countr_zero free_bits;
                 frame_id = ucast (word_index * kBitsPerWord + of_nat bit_index);
                 new_word = used_word OR push_bit bit_index 1
             in (Some frame_id,
                 fa\<lparr>allocation_bitmap := (allocation_bitmap fa)[unat word_index := new_word],
                    fa_allocated_count := fa_allocated_count fa + 1,
                    next_search_word :=
                      (if new_word = kFullWord then (word_index + 1) mod of_nat word_count
                       else word_index)\<rparr>)
      else (None, fa))"
  by pat_completeness auto
termination
  by (relation "measure (\<lambda>(fa, probe). length (allocation_bitmap fa) - probe)") auto

declare AllocateFrame_scan.simps [simp del]

definition AllocateFrame :: "FrameAllocator \<Rightarrow> FrameId option \<times> FrameAllocator" where
  "AllocateFrame fa =
     (if fa_allocated_count fa = fa_frame_count fa then (None, fa)
      else AllocateFrame_scan fa 0)"

definition FreeFrame :: "FrameId \<Rightarrow> (FrameAllocator, unit) act" where
  "FreeFrame frame_id fa =
     (case ValidateAllocatedFrameId fa frame_id of
        Inl e \<Rightarrow> (Inl e, fa)
      | Inr _ \<Rightarrow>
          let word_index = WordIndex frame_id;
              bitmap = allocation_bitmap fa
          in (Inr (),
              fa\<lparr>allocation_bitmap :=
                   bitmap[unat word_index := bitmap ! unat word_index AND NOT (BitMask frame_id)],
                 fa_allocated_count := fa_allocated_count fa - 1,
                 next_search_word := word_index\<rparr>))"

text \<open>
  \<^verbatim>\<open>page(frame_id)\<close> returns a reference into \<^verbatim>\<open>frames_\<close>: reading through it is
  \<open>page_at\<close>, writing through it is \<open>update_page\<close>.
\<close>

definition page_at :: "FrameAllocator \<Rightarrow> FrameId \<Rightarrow> exn + Page" where
  "page_at fa frame_id =
     bindE (ValidateAllocatedFrameId fa frame_id) (\<lambda>_.
     Inr (frames fa ! unat frame_id))"

definition update_page :: "FrameId \<Rightarrow> (Page \<Rightarrow> Page) \<Rightarrow> (FrameAllocator, unit) act" where
  "update_page frame_id f fa =
     (case ValidateAllocatedFrameId fa frame_id of
        Inl e \<Rightarrow> (Inl e, fa)
      | Inr _ \<Rightarrow>
          (Inr (), fa\<lparr>frames := (frames fa)[unat frame_id := f (frames fa ! unat frame_id)]\<rparr>))"

definition free_count :: "FrameAllocator \<Rightarrow> size_t" where
  "free_count fa = fa_frame_count fa - fa_allocated_count fa"

subsection \<open>Invariant\<close>

text \<open>
  Bit \<open>i\<close> of the bitmap, counting through the words, is the state of frame \<open>i\<close>; the
  bits past the last frame are set, so that the search never finds them.
\<close>

definition frame_bit :: "64 word list \<Rightarrow> nat \<Rightarrow> bool" where
  "frame_bit bitmap i = bit (bitmap ! (i div 64)) (i mod 64)"

definition allocated :: "FrameAllocator \<Rightarrow> FrameId set" where
  "allocated fa = {f. unat f < unat (fa_frame_count fa) \<and> frame_bit (allocation_bitmap fa) (unat f)}"

definition fa_inv :: "FrameAllocator \<Rightarrow> bool" where
  "fa_inv fa \<longleftrightarrow>
     0 < unat (fa_frame_count fa) \<and> unat (fa_frame_count fa) < 4294967296 \<and>
     length (frames fa) = unat (fa_frame_count fa) \<and> (\<forall>pg \<in> set (frames fa). page_ok pg) \<and>
     length (allocation_bitmap fa) = (unat (fa_frame_count fa) + 63) div 64 \<and>
     (\<forall>i. unat (fa_frame_count fa) \<le> i \<and> i < 64 * length (allocation_bitmap fa) \<longrightarrow>
        frame_bit (allocation_bitmap fa) i) \<and>
     unat (fa_allocated_count fa) = card (allocated fa) \<and>
     unat (next_search_word fa) < length (allocation_bitmap fa)"

lemma countr_zero_nonzero:
  assumes "w \<noteq> 0"
  shows "countr_zero w < 64" and "bit w (countr_zero w)" and "j < countr_zero w \<Longrightarrow> \<not> bit w j"
proof -
  let ?P = "\<lambda>i. \<not> bit w i"
  have ex: "\<exists>i \<in> set [0..<64]. bit w i"
  proof (rule ccontr)
    assume "\<not> ?thesis"
    then have "\<not> bit w n" if "n < 64" for n using that by simp
    then have "w = 0" by (intro bit_word_eqI) simp
    with assms show False by simp
  qed
  have lt: "length (takeWhile ?P [0..<64]) < length [0..<64::nat]"
  proof (rule ccontr)
    assume "\<not> ?thesis"
    then have "takeWhile ?P [0..<64] = [0..<64]"
      by (metis length_takeWhile_le linorder_neqE_nat not_le takeWhile_eq_take take_all)
    then show False using ex by (metis set_takeWhileD)
  qed
  then show "countr_zero w < 64" by (simp add: countr_zero_def)
  have "\<not> ?P ([0..<64] ! length (takeWhile ?P [0..<64]))"
    using lt by (rule nth_length_takeWhile)
  then show "bit w (countr_zero w)" using lt by (simp add: countr_zero_def)
  assume j: "j < countr_zero w"
  then have "takeWhile ?P [0..<64] ! j \<in> set (takeWhile ?P [0..<64])"
    by (simp add: countr_zero_def)
  then show "\<not> bit w j"
    using j lt by (metis add_0 countr_zero_def length_upt nth_upt order.strict_trans
        set_takeWhileD takeWhile_nth diff_zero)
qed

lemma frame_bit_update:
  "wi < length bm \<Longrightarrow>
   frame_bit (bm[wi := w]) i = (if i div 64 = wi then bit w (i mod 64) else frame_bit bm i)"
  by (auto simp: frame_bit_def nth_list_update_if)

lemma word_index_bound: "i < 64 * n \<Longrightarrow> i div 64 < (n :: nat)"
  by (simp add: less_mult_imp_div_less mult.commute)

lemma fa_inv_bitmap_length:
  assumes "fa_inv fa"
  shows "0 < length (allocation_bitmap fa)" and "length (allocation_bitmap fa) \<le> 67108864"
    and "unat (fa_frame_count fa) \<le> 64 * length (allocation_bitmap fa)"
    and "unat (next_search_word fa) < length (allocation_bitmap fa)"
    and "unat (fa_frame_count fa) < 4294967296"
    and "64 * length (allocation_bitmap fa) \<le> 4294967296"
proof -
  show "0 < length (allocation_bitmap fa)" "unat (next_search_word fa) < length (allocation_bitmap fa)"
    using assms by (auto simp: fa_inv_def)
  have "length (allocation_bitmap fa) = (unat (fa_frame_count fa) + 63) div 64"
    and c: "unat (fa_frame_count fa) < 4294967296"
    using assms by (simp_all add: fa_inv_def)
  with c show le: "length (allocation_bitmap fa) \<le> 67108864"
    and "unat (fa_frame_count fa) \<le> 64 * length (allocation_bitmap fa)"
    by linarith+
  from le show "64 * length (allocation_bitmap fa) \<le> 4294967296" by simp
  show "unat (fa_frame_count fa) < 4294967296" by (rule c)
qed

lemma unat_WordIndex: "unat (WordIndex f) = unat f div 64"
  by (simp add: WordIndex_def kBitsPerWord_def unat_div)

lemma bit_BitMask: "bit (BitMask f) i \<longleftrightarrow> i = unat f mod 64"
proof -
  have "BitMask f = 2 ^ (unat f mod 64)"
    by (simp add: BitMask_def kBitsPerWord_def unat_mod push_bit_of_1)
  moreover have "unat f mod 64 < 64" by simp
  ultimately show ?thesis by (auto simp: bit_exp_iff)
qed

lemma frame_of_index:
  assumes "unat wi < 67108864" and "b < 64"
  shows "unat (ucast ((wi :: 64 word) * kBitsPerWord + of_nat b) :: FrameId) = 64 * unat wi + b"
proof -
  have b: "unat (of_nat b :: 64 word) = b" using assms(2) by (intro unat_of_nat_64) simp
  have lt: "unat wi * 64 + b < 4294967296" using assms by simp
  have m: "unat (wi * 64) = unat wi * 64"
    using assms by (subst unat_mult_lem [THEN iffD1]) simp_all
  have "unat (wi * 64 + of_nat b) = unat wi * 64 + b"
    using assms b m by (subst unat_add_lem [THEN iffD1]) simp_all
  moreover have "take_bit 32 (unat wi * 64 + b) = unat wi * 64 + b"
    using lt by (simp add: take_bit_nat_eq_self_iff)
  ultimately show ?thesis
    by (simp add: kBitsPerWord_def unsigned_ucast_eq)
qed

lemma probe_index:
  assumes "unat nx < n" and "p < n" and "n \<le> 67108864"
  shows "unat ((nx + of_nat p) mod of_nat n :: 64 word) = (unat nx + p) mod n"
proof -
  have p: "unat (of_nat p :: 64 word) = p" and n: "unat (of_nat n :: 64 word) = n"
    using assms by (auto intro!: unat_of_nat_64)
  have "unat (nx + of_nat p) = unat nx + p"
    using assms p by (subst unat_add_lem [THEN iffD1]) simp_all
  then show ?thesis by (simp add: unat_mod n)
qed

lemma probe_covers:
  assumes "a < n" and "w < (n :: nat)"
  obtains j where "j < n" and "(a + j) mod n = w"
proof
  show "(w + (n - a)) mod n < n" using assms by simp
  have "(a + (w + (n - a)) mod n) mod n = (w + n) mod n"
    using assms by (simp add: mod_add_right_eq)
  then show "(a + (w + (n - a)) mod n) mod n = w" using assms by simp
qed

definition mark_frame :: "nat \<Rightarrow> 64 word list \<Rightarrow> 64 word list" where
  "mark_frame i bm = bm[i div 64 := bm ! (i div 64) OR push_bit (i mod 64) 1]"

lemma frame_bit_mark:
  assumes "i < 64 * length bm"
  shows "frame_bit (mark_frame i bm) j \<longleftrightarrow> j = i \<or> frame_bit bm j"
proof (cases "j div 64 = i div 64")
  case True
  then have "j = i \<longleftrightarrow> j mod 64 = i mod 64"
    by (metis div_mult_mod_eq)
  moreover have "bit (push_bit (i mod 64) 1 :: 64 word) (j mod 64) \<longleftrightarrow> j mod 64 = i mod 64"
    by (auto simp: push_bit_of_1 bit_exp_iff)
  ultimately show ?thesis
    using True word_index_bound [OF assms]
    by (simp add: mark_frame_def frame_bit_update bit_or_iff) (auto simp: frame_bit_def)
next
  case False
  then show ?thesis
    using word_index_bound [OF assms] by (auto simp: mark_frame_def frame_bit_update)
qed

abbreviation probe_word :: "FrameAllocator \<Rightarrow> nat \<Rightarrow> size_t" where
  "probe_word fa p \<equiv> (next_search_word fa + of_nat p) mod of_nat (length (allocation_bitmap fa))"

lemma AllocateFrame_scan_stop:
  "\<not> p < length (allocation_bitmap fa) \<Longrightarrow> AllocateFrame_scan fa p = (None, fa)"
  by (subst AllocateFrame_scan.simps) (simp add: Let_def)

lemma AllocateFrame_scan_full:
  "p < length (allocation_bitmap fa) \<Longrightarrow> allocation_bitmap fa ! unat (probe_word fa p) = kFullWord \<Longrightarrow>
   AllocateFrame_scan fa p = AllocateFrame_scan fa (Suc p)"
  by (subst AllocateFrame_scan.simps) (simp only: Let_def if_True refl)

lemma AllocateFrame_scan_found:
  assumes "p < length (allocation_bitmap fa)"
    and "allocation_bitmap fa ! unat wi \<noteq> kFullWord" and "wi = probe_word fa p"
    and "b = countr_zero (NOT (allocation_bitmap fa ! unat wi))"
    and "nw = allocation_bitmap fa ! unat wi OR push_bit b 1"
  shows "AllocateFrame_scan fa p =
     (Some (ucast (wi * kBitsPerWord + of_nat b)),
      fa\<lparr>allocation_bitmap := (allocation_bitmap fa)[unat wi := nw],
         fa_allocated_count := fa_allocated_count fa + 1,
         next_search_word := (if nw = kFullWord then (wi + 1) mod of_nat (length (allocation_bitmap fa))
            else wi)\<rparr>)"
  using assms(1,2) unfolding assms(3-)
  by (subst AllocateFrame_scan.simps) (simp only: Let_def if_True if_False)

lemma unat_probe_word:
  assumes "fa_inv fa" and "p < length (allocation_bitmap fa)"
  shows "unat (probe_word fa p) = (unat (next_search_word fa) + p) mod length (allocation_bitmap fa)"
  using fa_inv_bitmap_length [OF assms(1)] assms(2) by (intro probe_index)

lemma AllocateFrame_scan_None:
  assumes "AllocateFrame_scan fa p = (None, fa')" and inv: "fa_inv fa"
    and "p \<le> j" and "j < length (allocation_bitmap fa)"
  shows "allocation_bitmap fa ! ((unat (next_search_word fa) + j) mod length (allocation_bitmap fa)) = kFullWord"
  using assms(1,3,4)
proof (induction "length (allocation_bitmap fa) - p" arbitrary: p)
  case 0
  then show ?case by simp
next
  case (Suc k)
  then have p: "p < length (allocation_bitmap fa)" by simp
  have full: "allocation_bitmap fa ! unat (probe_word fa p) = kFullWord"
    using Suc.prems(1) AllocateFrame_scan_found [OF p _ refl refl refl] by (metis option.distinct(1) prod.inject)
  show ?case
  proof (cases "p = j")
    case True
    then show ?thesis using full unat_probe_word [OF inv p] by simp
  next
    case False
    then show ?thesis
      using Suc.hyps(1) [of "Suc p"] Suc.hyps(2) Suc.prems AllocateFrame_scan_full [OF p full] by simp
  qed
qed

lemma AllocateFrame_scan_None_same: "AllocateFrame_scan fa p = (None, fa') \<Longrightarrow> fa' = fa"
proof (induction "length (allocation_bitmap fa) - p" arbitrary: p)
  case 0
  then show ?case using AllocateFrame_scan_stop [of p fa] by simp
next
  case (Suc k)
  then have p: "p < length (allocation_bitmap fa)" by simp
  then have "allocation_bitmap fa ! unat (probe_word fa p) = kFullWord"
    using Suc.prems(1) AllocateFrame_scan_found [OF p _ refl refl refl] by (metis option.distinct(1) prod.inject)
  then show ?case
    using Suc.hyps(1) [of "Suc p"] Suc.hyps(2) Suc.prems AllocateFrame_scan_full [OF p] by simp
qed

lemma AllocateFrame_scan_Some:
  assumes "AllocateFrame_scan fa p = (Some f, fa')" and inv: "fa_inv fa"
  shows "unat f < 64 * length (allocation_bitmap fa) \<and> \<not> frame_bit (allocation_bitmap fa) (unat f) \<and>
    (\<exists>nx. unat nx < length (allocation_bitmap fa) \<and>
      fa' = fa\<lparr>allocation_bitmap := mark_frame (unat f) (allocation_bitmap fa),
               fa_allocated_count := fa_allocated_count fa + 1, next_search_word := nx\<rparr>)"
  using assms(1)
proof (induction "length (allocation_bitmap fa) - p" arbitrary: p)
  case 0
  then show ?case using AllocateFrame_scan_stop [of p fa] by simp
next
  case (Suc k)
  then have p: "p < length (allocation_bitmap fa)" by simp
  let ?n = "length (allocation_bitmap fa)"
  define wi where "wi = probe_word fa p"
  note bounds = fa_inv_bitmap_length [OF inv]
  have wi: "unat wi < ?n"
    using unat_probe_word [OF inv p] bounds(1) by (simp add: wi_def)
  show ?case
  proof (cases "allocation_bitmap fa ! unat wi = kFullWord")
    case True
    then show ?thesis
      using Suc.hyps(1) [of "Suc p"] Suc.hyps(2) Suc.prems AllocateFrame_scan_full [OF p]
      by (simp add: wi_def)
  next
    case False
    define b where "b = countr_zero (NOT (allocation_bitmap fa ! unat wi))"
    define nw where "nw = allocation_bitmap fa ! unat wi OR push_bit b 1"
    have "NOT (allocation_bitmap fa ! unat wi) \<noteq> 0"
      using False by (metis bit.double_compl kFullWord_def)
    then have b: "b < 64" "\<not> bit (allocation_bitmap fa ! unat wi) b"
      using countr_zero_nonzero(1,2) [of "NOT (allocation_bitmap fa ! unat wi)"]
      unfolding b_def by (auto simp: bit_not_iff)
    note found = AllocateFrame_scan_found [OF p False wi_def b_def nw_def]
    have f: "f = ucast (wi * kBitsPerWord + of_nat b)"
      and fa': "fa' = fa\<lparr>allocation_bitmap := (allocation_bitmap fa)[unat wi := nw],
          fa_allocated_count := fa_allocated_count fa + 1,
          next_search_word := (if nw = kFullWord then (wi + 1) mod of_nat ?n else wi)\<rparr>"
      using Suc.prems found by simp_all
    have uf: "unat f = 64 * unat wi + b"
      unfolding f using wi bounds(2) b(1) by (intro frame_of_index) linarith+
    have "unat (of_nat ?n :: 64 word) = ?n" using bounds(2) by (intro unat_of_nat_64) linarith
    then have "unat ((wi + 1) mod of_nat ?n) < ?n"
      using bounds(1) by (simp add: unat_mod)
    then have nx: "unat (if nw = kFullWord then (wi + 1) mod of_nat ?n else wi) < ?n"
      using wi by simp
    have d: "unat f div 64 = unat wi" "unat f mod 64 = b"
      using b(1) by (simp_all add: uf)
    have "unat f < 64 * ?n" using wi b(1) by (simp add: uf)
    moreover have "\<not> frame_bit (allocation_bitmap fa) (unat f)"
      using b(2) by (simp add: frame_bit_def d)
    ultimately show ?thesis
      using nx unfolding fa' mark_frame_def d nw_def [symmetric] by blast
  qed
qed

lemma frame_idx_le: "unat (f :: FrameId) < n \<Longrightarrow> n \<le> m \<Longrightarrow> unat f < m"
  by (rule less_le_trans)

lemma card_frames_below:
  assumes "n < 4294967296"
  shows "card {f :: FrameId. unat f < n} = n"
proof -
  have "{f :: FrameId. unat f < n} = of_nat ` {..<n}"
  proof (intro set_eqI iffI)
    fix f :: FrameId assume "f \<in> {f. unat f < n}"
    then show "f \<in> of_nat ` {..<n}" by (auto intro!: image_eqI [where x = "unat f"])
  next
    fix f :: FrameId assume "f \<in> of_nat ` {..<n}"
    then show "f \<in> {f. unat f < n}" using assms by (auto simp: unat_of_nat_32)
  qed
  moreover have "inj_on (of_nat :: nat \<Rightarrow> FrameId) {..<n}"
    using assms by (intro inj_on_inverseI [where g = unat]) (simp add: unat_of_nat_32)
  ultimately show ?thesis by (simp add: card_image)
qed

lemma finite_allocated [simp]: "finite (allocated fa)"
  by (rule finite)

lemma card_allocated_le: "fa_inv fa \<Longrightarrow> card (allocated fa) \<le> unat (fa_frame_count fa)"
  using card_frames_below [of "unat (fa_frame_count fa)"] fa_inv_bitmap_length(5) [of fa]
  by (metis (no_types, lifting) allocated_def card_mono finite mem_Collect_eq subsetI)

lemma fa_inv_tail:
  assumes "fa_inv fa" and "i < 64 * length (allocation_bitmap fa)" and "\<not> frame_bit (allocation_bitmap fa) i"
  shows "i < unat (fa_frame_count fa)"
  using assms by (auto simp: fa_inv_def not_less [symmetric])

lemma mark_frame_inv:
  assumes inv: "fa_inv fa" and f: "unat f < unat (fa_frame_count fa)"
    and free: "\<not> frame_bit (allocation_bitmap fa) (unat f)"
    and nx: "unat nx < length (allocation_bitmap fa)"
    and fa': "fa' = fa\<lparr>allocation_bitmap := mark_frame (unat f) (allocation_bitmap fa),
               fa_allocated_count := fa_allocated_count fa + 1, next_search_word := nx\<rparr>"
  shows "fa_inv fa' \<and> allocated fa' = insert f (allocated fa)"
proof -
  note b = fa_inv_bitmap_length [OF inv]
  have lt: "unat f < 64 * length (allocation_bitmap fa)" using f b(3) by linarith
  have len: "length (mark_frame (unat f) (allocation_bitmap fa)) = length (allocation_bitmap fa)"
    by (simp add: mark_frame_def)
  have al: "allocated fa' = insert f (allocated fa)"
    using f by (auto simp: fa' allocated_def frame_bit_mark [OF lt] unat_eq_iff)
  have "f \<notin> allocated fa" using free by (simp add: allocated_def)
  then have c: "card (allocated fa') = Suc (card (allocated fa))" by (simp add: al)
  have cnt: "unat (fa_allocated_count fa) = card (allocated fa)"
    using inv by (simp add: fa_inv_def)
  have "unat (fa_allocated_count fa + 1) = Suc (card (allocated fa))"
    using cnt card_allocated_le [OF inv] b(5)
    by (subst unat_inc_64 [where m = 4294967296]) auto
  then have "fa_inv fa'"
    using inv nx c by (simp add: fa_inv_def fa' len frame_bit_mark [OF lt])
  with al show ?thesis by simp
qed

lemma AllocateFrame_spec:
  assumes inv: "fa_inv fa" and run: "AllocateFrame fa = (r, fa')"
  shows "fa_inv fa' \<and> fa_frame_count fa' = fa_frame_count fa \<and> frames fa' = frames fa \<and>
    (case r of
       None \<Rightarrow> fa' = fa \<and> allocated fa = {f. unat f < unat (fa_frame_count fa)}
     | Some f \<Rightarrow> unat f < unat (fa_frame_count fa) \<and> f \<notin> allocated fa \<and>
         allocated fa' = insert f (allocated fa))"
proof (cases r)
  case (Some f)
  have scan: "AllocateFrame_scan fa 0 = (Some f, fa')"
    using run Some by (auto simp: AllocateFrame_def split: if_splits)
  then obtain nx where f: "unat f < 64 * length (allocation_bitmap fa)"
    and free: "\<not> frame_bit (allocation_bitmap fa) (unat f)"
    and nx: "unat nx < length (allocation_bitmap fa)"
    and fa': "fa' = fa\<lparr>allocation_bitmap := mark_frame (unat f) (allocation_bitmap fa),
               fa_allocated_count := fa_allocated_count fa + 1, next_search_word := nx\<rparr>"
    using AllocateFrame_scan_Some [OF _ inv] by blast
  have lt: "unat f < unat (fa_frame_count fa)" using fa_inv_tail [OF inv f free] .
  show ?thesis
    using mark_frame_inv [OF inv lt free nx fa'] lt free Some
    by (simp add: fa' allocated_def)
next
  case None
  show ?thesis
  proof (cases "fa_allocated_count fa = fa_frame_count fa")
    case True
    have "allocated fa \<subseteq> {f. unat f < unat (fa_frame_count fa)}" by (auto simp: allocated_def)
    moreover have "card (allocated fa) = card {f :: FrameId. unat f < unat (fa_frame_count fa)}"
      using inv True card_frames_below [OF fa_inv_bitmap_length(5) [OF inv]] by (simp add: fa_inv_def)
    ultimately have "allocated fa = {f. unat f < unat (fa_frame_count fa)}"
      by (intro card_subset_eq) simp_all
    then show ?thesis using run True None inv by (simp add: AllocateFrame_def)
  next
    case False
    then have scan: "AllocateFrame_scan fa 0 = (None, fa')"
      using run None by (simp add: AllocateFrame_def)
    have full: "allocation_bitmap fa ! w = kFullWord" if "w < length (allocation_bitmap fa)" for w
    proof -
      obtain j where "j < length (allocation_bitmap fa)"
        and "(unat (next_search_word fa) + j) mod length (allocation_bitmap fa) = w"
        using probe_covers [OF fa_inv_bitmap_length(4) [OF inv] \<open>w < _\<close>] .
      then show ?thesis using AllocateFrame_scan_None [OF scan inv, of j] by simp
    qed
    have "frame_bit (allocation_bitmap fa) (unat f)" if "unat f < unat (fa_frame_count fa)" for f :: FrameId
    proof -
      have "unat f div 64 < length (allocation_bitmap fa)"
        using that fa_inv_bitmap_length(3) [OF inv] by (intro word_index_bound) linarith
      then show ?thesis
        using full by (simp add: frame_bit_def kFullWord_def)
    qed
    then have "allocated fa = {f. unat f < unat (fa_frame_count fa)}" by (auto simp: allocated_def)
    then show ?thesis using AllocateFrame_scan_None_same [OF scan] None inv by simp
  qed
qed

lemma IsAllocated_frame_eq:
  assumes "fa_inv fa"
  shows "IsAllocated_frame fa f =
    (if unat f < unat (fa_frame_count fa) then Inr (f \<in> allocated fa)
     else Inl (out_of_range ''invalid frame id''))"
proof -
  have "(w AND BitMask f \<noteq> 0) = bit w (unat f mod 64)" for w
    by (simp add: BitMask_def kBitsPerWord_def unat_mod bit_iff_and_push_bit_not_eq_0)
  then show ?thesis
    by (auto simp: IsAllocated_frame_def ValidateFrameId_def allocated_def frame_bit_def
        unat_WordIndex word_le_nat_alt)
qed

lemma ValidateAllocatedFrameId_eq:
  assumes "fa_inv fa"
  shows "ValidateAllocatedFrameId fa f =
    (if \<not> unat f < unat (fa_frame_count fa) then Inl (out_of_range ''invalid frame id'')
     else if f \<notin> allocated fa then Inl (logic_error ''frame is not allocated'') else Inr ())"
  by (auto simp: ValidateAllocatedFrameId_def IsAllocated_frame_eq [OF assms] ValidateFrameId_def
      word_le_nat_alt)

lemma allocated_bound: "f \<in> allocated fa \<Longrightarrow> unat f < unat (fa_frame_count fa)"
  by (simp add: allocated_def)

lemma FreeFrame_spec:
  assumes inv: "fa_inv fa" and f: "f \<in> allocated fa"
  shows "\<exists>fa'. FreeFrame f fa = (Inr (), fa') \<and> fa_inv fa' \<and> fa_frame_count fa' = fa_frame_count fa \<and>
    frames fa' = frames fa \<and> allocated fa' = allocated fa - {f}"
proof -
  let ?bm = "(allocation_bitmap fa)[unat f div 64 := allocation_bitmap fa ! (unat f div 64) AND NOT (BitMask f)]"
  let ?fa = "fa\<lparr>allocation_bitmap := ?bm, fa_allocated_count := fa_allocated_count fa - 1,
      next_search_word := WordIndex f\<rparr>"
  note b = fa_inv_bitmap_length [OF inv]
  have fc: "unat f < unat (fa_frame_count fa)" using f by (rule allocated_bound)
  have wi: "unat f div 64 < length (allocation_bitmap fa)"
    using fc b(3) by (intro word_index_bound) linarith
  have fb: "frame_bit ?bm i \<longleftrightarrow> i \<noteq> unat f \<and> frame_bit (allocation_bitmap fa) i" for i
  proof (cases "i div 64 = unat f div 64")
    case True
    then have "i = unat f \<longleftrightarrow> i mod 64 = unat f mod 64"
      by (metis div_mult_mod_eq)
    then show ?thesis using True wi
      by (simp add: frame_bit_update bit_and_iff bit_not_iff bit_BitMask) (auto simp: frame_bit_def)
  next
    case False
    then show ?thesis using wi by (auto simp: frame_bit_update)
  qed
  have al: "allocated ?fa = allocated fa - {f}"
    by (auto simp: allocated_def fb unat_eq_iff)
  have cnt: "unat (fa_allocated_count fa) = card (allocated fa)" and pos: "0 < card (allocated fa)"
    using inv f by (auto simp: fa_inv_def card_gt_0_iff)
  have "1 \<le> fa_allocated_count fa"
    using cnt pos by (simp add: word_le_nat_alt)
  then have "unat (fa_allocated_count fa - 1) = card (allocated fa) - 1"
    using cnt by (simp add: unat_sub)
  then have "fa_inv ?fa"
    using inv wi f fc by (auto simp: fa_inv_def fb al unat_WordIndex)
  then show ?thesis
    using fc f by (simp add: FreeFrame_def ValidateAllocatedFrameId_eq [OF inv] Let_def unat_WordIndex al)
qed

lemma page_at_eq:
  assumes "fa_inv fa" and "f \<in> allocated fa"
  shows "page_at fa f = Inr (frames fa ! unat f)"
  using assms allocated_bound [OF assms(2)] by (simp add: page_at_def ValidateAllocatedFrameId_eq)

lemma page_ok_frame: "fa_inv fa \<Longrightarrow> unat f < unat (fa_frame_count fa) \<Longrightarrow> page_ok (frames fa ! unat f)"
  by (simp add: fa_inv_def)

lemma update_page_spec:
  assumes inv: "fa_inv fa" and f: "f \<in> allocated fa" and ok: "page_ok (g (frames fa ! unat f))"
  shows "\<exists>fa'. update_page f g fa = (Inr (), fa') \<and> fa_inv fa' \<and> fa_frame_count fa' = fa_frame_count fa \<and>
    frames fa' = (frames fa)[unat f := g (frames fa ! unat f)] \<and> allocated fa' = allocated fa"
proof -
  let ?fa = "fa\<lparr>frames := (frames fa)[unat f := g (frames fa ! unat f)]\<rparr>"
  have al: "allocated ?fa = allocated fa" by (simp add: allocated_def)
  have "\<forall>pg \<in> set ((frames fa)[unat f := g (frames fa ! unat f)]). page_ok pg"
    using inv ok set_update_subset_insert [of "frames fa" "unat f"] by (auto simp: fa_inv_def)
  then have "fa_inv ?fa" using inv by (simp add: fa_inv_def al)
  then show ?thesis
    using f allocated_bound [OF f] by (simp add: update_page_def ValidateAllocatedFrameId_eq [OF inv] al)
qed

lemma unat_kBitsPerWord: "unat kBitsPerWord = 64"
  by (simp add: kBitsPerWord_def)

lemma bitmap_words:
  assumes "0 < unat fc" and "unat fc < 4294967296"
  shows "unat ((fc + kBitsPerWord - 1) div kBitsPerWord) = (unat fc + 63) div 64"
proof -
  have eq: "fc + kBitsPerWord - 1 = fc + 63"
    by (simp add: kBitsPerWord_def)
  have "unat (fc + 63) = unat fc + 63"
    using assms by (subst unat_add_lem [THEN iffD1]) simp_all
  then show ?thesis unfolding eq unat_div unat_kBitsPerWord by (rule arg_cong)
qed

lemma unat_max_FrameId: "unat (- 1 :: FrameId) = 4294967295"
  by (simp add: unsigned_minus_1_eq_mask mask_eq_exp_minus_1)

lemma tail_word:
  assumes "(n :: nat) mod 64 \<noteq> 0"
  shows "n div 64 = (n + 63) div 64 - 1"
proof -
  obtain q r where n: "n = 64 * q + r" and r: "0 < r" "r < 64"
    using assms by (metis bot_nat_0.not_eq_extremum mod_less_divisor mult_div_mod_eq zero_less_numeral)
  have "(n + 63) div 64 = Suc q" unfolding n using r by (intro div_nat_eqI) auto
  moreover have "n div 64 = q" unfolding n using r by (intro div_nat_eqI) auto
  ultimately show ?thesis by simp
qed

lemma words_exact:
  assumes "(n :: nat) mod 64 = 0"
  shows "64 * ((n + 63) div 64) = n"
proof -
  obtain q where n: "n = 64 * q" using assms by (metis mod_0_imp_dvd dvdE)
  have "(n + 63) div 64 = q" unfolding n by (intro div_nat_eqI) auto
  with n show ?thesis by simp
qed

lemma below_tail:
  fixes i n :: nat
  assumes "i div 64 \<noteq> (n + 63) div 64 - 1" and "i div 64 < (n + 63) div 64"
  shows "i < n"
proof -
  have "i div 64 < (n + 63) div 64 - 1" using assms by simp
  then show ?thesis by linarith
qed

lemma words_pos: "0 < n \<Longrightarrow> 0 < (n + 63 :: nat) div 64"
  by linarith

lemma initial_bitmap_bits:
  fixes fc :: size_t
  assumes fc: "0 < unat fc" "unat fc < 4294967296"
    and bm: "bm = replicate ((unat fc + 63) div 64) (0 :: 64 word)"
    and fa: "fa = \<lparr>fa_frame_count = fc, fa_allocated_count = 0, next_search_word = 0, frames = fr,
      allocation_bitmap = bm\<rparr>"
  shows "\<exists>bm'. MaskUnusedTailBits fa = fa\<lparr>allocation_bitmap := bm'\<rparr> \<and> length bm' = length bm \<and>
    (\<forall>i. i < 64 * length bm \<longrightarrow> (frame_bit bm' i \<longleftrightarrow> unat fc \<le> i))"
proof -
  have n: "length bm = (unat fc + 63) div 64" "0 < length bm" using fc by (simp_all add: bm)
  have zero: "\<not> frame_bit bm i" if "i < 64 * length bm" for i
    using word_index_bound [OF that] by (simp add: frame_bit_def bm)
  have ub: "unat (fc mod kBitsPerWord) = unat fc mod 64" by (simp add: kBitsPerWord_def unat_mod)
  show ?thesis
  proof (cases "unat fc mod 64 = 0")
    case True
    then have "MaskUnusedTailBits fa = fa"
      using ub by (simp add: MaskUnusedTailBits_def fa Let_def word_unat_eq_iff)
    then have "MaskUnusedTailBits fa = fa\<lparr>allocation_bitmap := bm\<rparr>" by (simp add: fa)
    moreover have "64 * length bm = unat fc" unfolding n(1) using True by (rule words_exact)
    ultimately show ?thesis using zero by (intro exI [where x = bm]) simp
  next
    case False
    let ?w = "last bm OR NOT (push_bit (unat fc mod 64) 1 - 1)"
    let ?bm = "bm[length bm - 1 := ?w]"
    have last: "last bm = 0" using n by (simp add: bm)
    have bit_w: "bit ?w j \<longleftrightarrow> unat fc mod 64 \<le> j" if "j < 64" for j
    proof -
      have "(push_bit (unat fc mod 64) 1 - 1 :: 64 word) = mask (unat fc mod 64)"
        unfolding push_bit_of_1 mask_eq_exp_minus_1 by (rule refl)
      then have "bit ?w j \<longleftrightarrow> \<not> bit (mask (unat fc mod 64) :: 64 word) j"
        using that by (simp only: last bit_or_iff bit_not_iff) simp
      then show ?thesis using that by (simp add: bit_mask_iff not_less)
    qed
    have "MaskUnusedTailBits fa = fa\<lparr>allocation_bitmap := ?bm\<rparr>"
      using False ub by (simp add: MaskUnusedTailBits_def fa Let_def word_unat_eq_iff)
    moreover have "frame_bit ?bm i \<longleftrightarrow> unat fc \<le> i" if i: "i < 64 * length bm" for i
    proof (cases "i div 64 = length bm - 1")
      case True
      have "frame_bit ?bm i \<longleftrightarrow> unat fc mod 64 \<le> i mod 64"
        using True n(2) bit_w [of "i mod 64"] by (simp add: frame_bit_update)
      moreover have "i = 64 * (i div 64) + i mod 64" and "unat fc = 64 * (unat fc div 64) + unat fc mod 64"
        by simp_all
      moreover have "unat fc div 64 = length bm - 1" unfolding n(1) using False by (rule tail_word)
      ultimately show ?thesis using True by linarith
    next
      case other: False
      then have "\<not> frame_bit ?bm i" using n(2) zero [OF i] by (simp add: frame_bit_update)
      moreover have "i < unat fc"
        using other word_index_bound [OF i] unfolding n(1) by (rule below_tail)
      ultimately show ?thesis by simp
    qed
    ultimately show ?thesis by (intro exI [where x = ?bm]) simp
  qed
qed

lemma new_FrameAllocator_spec:
  "(case new_FrameAllocator fc of
      Inl e \<Rightarrow> fc = 0 \<or> 4294967295 < unat fc
    | Inr fa \<Rightarrow> 0 < unat fc \<and> unat fc < 4294967296 \<and> fa_inv fa \<and> fa_frame_count fa = fc \<and>
        allocated fa = {} \<and> (\<forall>pg \<in> set (frames fa). pg = zero_page))"
proof (cases "0 < unat fc \<and> unat fc < 4294967296")
  case False
  then show ?thesis
    by (auto simp: new_FrameAllocator_def Let_def word_less_nat_alt unat_eq_0 unat_max_FrameId)
next
  case True
  let ?bm = "replicate ((unat fc + 63) div 64) (0 :: 64 word)"
  let ?fa = "\<lparr>fa_frame_count = fc, fa_allocated_count = 0, next_search_word = 0,
      frames = replicate (unat fc) zero_page, allocation_bitmap = ?bm\<rparr>"
  obtain bm' where bm': "MaskUnusedTailBits ?fa = ?fa\<lparr>allocation_bitmap := bm'\<rparr>"
      "length bm' = length ?bm" "\<And>i. i < 64 * length ?bm \<Longrightarrow> frame_bit bm' i \<longleftrightarrow> unat fc \<le> i"
    using initial_bitmap_bits [OF conjunct1 [OF True] conjunct2 [OF True] refl refl,
        where fr = "replicate (unat fc) zero_page"] by blast
  have new: "new_FrameAllocator fc = Inr (?fa\<lparr>allocation_bitmap := bm'\<rparr>)"
    using True bm'(1) bitmap_words [of fc]
    by (auto simp: new_FrameAllocator_def Let_def word_less_nat_alt unat_eq_0 unat_max_FrameId)
  have al: "allocated (?fa\<lparr>allocation_bitmap := bm'\<rparr>) = {}"
  proof -
    have "\<not> frame_bit bm' (unat f)" if "unat f < unat fc" for f :: FrameId
      using that True bm'(3) [of "unat f"] by simp
    then show ?thesis by (auto simp: allocated_def)
  qed
  have "fa_inv (?fa\<lparr>allocation_bitmap := bm'\<rparr>)"
    using True bm'(2,3) al words_pos [of "unat fc"] by (simp add: fa_inv_def)
  then show ?thesis using True al by (simp add: new)
qed

subsection \<open>The allocator as a pool of frames\<close>

lemma FreeFrame_error:
  assumes "fa_inv fa" and "f \<notin> allocated fa"
  shows "FreeFrame f fa =
    (Inl (if unat f < unat (fa_frame_count fa) then logic_error ''frame is not allocated''
          else out_of_range ''invalid frame id''), fa)"
  using assms(2) by (simp add: FreeFrame_def ValidateAllocatedFrameId_eq [OF assms(1)])

definition frame_ids :: "FrameAllocator \<Rightarrow> FrameId set" where
  "frame_ids fa = {f. unat f < unat (fa_frame_count fa)}"

interpretation frame_pool: id_pool AllocateFrame fa_inv frame_ids allocated FreeFrame allocated
proof unfold_locales
  fix fa f fa' assume inv: "fa_inv fa" and run: "AllocateFrame fa = (Some f, fa')"
  show "fa_inv fa' \<and> frame_ids fa' = frame_ids fa \<and> f \<in> frame_ids fa \<and> f \<notin> allocated fa \<and>
      allocated fa' = insert f (allocated fa)"
    and "allocated fa' = insert f (allocated fa)"
    using AllocateFrame_spec [OF inv run] by (simp_all add: frame_ids_def)
next
  fix fa f assume "fa_inv fa" and "f \<in> allocated fa"
  then show "\<exists>fa'. FreeFrame f fa = (Inr (), fa') \<and> fa_inv fa' \<and> frame_ids fa' = frame_ids fa \<and>
      allocated fa' = allocated fa - {f} \<and> allocated fa' = allocated fa - {f}"
    using FreeFrame_spec [of fa f] unfolding frame_ids_def by metis
next
  fix fa fa' assume "fa_inv fa" and "AllocateFrame fa = (None, fa')"
  then show "fa' = fa \<and> allocated fa = frame_ids fa" using AllocateFrame_spec [of fa None fa'] by (simp add: frame_ids_def)
next
  fix fa f assume "fa_inv fa" and "f \<notin> allocated fa"
  then show "\<exists>e. FreeFrame f fa = (Inl e, fa)" by (simp add: FreeFrame_error)
qed (auto simp: frame_ids_def allocated_def)

subsection \<open>Properties\<close>

text \<open>C17: the allocator implements a set of allocated frames: \<^verbatim>\<open>AllocateFrame\<close> hands out a
  valid frame that was free, or nothing exactly when all frames are allocated, without touching any
  page; \<^verbatim>\<open>FreeFrame\<close> takes back an allocated frame and refuses any other.\<close>

theorem allocator_refines_set:
  assumes "fa_inv fa"
  shows "(case AllocateFrame fa of (r, fa') \<Rightarrow> fa_inv fa' \<and> frames fa' = frames fa \<and>
      (case r of
         None \<Rightarrow> fa' = fa \<and> (\<forall>f. unat f < unat (fa_frame_count fa) \<longrightarrow> f \<in> allocated fa)
       | Some f \<Rightarrow> unat f < unat (fa_frame_count fa) \<and> f \<notin> allocated fa \<and> allocated fa' = insert f (allocated fa))) \<and>
    (case FreeFrame g fa of
       (Inl e, fa') \<Rightarrow> fa' = fa \<and> g \<notin> allocated fa \<and>
         e = (if unat g < unat (fa_frame_count fa) then logic_error ''frame is not allocated''
              else out_of_range ''invalid frame id'')
     | (Inr _, fa') \<Rightarrow> fa_inv fa' \<and> frames fa' = frames fa \<and> g \<in> allocated fa \<and> allocated fa' = allocated fa - {g})"
proof (intro conjI)
  obtain r fa' where run: "AllocateFrame fa = (r, fa')" by fastforce
  show "case AllocateFrame fa of (r, fa') \<Rightarrow> fa_inv fa' \<and> frames fa' = frames fa \<and>
      (case r of
         None \<Rightarrow> fa' = fa \<and> (\<forall>f. unat f < unat (fa_frame_count fa) \<longrightarrow> f \<in> allocated fa)
       | Some f \<Rightarrow> unat f < unat (fa_frame_count fa) \<and> f \<notin> allocated fa \<and> allocated fa' = insert f (allocated fa))"
    using AllocateFrame_spec [OF assms run] run by (auto split: option.splits)
  show "case FreeFrame g fa of
       (Inl e, fa') \<Rightarrow> fa' = fa \<and> g \<notin> allocated fa \<and>
         e = (if unat g < unat (fa_frame_count fa) then logic_error ''frame is not allocated''
              else out_of_range ''invalid frame id'')
     | (Inr _, fa') \<Rightarrow> fa_inv fa' \<and> frames fa' = frames fa \<and> g \<in> allocated fa \<and> allocated fa' = allocated fa - {g}"
  proof (cases "g \<in> allocated fa")
    case True
    obtain fa' where "FreeFrame g fa = (Inr (), fa')" "fa_inv fa'" "frames fa' = frames fa" "allocated fa' = allocated fa - {g}"
      using FreeFrame_spec [OF assms True] by blast
    then show ?thesis using True by (simp only: prod.case sum.case simp_thms)
  next
    case False
    then show ?thesis by (simp add: FreeFrame_error [OF assms])
  qed
qed

theorem allocator_refines_set_witness:
  "\<exists>fa. new_FrameAllocator 70 = Inr fa \<and> fst (FreeFrame 3 fa) = Inl (logic_error ''frame is not allocated'')"
proof -
  obtain fa where fa: "new_FrameAllocator 70 = Inr fa"
    using new_FrameAllocator_spec [of 70] by (cases "new_FrameAllocator 70") auto
  then have i: "fa_inv fa" "fa_frame_count fa = 70" "allocated fa = {}" using new_FrameAllocator_spec [of 70] by auto
  show ?thesis using allocator_refines_set [OF i(1), of 3] fa i(2,3) by (auto split: prod.splits sum.splits)
qed

text \<open>The count of free frames is exact, and an allocation can be refused only when it is zero.\<close>

theorem free_count_is_exact:
  assumes "fa_inv fa"
  shows "unat (free_count fa) = card {f. unat f < unat (fa_frame_count fa) \<and> f \<notin> allocated fa} \<and>
    (fst (AllocateFrame fa) = None \<longleftrightarrow> free_count fa = 0)"
proof -
  let ?all = "{f :: FrameId. unat f < unat (fa_frame_count fa)}"
  have sub: "allocated fa \<subseteq> ?all" by (auto simp: allocated_def)
  have c: "unat (fa_allocated_count fa) = card (allocated fa)" "unat (fa_frame_count fa) < 4294967296"
    using assms by (simp_all add: fa_inv_def)
  have "card (allocated fa) \<le> unat (fa_frame_count fa)" using card_allocated_le [OF assms] .
  then have "unat (free_count fa) = unat (fa_frame_count fa) - card (allocated fa)"
    using c(1) by (simp add: free_count_def unat_sub word_le_nat_alt)
  also have "\<dots> = card (?all - allocated fa)"
    using sub card_frames_below [OF c(2)] by (simp add: card_Diff_subset)
  finally have n: "unat (free_count fa) = card {f. unat f < unat (fa_frame_count fa) \<and> f \<notin> allocated fa}"
    by (simp add: set_diff_eq)
  obtain r fa' where run: "AllocateFrame fa = (r, fa')" by fastforce
  have "r = None \<longleftrightarrow> {f. unat f < unat (fa_frame_count fa) \<and> f \<notin> allocated fa} = {}"
    using AllocateFrame_spec [OF assms run] by (cases r) auto
  then show ?thesis using n run by (simp add: unat_eq_0 [symmetric])
qed

theorem free_count_is_exact_witness:
  "\<exists>fa. new_FrameAllocator 70 = Inr fa \<and> unat (free_count fa) = card {f :: FrameId. unat f < 70}"
proof -
  obtain fa where fa: "new_FrameAllocator 70 = Inr fa"
    using new_FrameAllocator_spec [of 70] by (cases "new_FrameAllocator 70") auto
  then have i: "fa_inv fa" "fa_frame_count fa = 70" "allocated fa = {}" using new_FrameAllocator_spec [of 70] by auto
  show ?thesis using free_count_is_exact [OF i(1)] fa i(2,3) by simp
qed

text \<open>C38: a new allocator of \<open>n\<close> frames hands out each frame exactly once in its first
  \<open>n\<close> allocations and then refuses, over all words of the bitmap and with a partly used last word;
  given back in any order, all frames are free again, and a frame that was given back twice is refused.\<close>

theorem every_frame_is_handed_out_once:
  assumes "new_FrameAllocator n = Inr fa" and "draws AllocateFrame (unat n + k) fa = (fs, fa')"
    and "distinct gs" and "set gs = set fs"
  shows "distinct fs \<and> set fs = {f. unat f < unat n} \<and> length fs = unat n \<and> fst (AllocateFrame fa') = None \<and>
    (\<exists>fa''. give_all FreeFrame gs fa' = (Inr (), fa'') \<and> allocated fa'' = {} \<and> free_count fa'' = n \<and>
      (\<forall>f. FreeFrame f fa'' = (Inl (if unat f < unat n then logic_error ''frame is not allocated''
          else out_of_range ''invalid frame id''), fa'')))"
proof -
  have fa: "fa_inv fa" "fa_frame_count fa = n" "allocated fa = {}" "unat n < 4294967296"
    using new_FrameAllocator_spec [of n] assms(1) by auto
  then have ids: "frame_ids fa = {f. unat f < unat n}" "card (frame_ids fa) = unat n"
    by (simp_all add: frame_ids_def card_frames_below)
  have all: "fa_inv fa'" "frame_ids fa' = frame_ids fa" "distinct fs" "set fs = frame_ids fa" "allocated fa' = frame_ids fa"
    using frame_pool.draws_all [OF fa(1) _ assms(2)] ids fa(3) by auto
  have "fst (AllocateFrame fa') = None"
  proof (cases "AllocateFrame fa'")
    case (Pair r t)
    then show ?thesis using frame_pool.draw_some [OF all(1), of _ t] all(2,5) by (cases r) auto
  qed
  moreover obtain fa'' where ret: "give_all FreeFrame gs fa' = (Inr (), fa'')" "fa_inv fa''" "frame_ids fa'' = frame_ids fa"
      "allocated fa'' = {}"
    using frame_pool.draws_give_all [OF fa(1) assms(2-4)] fa(3) by auto
  moreover have "unat (fa_frame_count fa'') = unat n"
    using card_frames_below [of "unat (fa_frame_count fa'')"] fa_inv_bitmap_length(5) [OF ret(2)] ret(3) ids
    unfolding frame_ids_def by metis
  moreover from this have n'': "fa_frame_count fa'' = n" by (simp add: unat_eq_iff)
  moreover have "free_count fa'' = n"
  proof -
    have "fa_allocated_count fa'' = 0" using ret(2,4) by (simp add: fa_inv_def unat_eq_0)
    then show ?thesis using n'' by (simp add: free_count_def)
  qed
  ultimately show ?thesis
    using all ids distinct_card [OF all(3)] FreeFrame_error [OF ret(2)] by auto
qed

theorem every_frame_is_handed_out_once_witness:
  "\<exists>fa fs fa' fa''. new_FrameAllocator 70 = Inr fa \<and> draws AllocateFrame (unat (70 :: size_t) + 2) fa = (fs, fa') \<and>
     set fs = {f. unat f < 70} \<and> give_all FreeFrame (rev fs) fa' = (Inr (), fa'') \<and> allocated fa'' = {}"
proof -
  obtain fa where fa: "new_FrameAllocator 70 = Inr fa"
    using new_FrameAllocator_spec [of 70] by (cases "new_FrameAllocator 70") auto
  obtain fs fa' where fs: "draws AllocateFrame (unat (70 :: size_t) + 2) fa = (fs, fa')" by fastforce
  then have "distinct fs" using fa frame_pool.draws_fresh [of fa] new_FrameAllocator_spec [of 70] by fastforce
  then show ?thesis using every_frame_is_handed_out_once [OF fa fs, of "rev fs"] fa fs by auto
qed

text \<open>The constructor refuses no frames and more frames than a frame identifier can name, and
  otherwise makes an allocator of free, zeroed frames, also when the last word of the bitmap is only
  partly used.\<close>

theorem constructor_makes_free_frames:
  "(case new_FrameAllocator n of
      Inl e \<Rightarrow> n = 0 \<or> 4294967295 < unat n
    | Inr fa \<Rightarrow> n \<noteq> 0 \<and> unat n \<le> 4294967295 \<and> fa_inv fa \<and> fa_frame_count fa = n \<and> allocated fa = {} \<and>
        (\<forall>pg \<in> set (frames fa). pg = zero_page))"
  using new_FrameAllocator_spec [of n] by (auto simp: unat_gt_0 split: sum.splits)

theorem constructor_makes_free_frames_witness:
  "\<exists>fa. new_FrameAllocator 65 = Inr fa \<and> allocated fa = {}"
  using constructor_makes_free_frames [of 65] by (cases "new_FrameAllocator 65") auto

end
