(* ===== verification/Page_Table.thy ===== *)
theory Page_Table
  imports Id_Pool
begin

text \<open>
  The page table (\<^verbatim>\<open>src/page/page_table.h\<close> and \<^verbatim>\<open>.cc\<close>): one entry per page
  identifier with the page's state and its frame, a high-water mark and a stack of freed
  identifiers.
\<close>

subsection \<open>State\<close>

datatype PageState = kUnused | kNonResident | kLoading | kResident | kEvicting

record PageEntry =
  pe_state :: PageState
  pe_frame_id :: "FrameId option"

definition no_entry :: PageEntry where
  "no_entry = \<lparr>pe_state = kUnused, pe_frame_id = None\<rparr>"

record PageTable =
  max_page_count :: PageId
  next_page_id :: PageId
  pt_allocated_count :: PageId
  pages :: "PageEntry list"
  free_page_ids :: "PageId list"

subsection \<open>Operations\<close>

definition new_PageTable :: "PageId \<Rightarrow> exn + PageTable" where
  "new_PageTable max_count =
     (if max_count = 0 then Inl (invalid_argument ''max_page_count must be greater than zero'')
      else if max_count > - 1 then Inl (invalid_argument ''max_page_count does not fit into size_t'')
      else Inr \<lparr>max_page_count = max_count, next_page_id = 0, pt_allocated_count = 0,
                pages = replicate (unat max_count) no_entry, free_page_ids = []\<rparr>)"

definition PageTable_ValidatePageId :: "PageTable \<Rightarrow> PageId \<Rightarrow> exn + unit" where
  "PageTable_ValidatePageId pt page_id =
     (if page_id \<ge> max_page_count pt then Inl (out_of_range ''invalid page id'') else Inr ())"

text \<open>\<^verbatim>\<open>EntryFor\<close> returns a reference: it is read here, and written by \<open>put_entry\<close>.\<close>

definition EntryFor :: "PageTable \<Rightarrow> PageId \<Rightarrow> exn + PageEntry" where
  "EntryFor pt page_id =
     bindE (PageTable_ValidatePageId pt page_id) (\<lambda>_. Inr (pages pt ! unat page_id))"

definition put_entry :: "PageId \<Rightarrow> PageEntry \<Rightarrow> PageTable \<Rightarrow> PageTable" where
  "put_entry page_id e pt = pt\<lparr>pages := (pages pt)[unat page_id := e]\<rparr>"

text \<open>
  \<^verbatim>\<open>AllocatePageId\<close>: its first half takes an identifier, from the top of the stack of freed
  ones or from the high-water mark; the second half writes the entry.
\<close>

definition take_page_id :: "(PageTable, PageId) act" where
  "take_page_id pt =
     (if free_page_ids pt \<noteq> [] then
        (Inr (last (free_page_ids pt)), pt\<lparr>free_page_ids := butlast (free_page_ids pt)\<rparr>)
      else if next_page_id pt = max_page_count pt then
        (Inl (runtime_error ''maximum number of pages reached''), pt)
      else (Inr (next_page_id pt), pt\<lparr>next_page_id := next_page_id pt + 1\<rparr>))"

definition AllocatePageId :: "(PageTable, PageId) act" where
  "AllocatePageId =
     bindA take_page_id (\<lambda>page_id.
     bindA (readA (\<lambda>pt. EntryFor pt page_id)) (\<lambda>entry.
     thenA (modifyA (put_entry page_id (entry\<lparr>pe_state := kNonResident, pe_frame_id := None\<rparr>)))
     (thenA (modifyA (\<lambda>pt. pt\<lparr>pt_allocated_count := pt_allocated_count pt + 1\<rparr>))
     (returnA page_id))))"

definition FreePageId :: "PageId \<Rightarrow> (PageTable, unit) act" where
  "FreePageId page_id =
     bindA (readA (\<lambda>pt. EntryFor pt page_id)) (\<lambda>entry.
     if pe_state entry = kUnused then throwA (logic_error ''cannot free an unused page'')
     else if pe_state entry \<noteq> kNonResident then
       throwA (logic_error ''cannot free a page that is still memory-managed'')
     else
       thenA (modifyA (put_entry page_id no_entry))
       (modifyA (\<lambda>pt. pt\<lparr>free_page_ids := free_page_ids pt @ [page_id],
                          pt_allocated_count := pt_allocated_count pt - 1\<rparr>)))"

definition IsAllocated_page :: "PageTable \<Rightarrow> PageId \<Rightarrow> exn + bool" where
  "IsAllocated_page pt page_id = bindE (EntryFor pt page_id) (\<lambda>e. Inr (pe_state e \<noteq> kUnused))"

definition IsResident :: "PageTable \<Rightarrow> PageId \<Rightarrow> exn + bool" where
  "IsResident pt page_id = bindE (EntryFor pt page_id) (\<lambda>e. Inr (pe_state e = kResident))"

definition State :: "PageTable \<Rightarrow> PageId \<Rightarrow> exn + PageState" where
  "State pt page_id = bindE (EntryFor pt page_id) (\<lambda>e. Inr (pe_state e))"

definition FrameForPage :: "PageTable \<Rightarrow> PageId \<Rightarrow> exn + FrameId option" where
  "FrameForPage pt page_id =
     bindE (EntryFor pt page_id) (\<lambda>entry.
     if pe_state entry = kUnused then Inl (logic_error ''unused page has no frame'')
     else Inr (pe_frame_id entry))"

definition SetLoading :: "PageId \<Rightarrow> FrameId \<Rightarrow> (PageTable, unit) act" where
  "SetLoading page_id frame_id =
     bindA (readA (\<lambda>pt. EntryFor pt page_id)) (\<lambda>entry.
     if pe_state entry = kUnused then throwA (logic_error ''cannot load an unused page'')
     else if pe_state entry \<noteq> kNonResident then
       throwA (logic_error ''page must be nonresident before loading'')
     else modifyA (put_entry page_id (entry\<lparr>pe_state := kLoading, pe_frame_id := Some frame_id\<rparr>)))"

definition SetResident :: "PageId \<Rightarrow> FrameId \<Rightarrow> (PageTable, unit) act" where
  "SetResident page_id frame_id =
     bindA (readA (\<lambda>pt. EntryFor pt page_id)) (\<lambda>entry.
     if pe_state entry = kUnused then throwA (logic_error ''cannot make an unused page resident'')
     else if pe_state entry = kResident then throwA (logic_error ''page is already resident'')
     else if pe_state entry = kEvicting then
       throwA (logic_error ''cannot make an evicting page resident'')
     else if pe_state entry = kLoading \<and> pe_frame_id entry \<noteq> Some frame_id then
       throwA (logic_error ''loading page frame mismatch'')
     else modifyA (put_entry page_id (entry\<lparr>pe_state := kResident, pe_frame_id := Some frame_id\<rparr>)))"

definition SetNonResident :: "PageId \<Rightarrow> (PageTable, unit) act" where
  "SetNonResident page_id =
     bindA (readA (\<lambda>pt. EntryFor pt page_id)) (\<lambda>entry.
     if pe_state entry = kUnused then
       throwA (logic_error ''cannot make an unused page nonresident'')
     else modifyA (put_entry page_id (entry\<lparr>pe_state := kNonResident, pe_frame_id := None\<rparr>)))"

definition SetEvicting :: "PageId \<Rightarrow> (PageTable, unit) act" where
  "SetEvicting page_id =
     bindA (readA (\<lambda>pt. EntryFor pt page_id)) (\<lambda>entry.
     if pe_state entry = kUnused then throwA (logic_error ''cannot evict an unused page'')
     else if pe_state entry \<noteq> kResident then
       throwA (logic_error ''only resident pages can become evicting'')
     else modifyA (put_entry page_id (entry\<lparr>pe_state := kEvicting\<rparr>)))"

subsection \<open>Invariant\<close>

text \<open>The entry of a page, for any identifier: an identifier out of range has no entry.\<close>

definition page_entry :: "PageTable \<Rightarrow> PageId \<Rightarrow> PageEntry" where
  "page_entry pt p = (if unat p < length (pages pt) then pages pt ! unat p else no_entry)"

definition entry_ok :: "PageEntry \<Rightarrow> bool" where
  "entry_ok e \<longleftrightarrow> (pe_frame_id e = None \<longleftrightarrow> pe_state e \<in> {kUnused, kNonResident})"

definition live_pages :: "PageTable \<Rightarrow> PageId set" where
  "live_pages pt = {p. pe_state (page_entry pt p) \<noteq> kUnused}"

definition pt_inv :: "PageTable \<Rightarrow> bool" where
  "pt_inv pt \<longleftrightarrow>
     0 < unat (max_page_count pt) \<and>
     length (pages pt) = unat (max_page_count pt) \<and>
     unat (next_page_id pt) \<le> unat (max_page_count pt) \<and>
     distinct (free_page_ids pt) \<and>
     (\<forall>p. p \<in> live_pages pt \<longleftrightarrow> unat p < unat (next_page_id pt) \<and> p \<notin> set (free_page_ids pt)) \<and>
     (\<forall>p \<in> set (free_page_ids pt). unat p < unat (next_page_id pt)) \<and>
     (\<forall>p. entry_ok (page_entry pt p)) \<and>
     unat (pt_allocated_count pt) = card (live_pages pt)"

lemma no_entry_simps [simp]:
  "pe_state no_entry = kUnused" "pe_frame_id no_entry = None" "entry_ok no_entry"
  by (simp_all add: no_entry_def entry_ok_def)

lemma entry_eqI:
  "pe_state e = st \<Longrightarrow> pe_frame_id e = fr \<Longrightarrow> e = \<lparr>pe_state = st, pe_frame_id = fr\<rparr>"
  by (cases e) simp

lemma EntryFor_eq:
  "pt_inv pt \<Longrightarrow> EntryFor pt p =
     (if unat p < unat (max_page_count pt) then Inr (page_entry pt p)
      else Inl (out_of_range ''invalid page id''))"
  by (simp add: EntryFor_def PageTable_ValidatePageId_def page_entry_def pt_inv_def word_le_nat_alt)

lemma page_entry_out_of_range:
  "pt_inv pt \<Longrightarrow> \<not> unat p < unat (max_page_count pt) \<Longrightarrow> page_entry pt p = no_entry"
  by (simp add: page_entry_def pt_inv_def)

lemma in_range_if_used:
  "pt_inv pt \<Longrightarrow> pe_state (page_entry pt p) \<noteq> kUnused \<Longrightarrow> unat p < unat (max_page_count pt)"
  using page_entry_out_of_range [of pt p] by (cases "unat p < unat (max_page_count pt)") auto

lemma page_entry_put:
  "unat p < length (pages pt) \<Longrightarrow> page_entry (put_entry p e pt) = (page_entry pt)(p := e)"
  by (auto simp: fun_eq_iff page_entry_def put_entry_def nth_list_update_if unat_eq_iff)

lemma put_entry_fields [simp]:
  "max_page_count (put_entry p e pt) = max_page_count pt"
  "next_page_id (put_entry p e pt) = next_page_id pt"
  "pt_allocated_count (put_entry p e pt) = pt_allocated_count pt"
  "free_page_ids (put_entry p e pt) = free_page_ids pt"
  "length (pages (put_entry p e pt)) = length (pages pt)"
  by (simp_all add: put_entry_def)

lemma page_entry_cong: "pages pt' = pages pt \<Longrightarrow> page_entry pt' = page_entry pt"
  by (auto simp: page_entry_def fun_eq_iff)

text \<open>Replacing a live page's entry by another live one keeps the invariant.\<close>

lemma put_entry_inv:
  assumes inv: "pt_inv pt" and live: "pe_state (page_entry pt p) \<noteq> kUnused"
    and e: "pe_state e \<noteq> kUnused" "entry_ok e"
  shows "pt_inv (put_entry p e pt) \<and> page_entry (put_entry p e pt) = (page_entry pt)(p := e)"
proof -
  have p: "unat p < length (pages pt)"
    using in_range_if_used [OF inv live] inv by (simp add: pt_inv_def)
  have "live_pages (put_entry p e pt) = live_pages pt"
    using live e by (auto simp: live_pages_def page_entry_put [OF p])
  then show ?thesis
    using inv e by (auto simp: pt_inv_def page_entry_put [OF p])
qed

lemma new_PageTable_spec:
  "(case new_PageTable n of
      Inl e \<Rightarrow> n = 0
    | Inr pt \<Rightarrow> 0 < unat n \<and> pt_inv pt \<and> max_page_count pt = n \<and> page_entry pt = (\<lambda>_. no_entry))"
proof -
  have "\<not> (- 1 :: PageId) < n" by (simp add: not_less)
  moreover have "page_entry \<lparr>max_page_count = n, next_page_id = 0, pt_allocated_count = 0,
      pages = replicate (unat n) no_entry, free_page_ids = []\<rparr> = (\<lambda>_. no_entry)"
    by (auto simp: page_entry_def fun_eq_iff)
  ultimately show ?thesis
    by (auto simp: new_PageTable_def pt_inv_def live_pages_def unat_eq_0 word_neq_0_conv word_less_nat_alt)
qed

lemma pt_inv_parts:
  assumes "pt_inv pt"
  shows "0 < unat (max_page_count pt)" and "length (pages pt) = unat (max_page_count pt)"
    and "unat (next_page_id pt) \<le> unat (max_page_count pt)" and "distinct (free_page_ids pt)"
    and "q \<in> live_pages pt \<longleftrightarrow> unat q < unat (next_page_id pt) \<and> q \<notin> set (free_page_ids pt)"
    and "q \<in> set (free_page_ids pt) \<Longrightarrow> unat q < unat (next_page_id pt)"
    and "entry_ok (page_entry pt q)"
    and "unat (pt_allocated_count pt) = card (live_pages pt)"
  using assms by (simp_all add: pt_inv_def)

lemma live_pages_finite [simp]: "finite (live_pages pt)"
  by (rule finite)

lemma live_pages_below:
  "pt_inv pt \<Longrightarrow> live_pages pt \<subseteq> {p. unat p < unat (max_page_count pt)}"
  using in_range_if_used by (auto simp: live_pages_def)

lemma card_pages_below:
  assumes "n \<le> 18446744073709551615"
  shows "card {p :: PageId. unat p < n} = n"
proof -
  have lt: "k < 18446744073709551616" if "k < n" for k using that assms by simp
  have "{p :: PageId. unat p < n} = of_nat ` {..<n}"
  proof (intro set_eqI iffI)
    fix p :: PageId assume "p \<in> {p. unat p < n}"
    then show "p \<in> of_nat ` {..<n}" by (auto intro!: image_eqI [where x = "unat p"])
  next
    fix p :: PageId assume "p \<in> of_nat ` {..<n}"
    then obtain k where "k < n" "p = of_nat k" by auto
    then show "p \<in> {p. unat p < n}" using lt [of k] by (simp add: unat_of_nat_64)
  qed
  moreover have "inj_on (of_nat :: nat \<Rightarrow> PageId) {..<n}"
    using lt by (intro inj_on_inverseI [where g = unat]) (simp add: unat_of_nat_64)
  ultimately show ?thesis by (simp add: card_image)
qed

lemma live_pages_lt:
  assumes inv: "pt_inv pt" and p: "unat p < unat (max_page_count pt)" "p \<notin> live_pages pt"
  shows "card (live_pages pt) < unat (max_page_count pt)"
proof -
  have "live_pages pt \<subset> {p. unat p < unat (max_page_count pt)}"
    using live_pages_below [OF inv] p by auto
  then have "card (live_pages pt) < card {p :: PageId. unat p < unat (max_page_count pt)}"
    by (intro psubset_card_mono) simp_all
  then show ?thesis using card_pages_below [of "unat (max_page_count pt)"] unat_64_less [of "max_page_count pt"]
    by simp
qed

lemma entry_overwrite [simp]:
  "e\<lparr>pe_state := st, pe_frame_id := fr\<rparr> = \<lparr>pe_state = st, pe_frame_id = fr\<rparr>"
  by (cases e) simp

text \<open>The identifier \<open>AllocatePageId\<close> takes, before it writes the entry.\<close>

lemma take_page_id_inv:
  assumes inv: "pt_inv pt" and id: "unat p < unat (max_page_count pt)" "p \<notin> live_pages pt"
    and free: "free_page_ids pt \<noteq> [] \<and> p = last (free_page_ids pt) \<and> nx = next_page_id pt \<and>
        fr = butlast (free_page_ids pt)
      \<or> free_page_ids pt = [] \<and> p = next_page_id pt \<and> nx = next_page_id pt + 1 \<and> fr = []"
    and e: "pe_state e \<noteq> kUnused" "entry_ok e"
    and pt': "pt' = (put_entry p e pt)\<lparr>free_page_ids := fr, next_page_id := nx,
        pt_allocated_count := pt_allocated_count pt + 1\<rparr>"
  shows "pt_inv pt' \<and> page_entry pt' = (page_entry pt)(p := e)"
proof -
  have len: "unat p < length (pages pt)" using inv id by (simp add: pt_inv_def)
  have pe: "page_entry pt' = (page_entry pt)(p := e)"
    using page_entry_put [OF len, of e] page_entry_cong [of pt' "put_entry p e pt"] by (simp add: pt')
  have live: "live_pages pt' = insert p (live_pages pt)"
    using e by (auto simp: live_pages_def pe)
  note inv_parts = pt_inv_parts(4,5,6,3) [OF inv]
  have lists: "distinct fr \<and> unat nx \<le> unat (max_page_count pt) \<and>
    (\<forall>q. q \<in> live_pages pt' \<longleftrightarrow> unat q < unat nx \<and> q \<notin> set fr) \<and> (\<forall>q \<in> set fr. unat q < unat nx)"
    using free
  proof
    assume a: "free_page_ids pt \<noteq> [] \<and> p = last (free_page_ids pt) \<and> nx = next_page_id pt \<and>
        fr = butlast (free_page_ids pt)"
    then show ?thesis
      using butlast_last_distinct [OF inv_parts(1)] inv_parts(2-4) by (auto simp: live)
  next
    assume a: "free_page_ids pt = [] \<and> p = next_page_id pt \<and> nx = next_page_id pt + 1 \<and> fr = []"
    then have "unat nx = Suc (unat p)"
      using id unat_64_less [of "max_page_count pt"] by (simp add: unat_inc_64)
    then show ?thesis
      using a inv_parts(2) id by (auto simp: live less_Suc_eq unat_eq_iff)
  qed
  have "unat (pt_allocated_count pt + 1) = Suc (card (live_pages pt))"
    using inv live_pages_lt [OF inv id] unat_64_less [of "max_page_count pt"]
    by (subst unat_inc_64 [where m = "unat (max_page_count pt)"]) (simp_all add: pt_inv_parts(8) [OF inv])
  moreover have "pt_allocated_count pt' = pt_allocated_count pt + 1" by (simp add: pt')
  ultimately have cnt: "unat (pt_allocated_count pt') = card (live_pages pt')"
    using id by (simp add: live)
  have "free_page_ids pt' = fr" "next_page_id pt' = nx" "max_page_count pt' = max_page_count pt"
    "length (pages pt') = length (pages pt)" by (simp_all add: pt')
  then have "pt_inv pt'"
    unfolding pt_inv_def using lists cnt e pt_inv_parts [OF inv] by (simp add: pe)
  with pe show ?thesis by simp
qed

lemma AllocatePageId_spec:
  assumes inv: "pt_inv pt" and run: "AllocatePageId pt = (r, pt')"
  shows "pt_inv pt' \<and> max_page_count pt' = max_page_count pt \<and>
    (case r of
       Inl e \<Rightarrow> e = runtime_error ''maximum number of pages reached'' \<and> pt' = pt \<and>
         live_pages pt = {p. unat p < unat (max_page_count pt)}
     | Inr p \<Rightarrow> page_entry pt p = no_entry \<and> unat p < unat (max_page_count pt) \<and>
         page_entry pt' = (page_entry pt)(p := \<lparr>pe_state = kNonResident, pe_frame_id = None\<rparr>))"
proof (cases "free_page_ids pt = [] \<and> next_page_id pt = max_page_count pt")
  case True
  then have "r = Inl (runtime_error ''maximum number of pages reached'')" "pt' = pt"
    using run by (simp_all add: AllocatePageId_def bindA_def take_page_id_def)
  moreover have "live_pages pt = {p. unat p < unat (max_page_count pt)}"
    using True pt_inv_parts(5) [OF inv] by auto
  ultimately show ?thesis using inv by simp
next
  case False
  define p where "p = (if free_page_ids pt \<noteq> [] then last (free_page_ids pt) else next_page_id pt)"
  define fr where "fr = butlast (free_page_ids pt)"
  define nx where "nx = (if free_page_ids pt \<noteq> [] then next_page_id pt else next_page_id pt + 1)"
  define e where "e = \<lparr>pe_state = kNonResident, pe_frame_id = None :: FrameId option\<rparr>"
  have next_lt: "unat (next_page_id pt) < unat (max_page_count pt)" if "free_page_ids pt = []"
    using that False pt_inv_parts(3) [OF inv] by (simp add: order_less_le unat_eq_iff)
  have p: "unat p < unat (max_page_count pt)" "p \<notin> live_pages pt"
    using next_lt last_in_set [of "free_page_ids pt"] pt_inv_parts(3) [OF inv]
      pt_inv_parts(5) [OF inv, of p] pt_inv_parts(6) [OF inv, of p]
    by (auto simp: p_def split: if_splits)
  let ?pt = "pt\<lparr>free_page_ids := fr, next_page_id := nx\<rparr>"
  have un: "pe_state (page_entry pt p) = kUnused" using p(2) by (simp add: live_pages_def)
  have fr_none: "page_entry pt p = no_entry"
  proof -
    have "entry_ok (page_entry pt p)" using inv by (simp add: pt_inv_def)
    then have "pe_frame_id (page_entry pt p) = None" using un by (simp add: entry_ok_def)
    with un show ?thesis unfolding no_entry_def by (rule entry_eqI)
  qed
  have pe: "pages pt ! unat p = no_entry"
    using fr_none p(1) inv by (simp add: page_entry_def pt_inv_def)
  have entry: "EntryFor ?pt p = Inr no_entry"
    using p(1) pe by (simp add: EntryFor_def PageTable_ValidatePageId_def word_le_nat_alt)
  have "take_page_id pt = (Inr p, ?pt)"
    using False by (auto simp: p_def fr_def nx_def take_page_id_def)
  then have "AllocatePageId pt = (Inr p, (put_entry p e ?pt)\<lparr>pt_allocated_count := pt_allocated_count pt + 1\<rparr>)"
    using entry by (simp add: AllocatePageId_def bindA_Inr [of take_page_id]
        bindA_Inr [of "readA (\<lambda>pt. EntryFor pt p)"] no_entry_def e_def)
  moreover have "put_entry p e ?pt = (put_entry p e pt)\<lparr>free_page_ids := fr, next_page_id := nx\<rparr>"
    by (cases pt) (simp add: put_entry_def)
  ultimately have run': "r = Inr p" "pt' = (put_entry p e pt)\<lparr>free_page_ids := fr, next_page_id := nx,
        pt_allocated_count := pt_allocated_count pt + 1\<rparr>"
    using run by simp_all
  have "free_page_ids pt \<noteq> [] \<and> p = last (free_page_ids pt) \<and> nx = next_page_id pt \<and>
        fr = butlast (free_page_ids pt)
      \<or> free_page_ids pt = [] \<and> p = next_page_id pt \<and> nx = next_page_id pt + 1 \<and> fr = []"
    by (auto simp: p_def nx_def fr_def)
  then have "pt_inv pt' \<and> page_entry pt' = (page_entry pt)(p := e)"
    by (rule take_page_id_inv [OF inv p _ _ _ run'(2)]) (simp_all add: e_def entry_ok_def)
  then show ?thesis using run' fr_none p(1) by (simp add: e_def)
qed

lemma read_entry:
  "pt_inv pt \<Longrightarrow> unat p < unat (max_page_count pt) \<Longrightarrow>
   bindA (readA (\<lambda>pt. EntryFor pt p)) f pt = f (page_entry pt p) pt"
  by (rule bindA_Inr) (simp add: EntryFor_eq)

lemma read_entry_out_of_range:
  "pt_inv pt \<Longrightarrow> \<not> unat p < unat (max_page_count pt) \<Longrightarrow>
   bindA (readA (\<lambda>pt. EntryFor pt p)) f pt = (Inl (out_of_range ''invalid page id''), pt)"
  by (rule bindA_Inl) (simp add: EntryFor_eq)

lemma FreePageId_spec:
  assumes inv: "pt_inv pt" and st: "pe_state (page_entry pt p) = kNonResident"
  shows "\<exists>pt'. FreePageId p pt = (Inr (), pt') \<and> pt_inv pt' \<and> max_page_count pt' = max_page_count pt \<and>
    page_entry pt' = (page_entry pt)(p := no_entry)"
proof -
  let ?pt = "(put_entry p no_entry pt)\<lparr>free_page_ids := free_page_ids pt @ [p],
      pt_allocated_count := pt_allocated_count pt - 1\<rparr>"
  have p: "unat p < unat (max_page_count pt)" using in_range_if_used [OF inv] st by simp
  have live: "p \<in> live_pages pt" using st by (simp add: live_pages_def)
  have run: "FreePageId p pt = (Inr (), ?pt)"
    using st by (simp add: FreePageId_def read_entry [OF inv p])
  have pe: "page_entry ?pt = (page_entry pt)(p := no_entry)"
    using page_entry_put [of p pt no_entry] p pt_inv_parts(2) [OF inv]
      page_entry_cong [of ?pt "put_entry p no_entry pt"] by simp
  have lv: "live_pages ?pt = live_pages pt - {p}"
    unfolding live_pages_def pe by auto
  have pos: "0 < card (live_pages pt)" using live by (auto simp: card_gt_0_iff)
  then have "unat (pt_allocated_count pt - 1) = card (live_pages pt) - 1"
    using pt_inv_parts(8) [OF inv] by (simp add: unat_sub word_le_nat_alt)
  then have "pt_inv ?pt"
    unfolding pt_inv_def lv using pt_inv_parts [OF inv] live by (auto simp: pe)
  with run pe show ?thesis by simp
qed

lemma SetLoading_spec:
  assumes inv: "pt_inv pt" and st: "pe_state (page_entry pt p) = kNonResident"
  shows "\<exists>pt'. SetLoading p f pt = (Inr (), pt') \<and> pt_inv pt' \<and> max_page_count pt' = max_page_count pt \<and>
    page_entry pt' = (page_entry pt)(p := \<lparr>pe_state = kLoading, pe_frame_id = Some f\<rparr>)"
proof -
  let ?e = "\<lparr>pe_state = kLoading, pe_frame_id = Some f\<rparr>"
  have p: "unat p < unat (max_page_count pt)" using in_range_if_used [OF inv] st by simp
  have "SetLoading p f pt = (Inr (), put_entry p ?e pt)"
    using st by (simp add: SetLoading_def read_entry [OF inv p])
  then show ?thesis using put_entry_inv [OF inv, of p ?e] st by (simp add: entry_ok_def)
qed

lemma SetResident_spec:
  assumes inv: "pt_inv pt"
    and st: "pe_state (page_entry pt p) = kNonResident \<or> page_entry pt p = \<lparr>pe_state = kLoading, pe_frame_id = Some f\<rparr>"
  shows "\<exists>pt'. SetResident p f pt = (Inr (), pt') \<and> pt_inv pt' \<and> max_page_count pt' = max_page_count pt \<and>
    page_entry pt' = (page_entry pt)(p := \<lparr>pe_state = kResident, pe_frame_id = Some f\<rparr>)"
proof -
  let ?e = "\<lparr>pe_state = kResident, pe_frame_id = Some f\<rparr>"
  have u: "pe_state (page_entry pt p) \<noteq> kUnused" using st by auto
  have p: "unat p < unat (max_page_count pt)" using in_range_if_used [OF inv u] .
  have "SetResident p f pt = (Inr (), put_entry p ?e pt)"
    using st by (auto simp: SetResident_def read_entry [OF inv p])
  then show ?thesis using put_entry_inv [OF inv u, of ?e] by (simp add: entry_ok_def)
qed

lemma SetNonResident_spec:
  assumes inv: "pt_inv pt" and st: "pe_state (page_entry pt p) \<noteq> kUnused"
  shows "\<exists>pt'. SetNonResident p pt = (Inr (), pt') \<and> pt_inv pt' \<and> max_page_count pt' = max_page_count pt \<and>
    page_entry pt' = (page_entry pt)(p := \<lparr>pe_state = kNonResident, pe_frame_id = None\<rparr>)"
proof -
  let ?e = "\<lparr>pe_state = kNonResident, pe_frame_id = None\<rparr>"
  have p: "unat p < unat (max_page_count pt)" using in_range_if_used [OF inv st] .
  have "SetNonResident p pt = (Inr (), put_entry p ?e pt)"
    using st by (simp add: SetNonResident_def read_entry [OF inv p])
  then show ?thesis using put_entry_inv [OF inv st, of ?e] by (simp add: entry_ok_def)
qed

lemma SetEvicting_spec:
  assumes inv: "pt_inv pt" and st: "page_entry pt p = \<lparr>pe_state = kResident, pe_frame_id = Some f\<rparr>"
  shows "\<exists>pt'. SetEvicting p pt = (Inr (), pt') \<and> pt_inv pt' \<and> max_page_count pt' = max_page_count pt \<and>
    page_entry pt' = (page_entry pt)(p := \<lparr>pe_state = kEvicting, pe_frame_id = Some f\<rparr>)"
proof -
  let ?e = "\<lparr>pe_state = kEvicting, pe_frame_id = Some f\<rparr>"
  have u: "pe_state (page_entry pt p) \<noteq> kUnused" using st by simp
  have p: "unat p < unat (max_page_count pt)" using in_range_if_used [OF inv u] .
  have "SetEvicting p pt = (Inr (), put_entry p ?e pt)"
    using st by (simp add: SetEvicting_def read_entry [OF inv p])
  then show ?thesis using put_entry_inv [OF inv u, of ?e] by (simp add: entry_ok_def)
qed

lemma State_eq: "pt_inv pt \<Longrightarrow> unat p < unat (max_page_count pt) \<Longrightarrow> State pt p = Inr (pe_state (page_entry pt p))"
  by (simp add: State_def EntryFor_eq)

lemma State_out_of_range:
  "pt_inv pt \<Longrightarrow> \<not> unat p < unat (max_page_count pt) \<Longrightarrow> State pt p = Inl (out_of_range ''invalid page id'')"
  by (simp add: State_def EntryFor_eq)

lemma FrameForPage_eq:
  "pt_inv pt \<Longrightarrow> pe_state (page_entry pt p) \<noteq> kUnused \<Longrightarrow> FrameForPage pt p = Inr (pe_frame_id (page_entry pt p))"
  using in_range_if_used [of pt p] by (simp add: FrameForPage_def EntryFor_eq)

subsection \<open>The state machine of a page\<close>

text \<open>
  The transitions a page's state may make, one rule per use in the code. Every operation of
  the table either throws and leaves the table as it was, or makes one of these transitions on
  one page and leaves every other page alone.
\<close>

inductive page_step :: "PageState \<Rightarrow> PageState \<Rightarrow> bool" where
  allocate: "page_step kUnused kNonResident"
| free: "page_step kNonResident kUnused"
| load: "page_step kNonResident kLoading"
| publish: "page_step kLoading kResident"
| install: "page_step kNonResident kResident"
| evict: "page_step kResident kEvicting"
| release: "s \<noteq> kUnused \<Longrightarrow> page_step s kNonResident"

inductive_cases page_step_from_unused: "page_step kUnused s"
inductive_cases page_step_from_evicting: "page_step kEvicting s"
inductive_cases page_step_to_resident: "page_step s kResident"
inductive_simps page_step_to_unused: "page_step s kUnused"

datatype pt_cmd =
    Cmd_Allocate
  | Cmd_Free PageId
  | Cmd_SetLoading PageId FrameId
  | Cmd_SetResident PageId FrameId
  | Cmd_SetNonResident PageId
  | Cmd_SetEvicting PageId

fun pt_exec :: "pt_cmd \<Rightarrow> (PageTable, PageId) act" where
  "pt_exec Cmd_Allocate = AllocatePageId"
| "pt_exec (Cmd_Free p) = thenA (FreePageId p) (returnA p)"
| "pt_exec (Cmd_SetLoading p f) = thenA (SetLoading p f) (returnA p)"
| "pt_exec (Cmd_SetResident p f) = thenA (SetResident p f) (returnA p)"
| "pt_exec (Cmd_SetNonResident p) = thenA (SetNonResident p) (returnA p)"
| "pt_exec (Cmd_SetEvicting p) = thenA (SetEvicting p) (returnA p)"


text \<open>What each operation throws, and that it then leaves the table as it was.\<close>

lemma FreePageId_error:
  assumes "pt_inv pt" and "pe_state (page_entry pt p) \<noteq> kNonResident"
  shows "FreePageId p pt =
    (Inl (if \<not> unat p < unat (max_page_count pt) then out_of_range ''invalid page id''
          else if pe_state (page_entry pt p) = kUnused then logic_error ''cannot free an unused page''
          else logic_error ''cannot free a page that is still memory-managed''), pt)"
  using assms by (simp add: FreePageId_def read_entry read_entry_out_of_range)

lemma SetLoading_error:
  assumes "pt_inv pt" and "pe_state (page_entry pt p) \<noteq> kNonResident"
  shows "SetLoading p f pt =
    (Inl (if \<not> unat p < unat (max_page_count pt) then out_of_range ''invalid page id''
          else if pe_state (page_entry pt p) = kUnused then logic_error ''cannot load an unused page''
          else logic_error ''page must be nonresident before loading''), pt)"
  using assms by (simp add: SetLoading_def read_entry read_entry_out_of_range)

lemma SetResident_error:
  assumes "pt_inv pt" and "pe_state (page_entry pt p) \<noteq> kNonResident"
    and "page_entry pt p \<noteq> \<lparr>pe_state = kLoading, pe_frame_id = Some f\<rparr>"
  shows "SetResident p f pt =
    (Inl (if \<not> unat p < unat (max_page_count pt) then out_of_range ''invalid page id''
          else case pe_state (page_entry pt p) of
              kUnused \<Rightarrow> logic_error ''cannot make an unused page resident''
            | kResident \<Rightarrow> logic_error ''page is already resident''
            | kEvicting \<Rightarrow> logic_error ''cannot make an evicting page resident''
            | _ \<Rightarrow> logic_error ''loading page frame mismatch''), pt)"
proof (cases "unat p < unat (max_page_count pt)")
  case True
  moreover have "pe_frame_id (page_entry pt p) \<noteq> Some f" if "pe_state (page_entry pt p) = kLoading"
    using that assms(3) entry_eqI by blast
  ultimately show ?thesis using assms(1,2)
    by (cases "pe_state (page_entry pt p)") (simp_all add: SetResident_def read_entry)
next
  case False
  then show ?thesis using assms by (simp add: SetResident_def read_entry_out_of_range)
qed

lemma SetNonResident_error:
  assumes "pt_inv pt" and "pe_state (page_entry pt p) = kUnused"
  shows "SetNonResident p pt =
    (Inl (if \<not> unat p < unat (max_page_count pt) then out_of_range ''invalid page id''
          else logic_error ''cannot make an unused page nonresident''), pt)"
  using assms by (simp add: SetNonResident_def read_entry read_entry_out_of_range)

lemma SetEvicting_error:
  assumes "pt_inv pt" and "pe_state (page_entry pt p) \<noteq> kResident"
  shows "SetEvicting p pt =
    (Inl (if \<not> unat p < unat (max_page_count pt) then out_of_range ''invalid page id''
          else if pe_state (page_entry pt p) = kUnused then logic_error ''cannot evict an unused page''
          else logic_error ''only resident pages can become evicting''), pt)"
  using assms by (simp add: SetEvicting_def read_entry read_entry_out_of_range)

lemma resident_has_frame:
  assumes "pt_inv pt" and "pe_state (page_entry pt p) \<in> {kLoading, kResident, kEvicting}"
  obtains f where "page_entry pt p = \<lparr>pe_state = pe_state (page_entry pt p), pe_frame_id = Some f\<rparr>"
proof -
  have "pe_frame_id (page_entry pt p) \<noteq> None"
    using pt_inv_parts(7) [OF assms(1), of p] assms(2) by (auto simp: entry_ok_def)
  then obtain f where "pe_frame_id (page_entry pt p) = Some f" by auto
  then show thesis using that entry_eqI by blast
qed

theorem pt_exec_step:
  assumes inv: "pt_inv pt" and run: "pt_exec c pt = (r, pt')"
  shows "pt_inv pt' \<and> max_page_count pt' = max_page_count pt \<and>
    (case r of
       Inl e \<Rightarrow> pt' = pt
     | Inr p \<Rightarrow> page_step (pe_state (page_entry pt p)) (pe_state (page_entry pt' p)) \<and>
         (\<forall>q. q \<noteq> p \<longrightarrow> page_entry pt' q = page_entry pt q))"
proof (cases c)
  case Cmd_Allocate
  then show ?thesis
    using AllocatePageId_spec [OF inv, of r pt'] run
    by (auto simp: page_step.intros split: sum.splits)
next
  case (Cmd_Free p)
  show ?thesis
  proof (cases "pe_state (page_entry pt p) = kNonResident")
    case True
    with FreePageId_spec [OF inv True] run Cmd_Free page_step.free show ?thesis
      by (auto simp: thenA_Inr)
  next
    case False
    with FreePageId_error [OF inv False] run Cmd_Free inv show ?thesis by (auto simp: thenA_Inl)
  qed
next
  case (Cmd_SetLoading p f)
  show ?thesis
  proof (cases "pe_state (page_entry pt p) = kNonResident")
    case True
    with SetLoading_spec [OF inv True, of f] run Cmd_SetLoading show ?thesis
      by (auto simp: thenA_Inr page_step.intros)
  next
    case False
    with SetLoading_error [OF inv False, of f] run Cmd_SetLoading inv show ?thesis by (auto simp: thenA_Inl)
  qed
next
  case (Cmd_SetResident p f)
  let ?ok = "pe_state (page_entry pt p) = kNonResident \<or>
    page_entry pt p = \<lparr>pe_state = kLoading, pe_frame_id = Some f\<rparr>"
  show ?thesis
  proof (cases ?ok)
    case True
    then have "page_step (pe_state (page_entry pt p)) kResident"
      by (auto intro: page_step.intros)
    with SetResident_spec [OF inv True] run Cmd_SetResident show ?thesis
      by (auto simp: thenA_Inr)
  next
    case False
    with SetResident_error [OF inv, of p f] run Cmd_SetResident inv show ?thesis by (auto simp: thenA_Inl)
  qed
next
  case (Cmd_SetNonResident p)
  show ?thesis
  proof (cases "pe_state (page_entry pt p) = kUnused")
    case True
    with SetNonResident_error [OF inv True] run Cmd_SetNonResident inv show ?thesis
      by (auto simp: thenA_Inl)
  next
    case False
    with SetNonResident_spec [OF inv False] run Cmd_SetNonResident show ?thesis
      by (auto simp: thenA_Inr page_step.intros)
  qed
next
  case (Cmd_SetEvicting p)
  show ?thesis
  proof (cases "pe_state (page_entry pt p) = kResident")
    case True
    then obtain f where "page_entry pt p = \<lparr>pe_state = kResident, pe_frame_id = Some f\<rparr>"
      using resident_has_frame [OF inv, of p] by auto
    with SetEvicting_spec [OF inv this] run Cmd_SetEvicting show ?thesis
      by (auto simp: thenA_Inr page_step.intros)
  next
    case False
    with SetEvicting_error [OF inv False] run Cmd_SetEvicting inv show ?thesis
      by (auto simp: thenA_Inl)
  qed
qed

subsection \<open>The page table as a pool of page identifiers\<close>

definition all_page_ids :: "PageTable \<Rightarrow> PageId set" where
  "all_page_ids pt = {p. unat p < unat (max_page_count pt)}"

definition nonresident_pages :: "PageTable \<Rightarrow> PageId set" where
  "nonresident_pages pt = {p. pe_state (page_entry pt p) = kNonResident}"

interpretation page_id_pool: id_pool "refusing AllocatePageId" pt_inv all_page_ids live_pages FreePageId nonresident_pages
proof unfold_locales
  fix pt p pt' assume inv: "pt_inv pt" and "refusing AllocatePageId pt = (Some p, pt')"
  then have run: "AllocatePageId pt = (Inr p, pt')" by (simp add: refusing_iff)
  show "pt_inv pt' \<and> all_page_ids pt' = all_page_ids pt \<and> p \<in> all_page_ids pt \<and> p \<notin> live_pages pt \<and>
      live_pages pt' = insert p (live_pages pt)"
    and "nonresident_pages pt' = insert p (nonresident_pages pt)"
    using AllocatePageId_spec [OF inv run] by (auto simp: all_page_ids_def live_pages_def nonresident_pages_def)
next
  fix pt p assume "pt_inv pt" and "p \<in> nonresident_pages pt"
  then obtain pt' where "FreePageId p pt = (Inr (), pt')" "pt_inv pt'" "max_page_count pt' = max_page_count pt"
      "page_entry pt' = (page_entry pt)(p := no_entry)"
    using FreePageId_spec [of pt p] by (auto simp: nonresident_pages_def)
  then show "\<exists>pt'. FreePageId p pt = (Inr (), pt') \<and> pt_inv pt' \<and> all_page_ids pt' = all_page_ids pt \<and>
      live_pages pt' = live_pages pt - {p} \<and> nonresident_pages pt' = nonresident_pages pt - {p}"
    by (auto simp: all_page_ids_def live_pages_def nonresident_pages_def)
next
  fix pt pt' assume "pt_inv pt" and "refusing AllocatePageId pt = (None, pt')"
  then show "pt' = pt \<and> live_pages pt = all_page_ids pt"
    using AllocatePageId_spec [of pt _ pt'] by (fastforce simp: refusing_iff all_page_ids_def)
next
  fix pt p assume "pt_inv pt" and "p \<notin> nonresident_pages pt"
  then show "\<exists>e. FreePageId p pt = (Inl e, pt)" using FreePageId_error [of pt p] by (simp add: nonresident_pages_def)
next
  fix pt assume "pt_inv pt"
  then show "live_pages pt \<subseteq> all_page_ids pt" by (auto simp: live_pages_def all_page_ids_def dest: in_range_if_used)
qed (auto simp: all_page_ids_def live_pages_def nonresident_pages_def)

subsection \<open>Properties\<close>

text \<open>C18: every operation of the page table either throws and leaves the table as it was, or makes
  one transition of the state machine of pages on one page and leaves all other pages alone.\<close>

theorem table_follows_page_machine:
  assumes "pt_inv pt" and "pt_exec c pt = (r, pt')"
  shows "pt_inv pt' \<and> max_page_count pt' = max_page_count pt \<and>
    (case r of
       Inl e \<Rightarrow> pt' = pt
     | Inr p \<Rightarrow> page_step (pe_state (page_entry pt p)) (pe_state (page_entry pt' p)) \<and>
         (\<forall>q. q \<noteq> p \<longrightarrow> page_entry pt' q = page_entry pt q))"
  by (rule pt_exec_step [OF assms])

lemma ex_page_table:
  "\<exists>pt pt'. new_PageTable 2 = Inr pt \<and> pt_inv pt \<and> max_page_count pt = 2 \<and> page_entry pt = (\<lambda>_. no_entry) \<and>
     AllocatePageId pt = (Inr 0, pt') \<and> pt_inv pt' \<and> max_page_count pt' = 2 \<and> pe_state (page_entry pt' 0) = kNonResident"
proof -
  have n: "new_PageTable 2 = Inr \<lparr>max_page_count = 2, next_page_id = 0, pt_allocated_count = 0,
      pages = [no_entry, no_entry], free_page_ids = []\<rparr>"
    by code_simp
  let ?pt = "\<lparr>max_page_count = 2, next_page_id = 0, pt_allocated_count = 0, pages = [no_entry, no_entry], free_page_ids = []\<rparr>"
  have i: "pt_inv ?pt" "page_entry ?pt = (\<lambda>_. no_entry)" using new_PageTable_spec [of 2] n by simp_all
  have "fst (AllocatePageId ?pt) = Inr 0" by code_simp
  then obtain pt' where a: "AllocatePageId ?pt = (Inr 0, pt')" by (cases "AllocatePageId ?pt") auto
  then have "pt_inv pt'" "max_page_count pt' = 2" "pe_state (page_entry pt' 0) = kNonResident"
    using AllocatePageId_spec [OF i(1) a] by simp_all
  then show ?thesis using n i a by (intro exI [where x = ?pt] exI [where x = pt']) simp
qed

theorem table_follows_page_machine_witness:
  "\<exists>pt pt'. pt_exec Cmd_Allocate pt = (Inr 0, pt') \<and> page_step (pe_state (page_entry pt 0)) (pe_state (page_entry pt' 0))"
proof -
  obtain pt pt' where *: "pt_inv pt" "AllocatePageId pt = (Inr 0, pt')" using ex_page_table by blast
  then show ?thesis using table_follows_page_machine [OF *(1), of Cmd_Allocate "Inr 0" pt'] by auto
qed

text \<open>C29: a page identifier is handed out only when it is not in use, and allocation fails only when
  all identifiers below the maximum are in use.\<close>

theorem page_ids_are_fresh:
  assumes "pt_inv pt" and "AllocatePageId pt = (r, pt')"
  shows "case r of
       Inl e \<Rightarrow> e = runtime_error ''maximum number of pages reached'' \<and> pt' = pt \<and>
         (\<forall>p < max_page_count pt. p \<in> live_pages pt)
     | Inr p \<Rightarrow> p \<notin> live_pages pt \<and> p < max_page_count pt \<and> live_pages pt' = insert p (live_pages pt)"
proof (cases r)
  case (Inl e)
  then show ?thesis using AllocatePageId_spec [OF assms] by (auto simp: word_less_nat_alt)
next
  case (Inr p)
  then have "page_entry pt p = no_entry" "unat p < unat (max_page_count pt)"
      "page_entry pt' = (page_entry pt)(p := \<lparr>pe_state = kNonResident, pe_frame_id = None\<rparr>)"
    using AllocatePageId_spec [OF assms] by simp_all
  then show ?thesis using Inr by (auto simp: live_pages_def word_less_nat_alt)
qed

theorem page_ids_are_fresh_witness:
  "\<exists>pt pt'. AllocatePageId pt = (Inr 0, pt') \<and> 0 \<notin> live_pages pt \<and> live_pages pt' = insert 0 (live_pages pt)"
proof -
  obtain pt pt' where *: "pt_inv pt" "AllocatePageId pt = (Inr 0, pt')" using ex_page_table by blast
  then show ?thesis using page_ids_are_fresh [OF *] by auto
qed

text \<open>C30: an operation of the page table returns exactly when the state of the page allows it.\<close>

theorem table_guards_are_exact:
  assumes "pt_inv pt"
  shows "(fst (FreePageId p pt) = Inr () \<longleftrightarrow> pe_state (page_entry pt p) = kNonResident) \<and>
    (fst (SetLoading p f pt) = Inr () \<longleftrightarrow> pe_state (page_entry pt p) = kNonResident) \<and>
    (fst (SetResident p f pt) = Inr () \<longleftrightarrow>
       pe_state (page_entry pt p) = kNonResident \<or> page_entry pt p = \<lparr>pe_state = kLoading, pe_frame_id = Some f\<rparr>) \<and>
    (fst (SetNonResident p pt) = Inr () \<longleftrightarrow> pe_state (page_entry pt p) \<noteq> kUnused) \<and>
    (fst (SetEvicting p pt) = Inr () \<longleftrightarrow> pe_state (page_entry pt p) = kResident)"
proof (intro conjI)
  show "fst (FreePageId p pt) = Inr () \<longleftrightarrow> pe_state (page_entry pt p) = kNonResident"
    using FreePageId_spec [OF assms, of p] FreePageId_error [OF assms, of p] by fastforce
  show "fst (SetLoading p f pt) = Inr () \<longleftrightarrow> pe_state (page_entry pt p) = kNonResident"
    using SetLoading_spec [OF assms, of p f] SetLoading_error [OF assms, of p f] by fastforce
  show "fst (SetResident p f pt) = Inr () \<longleftrightarrow>
       pe_state (page_entry pt p) = kNonResident \<or> page_entry pt p = \<lparr>pe_state = kLoading, pe_frame_id = Some f\<rparr>"
    using SetResident_spec [OF assms, of p f] SetResident_error [OF assms, of p f] by fastforce
  show "fst (SetNonResident p pt) = Inr () \<longleftrightarrow> pe_state (page_entry pt p) \<noteq> kUnused"
    using SetNonResident_spec [OF assms, of p] SetNonResident_error [OF assms, of p] by fastforce
  show "fst (SetEvicting p pt) = Inr () \<longleftrightarrow> pe_state (page_entry pt p) = kResident"
  proof (cases "pe_state (page_entry pt p) = kResident")
    case True
    then obtain g where "page_entry pt p = \<lparr>pe_state = kResident, pe_frame_id = Some g\<rparr>"
      using resident_has_frame [OF assms, of p] by auto
    then show ?thesis using SetEvicting_spec [OF assms, of p g] by auto
  next
    case False
    then show ?thesis using SetEvicting_error [OF assms, of p] by auto
  qed
qed

theorem table_guards_are_exact_witness:
  "\<exists>pt. fst (SetLoading 0 7 pt) = Inr () \<and> fst (SetEvicting 0 pt) \<noteq> Inr ()"
proof -
  obtain pt where "pt_inv pt" "pe_state (page_entry pt 0) = kNonResident" using ex_page_table by blast
  then show ?thesis using table_guards_are_exact [of pt 0 7] by auto
qed

text \<open>C33: a new page table hands out each page identifier exactly once in its first \<open>m\<close>
  allocations and then refuses; freed in any order, the identifiers are all there again, and each can
  be freed only once.\<close>

theorem every_page_id_is_handed_out_once:
  assumes "new_PageTable m = Inr pt" and "draws (refusing AllocatePageId) (unat m + k) pt = (ps, pt')"
    and "distinct qs" and "set qs = set ps"
  shows "distinct ps \<and> set ps = {p. p < m} \<and> fst (AllocatePageId pt') = Inl (runtime_error ''maximum number of pages reached'') \<and>
    (\<exists>pt''. give_all FreePageId qs pt' = (Inr (), pt'') \<and> page_entry pt'' = (\<lambda>_. no_entry) \<and>
      (\<forall>p. fst (FreePageId p pt'') \<noteq> Inr ()) \<and> pt_allocated_count pt'' = 0)"
proof -
  have pt: "pt_inv pt" "max_page_count pt = m" "live_pages pt = {}"
    using new_PageTable_spec [of m] assms(1) by (auto simp: live_pages_def)
  have ids: "all_page_ids pt = {p. p < m}" by (simp add: all_page_ids_def pt(2) word_less_nat_alt)
  have "{p :: PageId. p < m} \<subseteq> of_nat ` {..<unat m}"
    by (auto simp: word_less_nat_alt intro!: image_eqI [where x = "unat _"])
  then have "card {p. p < m} \<le> unat m"
    by (metis card_image_le card_lessThan card_mono finite_imageI finite_lessThan le_trans)
  then have all: "pt_inv pt'" "all_page_ids pt' = {p. p < m}" "distinct ps" "set ps = {p. p < m}" "live_pages pt' = {p. p < m}"
    using page_id_pool.draws_all [OF pt(1) _ assms(2)] ids pt(3) by auto
  have "fst (AllocatePageId pt') = Inl (runtime_error ''maximum number of pages reached'')"
  proof (cases "AllocatePageId pt'")
    case (Pair r t)
    show ?thesis
    proof (cases r)
      case (Inl e)
      then show ?thesis using AllocatePageId_spec [OF all(1) Pair] Pair by simp
    next
      case (Inr p)
      then show ?thesis using page_id_pool.draw_some [OF all(1), of p t] all(2,5) Pair by (auto simp: refusing_iff)
    qed
  qed
  moreover obtain pt'' where pt'': "give_all FreePageId qs pt' = (Inr (), pt'')" "pt_inv pt''" "live_pages pt'' = {}"
    using page_id_pool.draws_give_all [OF pt(1) assms(2-4)] pt(3) by auto
  moreover have unused: "page_entry pt'' p = no_entry" for p
  proof -
    have "pe_state (page_entry pt'' p) = kUnused" using pt''(3) by (auto simp: live_pages_def)
    moreover have "entry_ok (page_entry pt'' p)" using pt_inv_parts(7) [OF pt''(2)] .
    ultimately show ?thesis by (cases "page_entry pt'' p") (simp add: entry_ok_def no_entry_def)
  qed
  moreover have "fst (FreePageId p pt'') \<noteq> Inr ()" for p
    using FreePageId_error [OF pt''(2), of p] unused by (simp add: no_entry_def)
  moreover have "pt_allocated_count pt'' = 0"
    using pt''(2,3) by (simp add: pt_inv_def unat_eq_0)
  ultimately show ?thesis using all(3,4) by (auto simp: fun_eq_iff)
qed

theorem every_page_id_is_handed_out_once_witness:
  "\<exists>pt ps pt' pt''. new_PageTable 2 = Inr pt \<and> draws (refusing AllocatePageId) (unat (2 :: PageId) + 1) pt = (ps, pt') \<and>
     set ps = {0, 1} \<and> give_all FreePageId (rev ps) pt' = (Inr (), pt'') \<and> page_entry pt'' 0 = no_entry"
proof -
  obtain pt where pt: "new_PageTable 2 = Inr pt" "pt_inv pt" using ex_page_table by blast
  obtain ps pt' where ps: "draws (refusing AllocatePageId) (unat (2 :: PageId) + 1) pt = (ps, pt')" by fastforce
  then have "distinct ps" using page_id_pool.draws_fresh [OF pt(2)] by blast
  moreover have "{p :: PageId. p < 2} = {0, 1}" by (auto simp: word_less_nat_alt word_unat_eq_iff less_2_cases_iff)
  ultimately show ?thesis using every_page_id_is_handed_out_once [OF pt(1) ps, of "rev ps"] pt(1) ps by auto
qed

end
