(* ===== verification/Replacer_Interface.thy ===== *)
theory Replacer_Interface
  imports BM_Prelude
begin

text \<open>
  The abstract class \<^verbatim>\<open>Replacer\<close> (\<^verbatim>\<open>src/replacement/replacer.h\<close>): its virtual
  functions as a record, so that the buffer manager's model takes any replacer as the code
  does, and the contract the buffer manager relies on as a locale.
\<close>

record 'r Replacer =
  RecordAccess :: "FrameId \<Rightarrow> ('r, unit) act"
  SetEvictable :: "FrameId \<Rightarrow> bool \<Rightarrow> ('r, unit) act"
  Victim :: "('r, FrameId option) act"
  Remove :: "FrameId \<Rightarrow> ('r, unit) act"
  evictable_count :: "'r \<Rightarrow> size_t"

text \<open>
  The contract: the frames a replacer knows (\<open>tracked\<close>) and those it may hand out
  (\<open>candidates\<close>). Which candidate \<open>Victim\<close> picks is left open; that it picks one when
  there is one, and forgets it, is not.
\<close>

locale replacer_contract =
  fixes ops :: "'r Replacer"
    and inv :: "'r \<Rightarrow> bool"
    and capacity :: "'r \<Rightarrow> nat"
    and tracked :: "'r \<Rightarrow> FrameId set"
    and candidates :: "'r \<Rightarrow> FrameId set"
  assumes access: "inv r \<Longrightarrow> unat f < capacity r \<Longrightarrow>
      \<exists>r'. RecordAccess ops f r = (Inr (), r') \<and> inv r' \<and> capacity r' = capacity r \<and>
        tracked r' = insert f (tracked r) \<and> candidates r' = candidates r"
    and evictable: "inv r \<Longrightarrow> f \<in> tracked r \<Longrightarrow>
      \<exists>r'. SetEvictable ops f b r = (Inr (), r') \<and> inv r' \<and> capacity r' = capacity r \<and>
        tracked r' = tracked r \<and>
        candidates r' = (if b then insert f (candidates r) else candidates r - {f})"
    and victim_none: "inv r \<Longrightarrow> candidates r = {} \<Longrightarrow> Victim ops r = (Inr None, r)"
    and victim_some: "inv r \<Longrightarrow> candidates r \<noteq> {} \<Longrightarrow>
      \<exists>f r'. Victim ops r = (Inr (Some f), r') \<and> f \<in> candidates r \<and> inv r' \<and> capacity r' = capacity r \<and>
        tracked r' = tracked r - {f} \<and> candidates r' = candidates r - {f}"
    and remove: "inv r \<Longrightarrow> unat f < capacity r \<Longrightarrow>
      \<exists>r'. Remove ops f r = (Inr (), r') \<and> inv r' \<and> capacity r' = capacity r \<and>
        tracked r' = tracked r - {f} \<and> candidates r' = candidates r - {f}"
    and subset: "inv r \<Longrightarrow> candidates r \<subseteq> tracked r"
    and bounded: "inv r \<Longrightarrow> f \<in> tracked r \<Longrightarrow> unat f < capacity r"
    and count: "inv r \<Longrightarrow> unat (evictable_count ops r) = card (candidates r)"

end
