(* ===== verification/Clock_Replacer.thy ===== *)
theory Clock_Replacer
  imports Replacer_Interface
begin

text \<open>
  The clock replacer (\<^verbatim>\<open>src/replacement/clock_replacer.h\<close> and \<^verbatim>\<open>.cc\<close>).
\<close>

subsection \<open>State and operations\<close>

record ClockEntry =
  present :: bool
  evictable :: bool
  referenced :: bool

definition empty_slot :: ClockEntry where
  "empty_slot = \<lparr>present = False, evictable = False, referenced = False\<rparr>"

record ClockReplacer =
  entries :: "ClockEntry list"
  clock_hand :: size_t
  clock_evictable_count :: size_t

definition new_ClockReplacer :: "size_t \<Rightarrow> exn + ClockReplacer" where
  "new_ClockReplacer frame_count =
     (if frame_count = 0 then Inl (invalid_argument ''frame_count must be greater than zero'')
      else if frame_count > ucast (- 1 :: FrameId) then
        Inl (invalid_argument ''frame_count does not fit into FrameId'')
      else Inr \<lparr>entries = replicate (unat frame_count) empty_slot, clock_hand = 0,
                clock_evictable_count = 0\<rparr>)"

definition Clock_ValidateFrameId :: "ClockReplacer \<Rightarrow> FrameId \<Rightarrow> exn + unit" where
  "Clock_ValidateFrameId r frame_id =
     (if ucast frame_id \<ge> (of_nat (length (entries r)) :: size_t) then
        Inl (out_of_range ''invalid frame id'')
      else Inr ())"

definition AdvanceClockHand :: "ClockReplacer \<Rightarrow> ClockReplacer" where
  "AdvanceClockHand r =
     (let hand = clock_hand r + 1 in
      r\<lparr>clock_hand := (if hand = of_nat (length (entries r)) then 0 else hand)\<rparr>)"

definition Clock_RecordAccess :: "FrameId \<Rightarrow> (ClockReplacer, unit) act" where
  "Clock_RecordAccess frame_id =
     thenA (readA (\<lambda>r. Clock_ValidateFrameId r frame_id))
     (modifyA (\<lambda>r. r\<lparr>entries := (entries r)[unat frame_id :=
        (entries r ! unat frame_id)\<lparr>present := True, referenced := True\<rparr>]\<rparr>))"

definition Clock_SetEvictable :: "FrameId \<Rightarrow> bool \<Rightarrow> (ClockReplacer, unit) act" where
  "Clock_SetEvictable frame_id can_evict =
     thenA (readA (\<lambda>r. Clock_ValidateFrameId r frame_id))
     (bindA (getA (\<lambda>r. entries r ! unat frame_id)) (\<lambda>entry.
      if \<not> present entry then
        throwA (logic_error ''cannot change evictability of an unknown frame'')
      else if evictable entry = can_evict then returnA ()
      else
        thenA (modifyA (\<lambda>r. r\<lparr>entries := (entries r)[unat frame_id := entry\<lparr>evictable := can_evict\<rparr>]\<rparr>))
        (modifyA (\<lambda>r. r\<lparr>clock_evictable_count :=
           (if can_evict then clock_evictable_count r + 1 else clock_evictable_count r - 1)\<rparr>))))"

definition Clock_Remove :: "FrameId \<Rightarrow> (ClockReplacer, unit) act" where
  "Clock_Remove frame_id =
     thenA (readA (\<lambda>r. Clock_ValidateFrameId r frame_id))
     (bindA (getA (\<lambda>r. entries r ! unat frame_id)) (\<lambda>entry.
      if \<not> present entry then returnA ()
      else
        thenA (modifyA (\<lambda>r. if evictable entry
           then r\<lparr>clock_evictable_count := clock_evictable_count r - 1\<rparr> else r))
        (modifyA (\<lambda>r. r\<lparr>entries := (entries r)[unat frame_id := empty_slot]\<rparr>))))"

text \<open>One pass of \<^verbatim>\<open>Victim\<close>: the inner loop, from \<open>scanned\<close> on.\<close>

function Victim_scan :: "nat \<Rightarrow> (ClockReplacer, FrameId option) act" where
  "Victim_scan scanned r =
     (if scanned < length (entries r) then
        let hand = unat (clock_hand r); entry = entries r ! hand in
        if present entry \<and> evictable entry then
          if referenced entry then
            Victim_scan (Suc scanned)
              (AdvanceClockHand (r\<lparr>entries := (entries r)[hand := entry\<lparr>referenced := False\<rparr>]\<rparr>))
          else
            let victim = ucast (clock_hand r) in
            thenA (Clock_Remove victim)
            (thenA (modifyA AdvanceClockHand)
            (returnA (Some victim))) r
        else Victim_scan (Suc scanned) (AdvanceClockHand r)
      else (Inr None, r))"
  by pat_completeness auto
termination
  by (relation "measure (\<lambda>(scanned, r). length (entries r) - scanned)")
    (auto simp: AdvanceClockHand_def Let_def)

declare Victim_scan.simps [simp del]

definition Clock_Victim :: "(ClockReplacer, FrameId option) act" where
  "Clock_Victim r =
     (if clock_evictable_count r = 0 then (Inr None, r)
      else
        bindA (Victim_scan 0) (\<lambda>first.
          if first \<noteq> None then returnA first else Victim_scan 0) r)"

subsection \<open>Invariant\<close>

definition slot_ok :: "ClockEntry \<Rightarrow> bool" where
  "slot_ok e \<longleftrightarrow> (\<not> present e \<longrightarrow> \<not> evictable e \<and> \<not> referenced e)"

definition tracked_frames :: "ClockReplacer \<Rightarrow> FrameId set" where
  "tracked_frames r = {f. unat f < length (entries r) \<and> present (entries r ! unat f)}"

definition evictable_frames :: "ClockReplacer \<Rightarrow> FrameId set" where
  "evictable_frames r = {f. unat f < length (entries r) \<and> evictable (entries r ! unat f)}"

definition clock_inv :: "ClockReplacer \<Rightarrow> bool" where
  "clock_inv r \<longleftrightarrow>
     0 < length (entries r) \<and> length (entries r) < 4294967296 \<and>
     unat (clock_hand r) < length (entries r) \<and>
     (\<forall>e \<in> set (entries r). slot_ok e) \<and>
     unat (clock_evictable_count r) = card (evictable_frames r)"

lemma clock_inv_parts:
  assumes "clock_inv r"
  shows "0 < length (entries r)" and "length (entries r) < 4294967296"
    and "unat (clock_hand r) < length (entries r)"
    and "i < length (entries r) \<Longrightarrow> slot_ok (entries r ! i)"
    and "unat (clock_evictable_count r) = card (evictable_frames r)"
  using assms by (simp_all add: clock_inv_def)

lemma new_ClockReplacer_spec:
  "(case new_ClockReplacer n of
      Inl e \<Rightarrow> n = 0 \<or> 4294967295 < unat n
    | Inr r \<Rightarrow> 0 < unat n \<and> unat n < 4294967296 \<and> clock_inv r \<and> length (entries r) = unat n \<and>
        tracked_frames r = {} \<and> evictable_frames r = {})"
proof -
  have e: "evictable_frames \<lparr>entries = replicate (unat n) empty_slot, clock_hand = 0,
      clock_evictable_count = 0\<rparr> = {}" "tracked_frames \<lparr>entries = replicate (unat n) empty_slot, clock_hand = 0,
      clock_evictable_count = 0\<rparr> = {}"
    by (auto simp: evictable_frames_def tracked_frames_def empty_slot_def)
  have m: "unat (- 1 :: FrameId) = 4294967295"
    by (simp add: unsigned_minus_1_eq_mask mask_eq_exp_minus_1)
  show ?thesis
    by (auto simp: new_ClockReplacer_def clock_inv_def e word_less_nat_alt unat_eq_0 unat_gt_0 m)
      (auto simp: slot_ok_def empty_slot_def)
qed

lemma Clock_ValidateFrameId_eq:
  assumes "clock_inv r"
  shows "Clock_ValidateFrameId r f =
    (if unat f < length (entries r) then Inr () else Inl (out_of_range ''invalid frame id''))"
  using clock_inv_parts(2) [OF assms]
  by (simp add: Clock_ValidateFrameId_def word_le_nat_alt unat_of_nat_64)

lemma clock_valid:
  assumes "clock_inv r" and "unat f < length (entries r)"
  shows "thenA (readA (\<lambda>r. Clock_ValidateFrameId r f)) m r = m r"
  using assms by (intro thenA_Inr) (simp add: Clock_ValidateFrameId_eq)

lemma clock_invalid:
  assumes "clock_inv r" and "\<not> unat f < length (entries r)"
  shows "thenA (readA (\<lambda>r. Clock_ValidateFrameId r f)) m r = (Inl (out_of_range ''invalid frame id''), r)"
  using assms by (intro thenA_Inl) (simp add: Clock_ValidateFrameId_eq)

lemma set_update_ok:
  "\<forall>e \<in> set es. slot_ok e \<Longrightarrow> slot_ok e' \<Longrightarrow> \<forall>e \<in> set (es[i := e']). slot_ok e"
  using set_update_subset_insert [of es i e'] by auto

text \<open>The sets after one slot changes.\<close>

lemma frames_update:
  assumes "unat f < length (entries r)" and "entries r' = (entries r)[unat f := e]"
  shows "tracked_frames r' = (if present e then insert f (tracked_frames r) else tracked_frames r - {f})"
    and "evictable_frames r' = (if evictable e then insert f (evictable_frames r) else evictable_frames r - {f})"
  using assms by (auto simp: tracked_frames_def evictable_frames_def nth_list_update_if unat_eq_iff)

lemma evictable_card_le: "clock_inv r \<Longrightarrow> card (evictable_frames r) \<le> 4294967296"
  using card_mono [of "UNIV :: FrameId set" "evictable_frames r"] by (simp add: card_word)

lemma Clock_RecordAccess_spec:
  assumes inv: "clock_inv r" and f: "unat f < length (entries r)"
  shows "\<exists>r'. Clock_RecordAccess f r = (Inr (), r') \<and> clock_inv r' \<and> length (entries r') = length (entries r) \<and>
    tracked_frames r' = insert f (tracked_frames r) \<and> evictable_frames r' = evictable_frames r"
proof -
  let ?e = "(entries r ! unat f)\<lparr>present := True, referenced := True\<rparr>"
  let ?r = "r\<lparr>entries := (entries r)[unat f := ?e]\<rparr>"
  have run: "Clock_RecordAccess f r = (Inr (), ?r)"
    by (simp add: Clock_RecordAccess_def clock_valid [OF inv f])
  have ev: "evictable_frames ?r = evictable_frames r"
    using frames_update(2) [OF f, of ?r ?e] f by (auto simp: evictable_frames_def)
  have "\<forall>e \<in> set (entries ?r). slot_ok e"
    using inv by (simp, intro set_update_ok) (simp_all add: clock_inv_def slot_ok_def [of ?e])
  then have "clock_inv ?r"
    using inv by (simp add: clock_inv_def ev)
  with run ev frames_update(1) [OF f, of ?r ?e] show ?thesis by simp
qed

lemma evictable_tracked: "clock_inv r \<Longrightarrow> evictable_frames r \<subseteq> tracked_frames r"
  using clock_inv_parts(4) by (auto simp: evictable_frames_def tracked_frames_def slot_ok_def)

lemma evictable_count_dec:
  assumes inv: "clock_inv r" and f: "f \<in> evictable_frames r"
  shows "unat (clock_evictable_count r - 1) = card (evictable_frames r - {f})"
proof -
  have "0 < card (evictable_frames r)" using f by (auto simp: card_gt_0_iff)
  then have "unat (clock_evictable_count r - 1) = unat (clock_evictable_count r) - 1"
    using clock_inv_parts(5) [OF inv] by (subst unat_sub) (simp_all add: word_le_nat_alt)
  then show ?thesis using clock_inv_parts(5) [OF inv] f by simp
qed

lemma evictable_count_inc:
  assumes inv: "clock_inv r" and f: "f \<notin> evictable_frames r"
  shows "unat (clock_evictable_count r + 1) = card (insert f (evictable_frames r))"
  using evictable_card_le [OF inv] clock_inv_parts(5) [OF inv] f
  by (subst unat_inc_64 [where m = 4294967297]) simp_all

lemma Clock_SetEvictable_spec:
  assumes inv: "clock_inv r" and f: "f \<in> tracked_frames r"
  shows "\<exists>r'. Clock_SetEvictable f b r = (Inr (), r') \<and> clock_inv r' \<and> length (entries r') = length (entries r) \<and>
    tracked_frames r' = tracked_frames r \<and>
    evictable_frames r' = (if b then insert f (evictable_frames r) else evictable_frames r - {f})"
proof -
  have lt: "unat f < length (entries r)" and pres: "present (entries r ! unat f)"
    using f by (auto simp: tracked_frames_def)
  show ?thesis
  proof (cases "evictable (entries r ! unat f) = b")
    case True
    then have "evictable_frames r = (if b then insert f (evictable_frames r) else evictable_frames r - {f})"
      using lt by (auto simp: evictable_frames_def)
    moreover have "Clock_SetEvictable f b r = (Inr (), r)"
      using True pres by (simp add: Clock_SetEvictable_def clock_valid [OF inv lt])
    ultimately show ?thesis using inv by blast
  next
    case False
    let ?e = "(entries r ! unat f)\<lparr>evictable := b\<rparr>"
    let ?r = "r\<lparr>entries := (entries r)[unat f := ?e],
        clock_evictable_count := (if b then clock_evictable_count r + 1 else clock_evictable_count r - 1)\<rparr>"
    have run: "Clock_SetEvictable f b r = (Inr (), ?r)"
      using pres False by (simp add: Clock_SetEvictable_def clock_valid [OF inv lt])
    have tr: "tracked_frames ?r = tracked_frames r"
      and ev: "evictable_frames ?r = (if b then insert f (evictable_frames r) else evictable_frames r - {f})"
      using frames_update [OF lt, of ?r ?e] pres f by auto
    have "f \<in> evictable_frames r \<longleftrightarrow> \<not> b"
      using False lt by (auto simp: evictable_frames_def)
    then have cnt: "unat (clock_evictable_count ?r) = card (evictable_frames ?r)"
      unfolding ev using evictable_count_dec [OF inv] evictable_count_inc [OF inv] by (cases b) simp_all
    have "\<forall>e \<in> set (entries ?r). slot_ok e"
      using inv pres by (simp, intro set_update_ok) (simp_all add: clock_inv_def slot_ok_def [of ?e])
    then have "clock_inv ?r"
      using inv cnt by (simp add: clock_inv_def)
    with run tr ev show ?thesis by simp
  qed
qed

lemma Clock_Remove_spec:
  assumes inv: "clock_inv r" and lt: "unat f < length (entries r)"
  shows "\<exists>r'. Clock_Remove f r = (Inr (), r') \<and> clock_inv r' \<and> entries r' = (entries r)[unat f := empty_slot] \<and>
    clock_hand r' = clock_hand r \<and>
    tracked_frames r' = tracked_frames r - {f} \<and> evictable_frames r' = evictable_frames r - {f}"
proof (cases "present (entries r ! unat f)")
  case False
  have "entries r ! unat f = empty_slot"
    using clock_inv_parts(4) [OF inv lt] False by (cases "entries r ! unat f") (auto simp: slot_ok_def empty_slot_def)
  then have same: "(entries r)[unat f := empty_slot] = entries r"
    using lt by (metis list_update_id)
  have "tracked_frames r - {f} = tracked_frames r" "evictable_frames r - {f} = evictable_frames r"
    using frames_update [OF lt, of r empty_slot] same by (simp_all add: empty_slot_def)
  then show ?thesis
    using inv False same by (simp add: Clock_Remove_def clock_valid [OF inv lt])
next
  case True
  let ?r = "r\<lparr>entries := (entries r)[unat f := empty_slot],
      clock_evictable_count := (if evictable (entries r ! unat f) then clock_evictable_count r - 1
        else clock_evictable_count r)\<rparr>"
  have run: "Clock_Remove f r = (Inr (), ?r)"
    using True by (simp add: Clock_Remove_def clock_valid [OF inv lt])
  have sets: "tracked_frames ?r = tracked_frames r - {f}" "evictable_frames ?r = evictable_frames r - {f}"
    using frames_update [OF lt, of ?r empty_slot] by (simp_all add: empty_slot_def)
  have "f \<in> evictable_frames r \<longleftrightarrow> evictable (entries r ! unat f)"
    using lt by (simp add: evictable_frames_def)
  then have cnt: "unat (clock_evictable_count ?r) = card (evictable_frames ?r)"
    unfolding sets using evictable_count_dec [OF inv, of f] clock_inv_parts(5) [OF inv] by auto
  have "\<forall>e \<in> set (entries ?r). slot_ok e"
    using inv by (simp, intro set_update_ok) (simp_all add: clock_inv_def slot_ok_def empty_slot_def)
  then have "clock_inv ?r"
    using inv cnt by (simp add: clock_inv_def)
  with run sets show ?thesis by simp
qed

subsection \<open>The victim\<close>

text \<open>Position of the clock hand after \<open>j\<close> more steps.\<close>

definition hand_pos :: "ClockReplacer \<Rightarrow> nat \<Rightarrow> nat" where
  "hand_pos r j = (unat (clock_hand r) + j) mod length (entries r)"

lemma AdvanceClockHand_spec:
  assumes inv: "clock_inv r"
  shows "clock_inv (AdvanceClockHand r)" and "entries (AdvanceClockHand r) = entries r"
    and "unat (clock_hand (AdvanceClockHand r)) = hand_pos r 1"
    and "hand_pos (AdvanceClockHand r) j = hand_pos r (Suc j)"
    and "tracked_frames (AdvanceClockHand r) = tracked_frames r"
    and "evictable_frames (AdvanceClockHand r) = evictable_frames r"
proof -
  note p = clock_inv_parts(1-3) [OF inv]
  have inc: "unat (clock_hand r + 1) = Suc (unat (clock_hand r))"
    using p by (intro unat_inc_64 [where m = "length (entries r)"]) simp_all
  have len: "unat (of_nat (length (entries r)) :: size_t) = length (entries r)"
    using p by (intro unat_of_nat_64) simp
  show e: "entries (AdvanceClockHand r) = entries r"
    by (simp add: AdvanceClockHand_def Let_def)
  show h: "unat (clock_hand (AdvanceClockHand r)) = hand_pos r 1"
  proof (cases "Suc (unat (clock_hand r)) = length (entries r)")
    case True
    then have "clock_hand r + 1 = of_nat (length (entries r))"
      using inc len by (metis word_unat_eq_iff)
    then show ?thesis using True by (simp add: AdvanceClockHand_def hand_pos_def)
  next
    case False
    then have "clock_hand r + 1 \<noteq> of_nat (length (entries r))"
      using inc len by metis
    then show ?thesis using False p inc by (simp add: AdvanceClockHand_def hand_pos_def)
  qed
  show "tracked_frames (AdvanceClockHand r) = tracked_frames r"
    and ev: "evictable_frames (AdvanceClockHand r) = evictable_frames r"
    by (simp_all add: tracked_frames_def evictable_frames_def e)
  have "clock_evictable_count (AdvanceClockHand r) = clock_evictable_count r"
    by (simp add: AdvanceClockHand_def Let_def)
  moreover have "unat (clock_hand (AdvanceClockHand r)) < length (entries r)"
    using p by (simp add: h hand_pos_def)
  ultimately show "clock_inv (AdvanceClockHand r)"
    using inv by (simp add: clock_inv_def e ev)
  show "hand_pos (AdvanceClockHand r) j = hand_pos r (Suc j)"
    unfolding hand_pos_def [of "AdvanceClockHand r"] e h by (simp add: hand_pos_def mod_add_left_eq)
qed


text \<open>
  \<open>skip_slots r S\<close>: the slots after the hand has passed over the positions in \<open>S\<close>; an
  evictable slot loses its reference bit.
\<close>

definition skip_slots :: "ClockEntry list \<Rightarrow> nat set \<Rightarrow> ClockEntry list" where
  "skip_slots es S = map (\<lambda>i. if i \<in> S \<and> evictable (es ! i) then (es ! i)\<lparr>referenced := False\<rparr> else es ! i)
     [0..<length es]"

definition unreferenced_at :: "ClockReplacer \<Rightarrow> nat \<Rightarrow> bool" where
  "unreferenced_at r j \<longleftrightarrow> evictable (entries r ! hand_pos r j) \<and> \<not> referenced (entries r ! hand_pos r j)"

lemma hand_pos_less: "clock_inv r \<Longrightarrow> hand_pos r j < length (entries r)"
  using clock_inv_parts(1) [of r] by (simp add: hand_pos_def)

lemma hand_pos_0: "clock_inv r \<Longrightarrow> hand_pos r 0 = unat (clock_hand r)"
  using clock_inv_parts(3) [of r] by (simp add: hand_pos_def)

lemma add_mod_inj:
  fixes a :: nat
  assumes "i < n" and "j < n" and "(a + i) mod n = (a + j) mod n"
  shows "i = j"
proof -
  have "i = j" if "i \<le> j" "i < n" "j < n" "(a + i) mod n = (a + j) mod n" for i j :: nat
  proof -
    have "(a + j) mod n = (a + i) mod n" "a + i \<le> a + j" using that by simp_all
    then obtain s where "a + j = a + i + n * s" by (rule mod_eq_nat1E)
    then have "j = i + n * s" by simp
    then show "i = j" using that by (cases s) auto
  qed
  from this [of i j] this [of j i] show ?thesis using assms by (metis nat_le_linear)
qed

lemma hand_pos_inj:
  assumes "clock_inv r" and "i < length (entries r)" and "j < length (entries r)"
    and "hand_pos r i = hand_pos r j"
  shows "i = j"
  using add_mod_inj [OF assms(2,3)] assms(4) by (simp add: hand_pos_def)

lemma skip_slots_simps [simp]:
  "length (skip_slots es S) = length es"
  "i < length es \<Longrightarrow> skip_slots es S ! i =
     (if i \<in> S \<and> evictable (es ! i) then (es ! i)\<lparr>referenced := False\<rparr> else es ! i)"
  by (simp_all add: skip_slots_def)

lemma skip_slots_empty: "skip_slots es {} = es"
  by (rule nth_equalityI) simp_all

lemma skip_slots_insert:
  assumes "i < length es" and "i \<notin> S"
  shows "skip_slots (es[i := (if evictable (es ! i) then (es ! i)\<lparr>referenced := False\<rparr> else es ! i)]) S
    = skip_slots es (insert i S)"
  using assms by (intro nth_equalityI) (auto simp: nth_list_update_if)

text \<open>One step of a pass that does not end it.\<close>

definition pass_over :: "ClockReplacer \<Rightarrow> ClockReplacer" where
  "pass_over r = AdvanceClockHand (r\<lparr>entries := skip_slots (entries r) {unat (clock_hand r)}\<rparr>)"

lemma skip_one:
  assumes inv: "clock_inv r"
  shows "clock_inv (r\<lparr>entries := skip_slots (entries r) S\<rparr>)"
    and "tracked_frames (r\<lparr>entries := skip_slots (entries r) S\<rparr>) = tracked_frames r"
    and "evictable_frames (r\<lparr>entries := skip_slots (entries r) S\<rparr>) = evictable_frames r"
proof -
  let ?r = "r\<lparr>entries := skip_slots (entries r) S\<rparr>"
  show "tracked_frames ?r = tracked_frames r" and ev: "evictable_frames ?r = evictable_frames r"
    by (auto simp: tracked_frames_def evictable_frames_def split: if_splits)
  have "slot_ok e" if e: "e \<in> set (skip_slots (entries r) S)" for e
  proof -
    obtain i where i: "i < length (entries r)" "e = skip_slots (entries r) S ! i"
      using e unfolding in_set_conv_nth skip_slots_simps(1) by blast
    have "slot_ok (entries r ! i)" using clock_inv_parts(4) [OF inv i(1)] .
    then show ?thesis unfolding i(2) skip_slots_simps(2) [OF i(1)] by (auto simp: slot_ok_def)
  qed
  then show "clock_inv ?r" using inv by (simp add: clock_inv_def ev)
qed

lemma hand_pos_cong:
  "length (entries r') = length (entries r) \<Longrightarrow> clock_hand r' = clock_hand r \<Longrightarrow> hand_pos r' j = hand_pos r j"
  by (simp add: hand_pos_def)

lemma pass_over_spec:
  assumes inv: "clock_inv r"
  shows "clock_inv (pass_over r)" and "entries (pass_over r) = skip_slots (entries r) {hand_pos r 0}"
    and "hand_pos (pass_over r) j = hand_pos r (Suc j)"
    and "tracked_frames (pass_over r) = tracked_frames r" and "evictable_frames (pass_over r) = evictable_frames r"
proof -
  let ?r = "r\<lparr>entries := skip_slots (entries r) {unat (clock_hand r)}\<rparr>"
  note skip = skip_one [OF inv, of "{unat (clock_hand r)}"]
  note adv = AdvanceClockHand_spec [OF skip(1)]
  show "clock_inv (pass_over r)" unfolding pass_over_def by (rule adv(1))
  show "entries (pass_over r) = skip_slots (entries r) {hand_pos r 0}"
    unfolding pass_over_def adv(2) hand_pos_0 [OF inv] by simp
  have "hand_pos ?r (Suc j) = hand_pos r (Suc j)"
    by (rule hand_pos_cong) simp_all
  then show "hand_pos (pass_over r) j = hand_pos r (Suc j)"
    unfolding pass_over_def adv(4) .
  show "tracked_frames (pass_over r) = tracked_frames r"
    unfolding pass_over_def adv(5) by (rule skip(2))
  show "evictable_frames (pass_over r) = evictable_frames r"
    unfolding pass_over_def adv(6) by (rule skip(3))
qed

lemma Victim_scan_end: "\<not> k < length (entries r) \<Longrightarrow> Victim_scan k r = (Inr None, r)"
  by (subst Victim_scan.simps) simp

lemma Victim_scan_skip:
  assumes inv: "clock_inv r" and k: "k < length (entries r)" and no: "\<not> unreferenced_at r 0"
  shows "Victim_scan k r = Victim_scan (Suc k) (pass_over r)"
proof -
  let ?h = "unat (clock_hand r)"
  have h: "?h < length (entries r)" using inv by (rule clock_inv_parts(3))
  have pr: "present (entries r ! ?h)" if "evictable (entries r ! ?h)"
    using that clock_inv_parts(4) [OF inv h] by (auto simp: slot_ok_def)
  have eq: "skip_slots (entries r) {?h} =
      (entries r)[?h := (if evictable (entries r ! ?h) then (entries r ! ?h)\<lparr>referenced := False\<rparr> else entries r ! ?h)]"
    using skip_slots_insert [OF h, of "{}"] by (simp add: skip_slots_empty)
  show ?thesis
    using no pr k unfolding unreferenced_at_def hand_pos_0 [OF inv] pass_over_def eq
    by (subst Victim_scan.simps) (auto simp: Let_def)
qed

lemma Victim_scan_hit:
  assumes inv: "clock_inv r" and k: "k < length (entries r)" and yes: "unreferenced_at r 0"
  shows "\<exists>f r'. Victim_scan k r = (Inr (Some f), r') \<and> unat f = hand_pos r 0 \<and> f \<in> evictable_frames r \<and>
    clock_inv r' \<and> entries r' = (entries r)[hand_pos r 0 := empty_slot] \<and>
    unat (clock_hand r') = hand_pos r 1 \<and>
    tracked_frames r' = tracked_frames r - {f} \<and> evictable_frames r' = evictable_frames r - {f}"
proof -
  let ?h = "unat (clock_hand r)"
  let ?f = "ucast (clock_hand r) :: FrameId"
  have h: "?h < length (entries r)" using inv by (rule clock_inv_parts(3))
  have "take_bit 32 ?h = ?h"
    using h clock_inv_parts(2) [OF inv] by (simp add: take_bit_nat_eq_self_iff)
  then have f: "unat ?f = ?h" by (simp add: unsigned_ucast_eq)
  obtain r1 where rm: "Clock_Remove ?f r = (Inr (), r1)" "clock_inv r1"
      "entries r1 = (entries r)[?h := empty_slot]" "clock_hand r1 = clock_hand r"
      "tracked_frames r1 = tracked_frames r - {?f}" "evictable_frames r1 = evictable_frames r - {?f}"
    using Clock_Remove_spec [OF inv, of ?f] h f by auto
  have ev: "evictable (entries r ! ?h)" "\<not> referenced (entries r ! ?h)"
    using yes by (simp_all add: unreferenced_at_def hand_pos_0 [OF inv])
  then have pr: "present (entries r ! ?h)"
    using clock_inv_parts(4) [OF inv h] by (auto simp: slot_ok_def)
  have "Victim_scan k r = (Inr (Some ?f), AdvanceClockHand r1)"
    using k ev pr by (subst Victim_scan.simps) (simp add: Let_def thenA_Inr [of _ r] rm(1))
  moreover have "hand_pos r1 1 = hand_pos r 1"
    by (rule hand_pos_cong) (simp_all add: rm)
  ultimately show ?thesis
    using AdvanceClockHand_spec [OF rm(2)] rm f ev h hand_pos_0 [OF inv]
    by (auto simp: evictable_frames_def)
qed


lemma skip_slots_skip: "skip_slots (skip_slots es S) T = skip_slots es (S \<union> T)"
  by (rule nth_equalityI) auto

lemma image_hand_pos_Suc:
  "insert (hand_pos r 0) ((\<lambda>j. hand_pos r (Suc j)) ` {..<m}) = hand_pos r ` {..<Suc m}"
  by (simp add: lessThan_Suc_eq_insert_0 image_image)

lemma unreferenced_pass_over:
  assumes inv: "clock_inv r" and j: "Suc j < length (entries r)"
  shows "unreferenced_at (pass_over r) j \<longleftrightarrow> unreferenced_at r (Suc j)"
proof -
  have "hand_pos r (Suc j) \<noteq> hand_pos r 0"
    using hand_pos_inj [OF inv j, of 0] clock_inv_parts(1) [OF inv] by auto
  then show ?thesis
    using hand_pos_less [OF inv, of "Suc j"] by (simp add: unreferenced_at_def pass_over_spec [OF inv])
qed

text \<open>A pass that finds no victim, over the \<open>m\<close> slots that are left.\<close>

lemma Victim_scan_none:
  assumes "clock_inv r" and "k + m = length (entries r)" and "\<forall>j<m. \<not> unreferenced_at r j"
  shows "\<exists>r'. Victim_scan k r = (Inr None, r') \<and> clock_inv r' \<and>
    entries r' = skip_slots (entries r) (hand_pos r ` {..<m}) \<and> (\<forall>j. hand_pos r' j = hand_pos r (m + j)) \<and>
    tracked_frames r' = tracked_frames r \<and> evictable_frames r' = evictable_frames r"
  using assms
proof (induction m arbitrary: k r)
  case 0
  then show ?case by (simp add: Victim_scan_end skip_slots_empty)
next
  case (Suc m)
  note inv = Suc.prems(1)
  have "\<forall>j<m. \<not> unreferenced_at (pass_over r) j"
    using Suc.prems unreferenced_pass_over [OF inv] by simp
  moreover have "Suc k + m = length (entries (pass_over r))"
    using Suc.prems by (simp add: pass_over_spec(2) [OF inv])
  ultimately obtain r' where r': "Victim_scan (Suc k) (pass_over r) = (Inr None, r')" "clock_inv r'"
      "entries r' = skip_slots (entries (pass_over r)) (hand_pos (pass_over r) ` {..<m})"
      "\<forall>j. hand_pos r' j = hand_pos (pass_over r) (m + j)"
      "tracked_frames r' = tracked_frames r" "evictable_frames r' = evictable_frames r"
    using Suc.IH [OF pass_over_spec(1) [OF inv]] pass_over_spec(4,5) [OF inv] by metis
  have "Victim_scan k r = (Inr None, r')"
    using Victim_scan_skip [OF inv, of k] Suc.prems r'(1) by simp
  moreover have "entries r' = skip_slots (entries r) (hand_pos r ` {..<Suc m})"
    unfolding r'(3) pass_over_spec(2,3) [OF inv] skip_slots_skip
    by (simp only: image_hand_pos_Suc [symmetric] insert_is_Un [symmetric])
  ultimately show ?case using r'(2,4-6) by (simp add: pass_over_spec(3) [OF inv])
qed

text \<open>A pass whose first unreferenced candidate is \<open>J\<close> steps ahead of the hand.\<close>

lemma Victim_scan_some:
  assumes "clock_inv r" and "k + m = length (entries r)" and "J < m"
    and "unreferenced_at r J" and "\<forall>j<J. \<not> unreferenced_at r j"
  shows "\<exists>f r'. Victim_scan k r = (Inr (Some f), r') \<and> unat f = hand_pos r J \<and> f \<in> evictable_frames r \<and>
    clock_inv r' \<and>
    entries r' = (skip_slots (entries r) (hand_pos r ` {..<J})) [hand_pos r J := empty_slot] \<and>
    unat (clock_hand r') = hand_pos r (Suc J) \<and>
    tracked_frames r' = tracked_frames r - {f} \<and> evictable_frames r' = evictable_frames r - {f}"
  using assms
proof (induction J arbitrary: k m r)
  case 0
  then show ?case using Victim_scan_hit [of r k] by (simp add: skip_slots_empty)
next
  case (Suc J)
  note inv = Suc.prems(1)
  obtain m' where m: "m = Suc m'" using Suc.prems(3) by (cases m) auto
  have "unreferenced_at (pass_over r) J" "\<forall>j<J. \<not> unreferenced_at (pass_over r) j"
    using Suc.prems unreferenced_pass_over [OF inv] by simp_all
  moreover have "Suc k + m' = length (entries (pass_over r))" "J < m'"
    using Suc.prems m by (simp_all add: pass_over_spec(2) [OF inv])
  ultimately obtain f r' where r': "Victim_scan (Suc k) (pass_over r) = (Inr (Some f), r')"
      "unat f = hand_pos (pass_over r) J" "f \<in> evictable_frames r" "clock_inv r'"
      "entries r' = (skip_slots (entries (pass_over r)) (hand_pos (pass_over r) ` {..<J}))
         [hand_pos (pass_over r) J := empty_slot]"
      "unat (clock_hand r') = hand_pos (pass_over r) (Suc J)"
      "tracked_frames r' = tracked_frames r - {f}" "evictable_frames r' = evictable_frames r - {f}"
    using Suc.IH [OF pass_over_spec(1) [OF inv]] pass_over_spec(4,5) [OF inv] by metis
  have "Victim_scan k r = (Inr (Some f), r')"
    using Victim_scan_skip [OF inv, of k] Suc.prems r'(1) by simp
  moreover have "entries r' = (skip_slots (entries r) (hand_pos r ` {..<Suc J})) [hand_pos r (Suc J) := empty_slot]"
    unfolding r'(5) pass_over_spec(2,3) [OF inv] skip_slots_skip
    by (simp only: image_hand_pos_Suc [symmetric] insert_is_Un [symmetric])
  ultimately show ?case using r'(2-4,6-8) by (simp add: pass_over_spec(3) [OF inv])
qed

text \<open>
  Number of steps from the hand to the victim: to the first candidate that has not been
  referenced, or, when every candidate has been, to the first candidate.
\<close>

definition candidate_at :: "ClockReplacer \<Rightarrow> nat \<Rightarrow> bool" where
  "candidate_at r j \<longleftrightarrow> evictable (entries r ! hand_pos r j)"

definition victim_steps :: "ClockReplacer \<Rightarrow> nat" where
  "victim_steps r =
     (if \<exists>j<length (entries r). unreferenced_at r j then (LEAST j. unreferenced_at r j)
      else (LEAST j. candidate_at r j))"

definition spared :: "ClockReplacer \<Rightarrow> nat set" where
  "spared r =
     (if \<exists>j<length (entries r). unreferenced_at r j then hand_pos r ` {..<victim_steps r}
      else {..<length (entries r)})"

lemma hand_pos_surj:
  assumes inv: "clock_inv r" and i: "i < length (entries r)"
  obtains j where "j < length (entries r)" and "hand_pos r j = i"
proof
  let ?n = "length (entries r)" and ?a = "unat (clock_hand r)"
  show "(i + (?n - ?a)) mod ?n < ?n"
    using clock_inv_parts(1) [OF inv] by (intro mod_less_divisor)
  have "(?a + (i + (?n - ?a)) mod ?n) mod ?n = (i + ?n) mod ?n"
    using clock_inv_parts(3) [OF inv] by (simp add: mod_add_right_eq)
  then show "hand_pos r ((i + (?n - ?a)) mod ?n) = i" using i by (simp add: hand_pos_def)
qed

lemma hand_pos_image: "clock_inv r \<Longrightarrow> hand_pos r ` {..<length (entries r)} = {..<length (entries r)}"
  using hand_pos_surj [of r] hand_pos_less [of r] by (auto simp: image_iff)

lemma LeastI_bounded:
  assumes "\<exists>j<n. P (j :: nat)"
  shows "(LEAST j. P j) < n" and "P (LEAST j. P j)" and "\<forall>i<(LEAST j. P j). \<not> P i"
proof -
  obtain j where j: "j < n" "P j" using assms by auto
  show "P (LEAST j. P j)" using j(2) by (rule LeastI)
  show "(LEAST j. P j) < n" using Least_le [of P j, OF j(2)] j(1) by simp
  show "\<forall>i<(LEAST j. P j). \<not> P i" using not_less_Least by blast
qed

theorem Clock_Victim_spec:
  assumes inv: "clock_inv r"
  shows "(evictable_frames r = {} \<and> Clock_Victim r = (Inr None, r)) \<or>
    (\<exists>f r'. evictable_frames r \<noteq> {} \<and> Clock_Victim r = (Inr (Some f), r') \<and>
      unat f = hand_pos r (victim_steps r) \<and> f \<in> evictable_frames r \<and> clock_inv r' \<and>
      entries r' = (skip_slots (entries r) (spared r)) [unat f := empty_slot] \<and>
      unat (clock_hand r') = hand_pos r (Suc (victim_steps r)) \<and>
      tracked_frames r' = tracked_frames r - {f} \<and> evictable_frames r' = evictable_frames r - {f})"
proof (cases "evictable_frames r = {}")
  case True
  then have "clock_evictable_count r = 0"
    using clock_inv_parts(5) [OF inv] by (simp add: unat_eq_0)
  with True show ?thesis by (simp add: Clock_Victim_def)
next
  case False
  then have cnt: "clock_evictable_count r \<noteq> 0"
    using clock_inv_parts(5) [OF inv] by (auto simp: unat_eq_0 [symmetric] card_gt_0_iff)
  let ?n = "length (entries r)"
  have all: "0 + ?n = ?n" by simp
  show ?thesis
  proof (cases "\<exists>j<?n. unreferenced_at r j")
    case True
    note least = LeastI_bounded [OF True]
    have "victim_steps r = (LEAST j. unreferenced_at r j)" using True by (simp add: victim_steps_def)
    then obtain f r' where v: "Victim_scan 0 r = (Inr (Some f), r')" "unat f = hand_pos r (victim_steps r)"
        "f \<in> evictable_frames r" "clock_inv r'"
        "entries r' = (skip_slots (entries r) (hand_pos r ` {..<victim_steps r})) [hand_pos r (victim_steps r) := empty_slot]"
        "unat (clock_hand r') = hand_pos r (Suc (victim_steps r))"
        "tracked_frames r' = tracked_frames r - {f}" "evictable_frames r' = evictable_frames r - {f}"
      using Victim_scan_some [OF inv all least] by metis
    have "Clock_Victim r = (Inr (Some f), r')"
      using cnt by (simp add: Clock_Victim_def bindA_Inr [of "Victim_scan 0", OF v(1)])
    then show ?thesis using v False True by (simp add: spared_def)
  next
    case none: False
    then obtain r1 where r1: "Victim_scan 0 r = (Inr None, r1)" "clock_inv r1"
        "entries r1 = skip_slots (entries r) (hand_pos r ` {..<?n})" "\<And>j. hand_pos r1 j = hand_pos r (?n + j)"
        "tracked_frames r1 = tracked_frames r" "evictable_frames r1 = evictable_frames r"
      using Victim_scan_none [OF inv all] by blast
    have e1: "entries r1 = skip_slots (entries r) {..<?n}" and n1: "length (entries r1) = ?n"
      using r1(3) by (simp_all add: hand_pos_image [OF inv])
    have h1: "hand_pos r1 j = hand_pos r j" for j
    proof -
      have "unat (clock_hand r) + (?n + j) = ?n + (unat (clock_hand r) + j)" by simp
      then have "hand_pos r (?n + j) = hand_pos r j" unfolding hand_pos_def by (simp only: mod_add_self1)
      then show ?thesis by (simp only: r1(4))
    qed
    have u1: "unreferenced_at r1 j \<longleftrightarrow> candidate_at r j" for j
      using hand_pos_less [OF inv, of j] by (simp add: unreferenced_at_def candidate_at_def h1 e1)
    obtain g where g: "unat (g :: FrameId) < ?n" "evictable (entries r ! unat g)"
      using False by (auto simp: evictable_frames_def)
    obtain j where "j < ?n" "hand_pos r j = unat g" using hand_pos_surj [OF inv g(1)] .
    then have ex: "\<exists>j<?n. candidate_at r j" using g(2) by (auto simp: candidate_at_def)
    note least = LeastI_bounded [OF ex]
    have vs: "victim_steps r = (LEAST j. candidate_at r j)"
      unfolding victim_steps_def using none by (rule if_not_P)
    have all1: "0 + ?n = length (entries r1)" by (simp add: n1)
    obtain f r' where v: "Victim_scan 0 r1 = (Inr (Some f), r')" "unat f = hand_pos r (victim_steps r)"
        "f \<in> evictable_frames r" "clock_inv r'"
        "entries r' = (skip_slots (entries r1) (hand_pos r ` {..<victim_steps r})) [hand_pos r (victim_steps r) := empty_slot]"
        "unat (clock_hand r') = hand_pos r (Suc (victim_steps r))"
        "tracked_frames r' = tracked_frames r - {f}" "evictable_frames r' = evictable_frames r - {f}"
      using Victim_scan_some [OF r1(2) all1, unfolded u1 h1 r1(5,6), OF least] unfolding vs by metis
    have "Clock_Victim r = (Inr (Some f), r')"
      using cnt v(1) by (simp add: Clock_Victim_def bindA_Inr [of "Victim_scan 0", OF r1(1)])
    moreover have "skip_slots (entries r1) (hand_pos r ` {..<victim_steps r}) = skip_slots (entries r) (spared r)"
      unfolding e1 skip_slots_skip spared_def using none hand_pos_less [OF inv]
      by (auto intro!: arg_cong [where f = "skip_slots (entries r)"])
    ultimately show ?thesis using v False by simp
  qed
qed

subsection \<open>The clock keeps the contract of a replacer\<close>

definition frame_count_clock :: "ClockReplacer \<Rightarrow> nat" where
  "frame_count_clock r = length (entries r)"

definition clock_replacer :: "ClockReplacer Replacer" where
  "clock_replacer = \<lparr>RecordAccess = Clock_RecordAccess, SetEvictable = Clock_SetEvictable, Victim = Clock_Victim,
     Remove = Clock_Remove, evictable_count = clock_evictable_count\<rparr>"

lemma clock_replacer_simps [simp]:
  "RecordAccess clock_replacer = Clock_RecordAccess" "SetEvictable clock_replacer = Clock_SetEvictable"
  "Victim clock_replacer = Clock_Victim" "Remove clock_replacer = Clock_Remove"
  "evictable_count clock_replacer = clock_evictable_count"
  by (simp_all add: clock_replacer_def)

interpretation clock: replacer_contract clock_replacer clock_inv frame_count_clock tracked_frames evictable_frames
proof (unfold_locales, goal_cases)
  case (1 r f)
  then show ?case using Clock_RecordAccess_spec [of r f] by (simp add: frame_count_clock_def)
next
  case (2 r f b)
  then show ?case using Clock_SetEvictable_spec [of r f b] by (simp add: frame_count_clock_def)
next
  case (3 r)
  then show ?case using Clock_Victim_spec [of r] by auto
next
  case (4 r)
  then obtain f r' where v: "Clock_Victim r = (Inr (Some f), r')" "f \<in> evictable_frames r" "clock_inv r'"
      "entries r' = (skip_slots (entries r) (spared r)) [unat f := empty_slot]"
      "tracked_frames r' = tracked_frames r - {f}" "evictable_frames r' = evictable_frames r - {f}"
    using Clock_Victim_spec [of r] by auto
  then have "frame_count_clock r' = frame_count_clock r" by (simp add: frame_count_clock_def)
  with v show ?case by auto
next
  case (5 r f)
  then obtain r' where "Clock_Remove f r = (Inr (), r')" "clock_inv r'" "entries r' = (entries r)[unat f := empty_slot]"
      "tracked_frames r' = tracked_frames r - {f}" "evictable_frames r' = evictable_frames r - {f}"
    using Clock_Remove_spec [of r f] by (auto simp: frame_count_clock_def)
  then show ?case by (auto simp: frame_count_clock_def)
next
  case (6 r)
  then show ?case by (rule evictable_tracked)
next
  case (7 r f)
  then show ?case by (simp add: tracked_frames_def frame_count_clock_def)
next
  case (8 r)
  then show ?case using clock_inv_parts(5) by simp
qed

subsection \<open>Properties\<close>

text \<open>C16: \<^verbatim>\<open>Victim\<close> is the second chance rule: it gives nothing exactly when no frame is
  evictable; otherwise the first evictable frame from the hand on whose reference bit is clear, or the
  first evictable frame when all have been referenced. It clears the reference bits of the frames it
  passes over, forgets the victim and leaves the hand behind it.\<close>

theorem victim_is_second_chance:
  assumes "clock_inv r"
  shows "(evictable_frames r = {} \<and> Clock_Victim r = (Inr None, r)) \<or>
    (\<exists>f r'. Clock_Victim r = (Inr (Some f), r') \<and> clock_inv r' \<and> f \<in> evictable_frames r \<and>
      unat f = hand_pos r (victim_steps r) \<and>
      entries r' = (skip_slots (entries r) (spared r)) [unat f := empty_slot] \<and>
      unat (clock_hand r') = hand_pos r (Suc (victim_steps r)) \<and>
      tracked_frames r' = tracked_frames r - {f} \<and> evictable_frames r' = evictable_frames r - {f})"
  using Clock_Victim_spec [OF assms] by blast

text \<open>Two frames in use, frame 1 not referenced since the hand passed it.\<close>

definition ex_clock :: ClockReplacer where
  "ex_clock = \<lparr>entries = [\<lparr>present = True, evictable = True, referenced = True\<rparr>,
     \<lparr>present = True, evictable = True, referenced = False\<rparr>], clock_hand = 0, clock_evictable_count = 2\<rparr>"

lemma ex_clock_facts: "clock_inv ex_clock" "evictable_frames ex_clock = {0, 1}"
proof -
  have "f \<in> evictable_frames ex_clock \<longleftrightarrow> f = 0 \<or> f = 1" for f :: FrameId
  proof -
    have "unat f < 2 \<longleftrightarrow> f = 0 \<or> f = 1"
      by (metis One_nat_def less_2_cases_iff unat_0 unat_1 unat_eq_iff)
    then show ?thesis by (auto simp: evictable_frames_def ex_clock_def)
  qed
  then show e: "evictable_frames ex_clock = {0, 1}" by auto
  show "clock_inv ex_clock" by (simp add: clock_inv_def e) (simp add: ex_clock_def slot_ok_def)
qed

theorem victim_is_second_chance_witness:
  "\<exists>f r'. Clock_Victim ex_clock = (Inr (Some f), r') \<and> f \<in> {0, 1} \<and> evictable_frames r' = {0, 1} - {f}"
  using victim_is_second_chance [OF ex_clock_facts(1)] ex_clock_facts(2) by fastforce

text \<open>C31: a frame that has just been accessed is not evicted while another evictable frame has not
  been referenced.\<close>

theorem accessed_frame_is_spared:
  assumes "clock_inv r" and "Clock_RecordAccess f r = (Inr (), r1)"
    and "g \<in> evictable_frames r" and "\<not> referenced (entries r ! unat g)" and "g \<noteq> f"
    and "Clock_Victim r1 = (Inr (Some v), r2)"
  shows "v \<noteq> f"
proof
  assume vf: "v = f"
  have lt: "unat f < length (entries r)"
    using assms(2) by (cases "unat f < length (entries r)") (simp_all add: Clock_RecordAccess_def clock_invalid [OF assms(1)])
  let ?e = "(entries r ! unat f)\<lparr>present := True, referenced := True\<rparr>"
  have r1: "entries r1 = (entries r)[unat f := ?e]"
    using assms(2) by (auto simp: Clock_RecordAccess_def clock_valid [OF assms(1) lt])
  have inv1: "clock_inv r1" using Clock_RecordAccess_spec [OF assms(1) lt] assms(2) by auto
  have g: "unat g < length (entries r1)" "evictable (entries r1 ! unat g)" "\<not> referenced (entries r1 ! unat g)"
    using assms(3-5) by (auto simp: evictable_frames_def r1 unat_eq_iff)
  obtain j where "j < length (entries r1)" "hand_pos r1 j = unat g" using hand_pos_surj [OF inv1 g(1)] .
  then have ex: "\<exists>j<length (entries r1). unreferenced_at r1 j" using g by (auto simp: unreferenced_at_def)
  then have "unreferenced_at r1 (victim_steps r1)"
    using LeastI_bounded(2) [OF ex] by (simp add: victim_steps_def)
  moreover have "unat v = hand_pos r1 (victim_steps r1)" using Clock_Victim_spec [OF inv1] assms(6) by auto
  ultimately have "\<not> referenced (entries r1 ! unat f)" using vf by (simp add: unreferenced_at_def)
  then show False using lt by (simp add: r1)
qed

theorem accessed_frame_is_spared_witness:
  "\<exists>r1 v r2. Clock_RecordAccess 0 ex_clock = (Inr (), r1) \<and> Clock_Victim r1 = (Inr (Some v), r2) \<and> v \<noteq> 0"
proof -
  have lt: "unat (0 :: FrameId) < length (entries ex_clock)" by (simp add: ex_clock_def)
  obtain r1 where r1: "Clock_RecordAccess 0 ex_clock = (Inr (), r1)" "clock_inv r1" "evictable_frames r1 = {0, 1}"
    using Clock_RecordAccess_spec [OF ex_clock_facts(1) lt] ex_clock_facts(2) by auto
  obtain v r2 where v: "Clock_Victim r1 = (Inr (Some v), r2)" using Clock_Victim_spec [OF r1(2)] r1(3) by auto
  have "v \<noteq> 0"
    by (rule accessed_frame_is_spared [OF ex_clock_facts(1) r1(1) _ _ _ v, of 1])
      (simp_all add: ex_clock_facts(2), simp add: ex_clock_def)
  then show ?thesis using r1(1) v by blast
qed

text \<open>C32: the clock keeps track of its frames: an access makes a frame known, \<^verbatim>\<open>SetEvictable\<close>
  moves a known frame in or out of the candidates, \<^verbatim>\<open>Remove\<close> forgets it, and a frame
  identifier out of range is refused by each of them.\<close>

theorem clock_keeps_its_sets:
  assumes "clock_inv r"
  shows "if unat f < length (entries r) then
      (\<exists>r'. Clock_RecordAccess f r = (Inr (), r') \<and> clock_inv r' \<and>
        tracked_frames r' = insert f (tracked_frames r) \<and> evictable_frames r' = evictable_frames r) \<and>
      (\<exists>r'. Clock_Remove f r = (Inr (), r') \<and> clock_inv r' \<and>
        tracked_frames r' = tracked_frames r - {f} \<and> evictable_frames r' = evictable_frames r - {f}) \<and>
      (f \<in> tracked_frames r \<longrightarrow> (\<exists>r'. Clock_SetEvictable f b r = (Inr (), r') \<and> clock_inv r' \<and>
        tracked_frames r' = tracked_frames r \<and>
        evictable_frames r' = (if b then insert f (evictable_frames r) else evictable_frames r - {f})))
    else Clock_RecordAccess f r = (Inl (out_of_range ''invalid frame id''), r) \<and>
      Clock_Remove f r = (Inl (out_of_range ''invalid frame id''), r) \<and>
      Clock_SetEvictable f b r = (Inl (out_of_range ''invalid frame id''), r)"
proof (cases "unat f < length (entries r)")
  case True
  then show ?thesis
    using clock.access [OF assms] clock.remove [OF assms] clock.evictable [OF assms, of f b]
    by (fastforce simp: frame_count_clock_def)
next
  case False
  then show ?thesis
    by (simp add: Clock_RecordAccess_def Clock_Remove_def Clock_SetEvictable_def clock_invalid [OF assms False])
qed

theorem clock_keeps_its_sets_witness:
  "\<exists>r'. Clock_SetEvictable 1 False ex_clock = (Inr (), r') \<and> evictable_frames r' = {0}"
proof -
  have "(1 :: FrameId) \<in> tracked_frames ex_clock" by (simp add: tracked_frames_def ex_clock_def)
  then show ?thesis
    using clock_keeps_its_sets [OF ex_clock_facts(1), of 1 False] ex_clock_facts(2) by (auto simp: ex_clock_def)
qed

end
