(* ===== verification/Posix_File.thy ===== *)
theory Posix_File
  imports BM_Prelude
begin

text \<open>
  The operating system calls that \<^verbatim>\<open>src/storage/disk_manager.cc\<close> makes. They are a
  parameter of the model: a record of functions on a state \<open>'os\<close> of the operating system that
  the model leaves open. A call that returns -1 is \<open>Inl errno\<close>. What the code relies on is the
  predicate \<open>posix_file\<close>: the documented behaviour of the calls on the file a descriptor is
  open on.
\<close>

subsection \<open>The calls\<close>

datatype open_flag = O_RDWR | O_CREAT | O_DIRECT | O_CLOEXEC | O_TRUNC

type_synonym ('os, 'a) syscall = "'os \<Rightarrow> (int + 'a) \<times> 'os"

type_synonym off_t = "64 word"

definition EINTR :: int where
  "EINTR = 4"

record 'os Posix =
  sys_open :: "string \<Rightarrow> open_flag list \<Rightarrow> nat \<Rightarrow> ('os, int) syscall"
  sys_fstat :: "int \<Rightarrow> ('os, int) syscall"
  sys_pread :: "int \<Rightarrow> size_t \<Rightarrow> off_t \<Rightarrow> ('os, byte list) syscall"
  sys_pwrite :: "int \<Rightarrow> byte list \<Rightarrow> off_t \<Rightarrow> ('os, nat) syscall"
  sys_ftruncate :: "int \<Rightarrow> off_t \<Rightarrow> ('os, unit) syscall"
  sys_fdatasync :: "int \<Rightarrow> ('os, unit) syscall"
  sys_close :: "int \<Rightarrow> ('os, unit) syscall"

subsection \<open>Bytes of a file\<close>

text \<open>A byte past the end of a file counts as zero: it is what a hole in the file reads as.\<close>

definition byte_at :: "byte list \<Rightarrow> nat \<Rightarrow> byte" where
  "byte_at c i = (if i < length c then c ! i else 0)"

definition bytes_at :: "byte list \<Rightarrow> nat \<Rightarrow> nat \<Rightarrow> byte list" where
  "bytes_at c offset n = map (\<lambda>i. byte_at c (offset + i)) [0..<n]"

definition write_at :: "byte list \<Rightarrow> nat \<Rightarrow> byte list \<Rightarrow> byte list" where
  "write_at c offset bs =
     (if bs = [] then c
      else take offset (c @ replicate (offset - length c) 0) @ bs @ drop (offset + length bs) c)"

definition resize :: "byte list \<Rightarrow> nat \<Rightarrow> byte list" where
  "resize c n = take n c @ replicate (n - length c) 0"

text \<open>\<open>written c bs offset k c'\<close>: \<open>c'\<close> is \<open>c\<close> with the first \<open>k\<close> bytes of
  \<open>bs\<close> at \<open>offset\<close>.\<close>

definition written :: "byte list \<Rightarrow> byte list \<Rightarrow> nat \<Rightarrow> nat \<Rightarrow> byte list \<Rightarrow> bool" where
  "written c bs offset k c' \<longleftrightarrow>
     (\<forall>i. byte_at c' i = (if offset \<le> i \<and> i < offset + k then bs ! (i - offset) else byte_at c i))"

lemma length_bytes_at [simp]: "length (bytes_at c offset n) = n"
  by (simp add: bytes_at_def)

lemma nth_bytes_at [simp]: "i < n \<Longrightarrow> bytes_at c offset n ! i = byte_at c (offset + i)"
  by (simp add: bytes_at_def)

lemma byte_at_Nil [simp]: "byte_at [] i = 0"
  by (simp add: byte_at_def)

lemma byte_at_write_at:
  "byte_at (write_at c offset bs) i =
     (if offset \<le> i \<and> i < offset + length bs then bs ! (i - offset) else byte_at c i)"
  by (auto simp: byte_at_def write_at_def nth_append min_def)

lemma byte_at_resize: "byte_at (resize c n) i = (if i < n then byte_at c i else 0)"
  by (auto simp: byte_at_def resize_def nth_append)

lemma length_resize [simp]: "length (resize c n) = n"
  by (simp add: resize_def)

lemma length_write_at: "length (write_at c offset bs) = (if bs = [] then length c else max (length c) (offset + length bs))"
  by (simp add: write_at_def max_def min_def)

lemma written_0: "written c bs offset 0 c"
  by (auto simp: written_def)

lemma written_write_at: "k \<le> length bs \<Longrightarrow> written c bs offset k (write_at c offset (take k bs))"
  by (auto simp: written_def byte_at_write_at)

text \<open>The next chunk of a write; a part of it, or more, may be there already.\<close>

lemma written_more:
  assumes "written c bs offset m c1" and "t \<le> m" and "t + k \<le> length bs"
  shows "written c bs offset (max m (t + k)) (write_at c1 (offset + t) (take k (drop t bs)))"
proof -
  have "bs ! (i - offset) = take k (drop t bs) ! (i - (offset + t))"
    if "offset + t \<le> i" "i < offset + t + k" for i
    using that assms(3) by (simp add: algebra_simps)
  then show ?thesis
    using assms by (auto simp: written_def byte_at_write_at not_less less_max_iff_disj)
qed

lemma written_bytes_at:
  assumes "written c bs offset k c'" and "k \<le> length bs"
  shows "bytes_at c' offset (length bs) = take k bs @ drop k (bytes_at c offset (length bs))"
  by (rule nth_equalityI) (use assms in \<open>auto simp: written_def nth_append min_def\<close>)

lemma written_elsewhere:
  assumes "written c bs offset k c'" and "k \<le> n" and "other + m \<le> offset \<or> offset + n \<le> other"
  shows "bytes_at c' other m = bytes_at c other m"
  by (rule nth_equalityI) (use assms in \<open>auto simp: written_def\<close>)

subsection \<open>What the calls promise\<close>

text \<open>
  \<open>opened os fd\<close> is the path a descriptor is open on and \<open>stored os path\<close> the content of
  the file there. A read may be short, but an empty one says that the end of the file is reached; a
  write may be short, and one that fails may have written a part of its data (the manual page warns
  of this for direct access); nothing is said of other descriptors' files.
\<close>

record 'os file_view =
  opened :: "'os \<Rightarrow> int \<Rightarrow> string option"
  stored :: "'os \<Rightarrow> string \<Rightarrow> byte list option"

definition open_on :: "'os file_view \<Rightarrow> 'os \<Rightarrow> int \<Rightarrow> string \<Rightarrow> byte list \<Rightarrow> bool" where
  "open_on V os fd p c \<longleftrightarrow> opened V os fd = Some p \<and> stored V os p = Some c"

definition pread_ok :: "'os Posix \<Rightarrow> 'os file_view \<Rightarrow> bool" where
  "pread_ok P V \<longleftrightarrow> (\<forall>fd n off os r os' p c. sys_pread P fd n off os = (r, os') \<longrightarrow> open_on V os fd p c \<longrightarrow>
     open_on V os' fd p c \<and>
     (case r of Inl e \<Rightarrow> True
      | Inr bs \<Rightarrow> length bs \<le> unat n \<and> bs = take (length bs) (drop (unat off) c) \<and>
          (bs = [] \<longrightarrow> n = 0 \<or> length c \<le> unat off)))"

definition pwrite_ok :: "'os Posix \<Rightarrow> 'os file_view \<Rightarrow> bool" where
  "pwrite_ok P V \<longleftrightarrow> (\<forall>fd bs off os r os' p c. sys_pwrite P fd bs off os = (r, os') \<longrightarrow> open_on V os fd p c \<longrightarrow>
     (case r of
        Inl e \<Rightarrow> \<exists>k \<le> length bs. open_on V os' fd p (write_at c (unat off) (take k bs))
      | Inr k \<Rightarrow> k \<le> length bs \<and> open_on V os' fd p (write_at c (unat off) (take k bs))))"

definition fstat_ok :: "'os Posix \<Rightarrow> 'os file_view \<Rightarrow> bool" where
  "fstat_ok P V \<longleftrightarrow> (\<forall>fd os r os' p c. sys_fstat P fd os = (r, os') \<longrightarrow> open_on V os fd p c \<longrightarrow>
     open_on V os' fd p c \<and> (\<forall>n. r = Inr n \<longrightarrow> n = int (length c) \<and> n < 2 ^ 63))"

definition ftruncate_ok :: "'os Posix \<Rightarrow> 'os file_view \<Rightarrow> bool" where
  "ftruncate_ok P V \<longleftrightarrow> (\<forall>fd n os r os' p c. sys_ftruncate P fd n os = (r, os') \<longrightarrow> open_on V os fd p c \<longrightarrow>
     (case r of Inl e \<Rightarrow> open_on V os' fd p c | Inr _ \<Rightarrow> open_on V os' fd p (resize c (unat n))))"

definition fdatasync_ok :: "'os Posix \<Rightarrow> 'os file_view \<Rightarrow> bool" where
  "fdatasync_ok P V \<longleftrightarrow> (\<forall>fd os r os' p c. sys_fdatasync P fd os = (r, os') \<longrightarrow> open_on V os fd p c \<longrightarrow>
     open_on V os' fd p c)"

text \<open>
  \<^verbatim>\<open>O_CREAT\<close> makes an empty file where there is none, \<^verbatim>\<open>O_TRUNC\<close> empties one; a
  call that fails creates and changes no file.
\<close>

definition open_ok :: "'os Posix \<Rightarrow> 'os file_view \<Rightarrow> bool" where
  "open_ok P V \<longleftrightarrow> (\<forall>path flags mode os r os'. sys_open P path flags mode os = (r, os') \<longrightarrow>
     O_CREAT \<in> set flags \<longrightarrow>
     (case r of
        Inl e \<Rightarrow> stored V os' path = stored V os path
      | Inr fd \<Rightarrow> 0 \<le> fd \<and>
          open_on V os' fd path
            (case stored V os path of None \<Rightarrow> [] | Some c \<Rightarrow> if O_TRUNC \<in> set flags then [] else c)))"

definition close_ok :: "'os Posix \<Rightarrow> 'os file_view \<Rightarrow> bool" where
  "close_ok P V \<longleftrightarrow> (\<forall>fd os r os' p c. sys_close P fd os = (r, os') \<longrightarrow> open_on V os fd p c \<longrightarrow>
     opened V os' fd = None \<and> stored V os' p = Some c)"

definition posix_file :: "'os Posix \<Rightarrow> 'os file_view \<Rightarrow> bool" where
  "posix_file P V \<longleftrightarrow> open_ok P V \<and> fstat_ok P V \<and> pread_ok P V \<and> pwrite_ok P V \<and> ftruncate_ok P V \<and>
     fdatasync_ok P V \<and> close_ok P V"

text \<open>
  Calls are interrupted by finitely many signals: \<open>pending os\<close> bounds how often in a row a call
  can come back with \<^verbatim>\<open>EINTR\<close>. No call transfers more than it was asked for.
\<close>

definition interrupts_end :: "'os Posix \<Rightarrow> ('os \<Rightarrow> nat) \<Rightarrow> bool" where
  "interrupts_end P pending \<longleftrightarrow>
     (\<forall>fd n off os os'. sys_pread P fd n off os = (Inl EINTR, os') \<longrightarrow> pending os' < pending os) \<and>
     (\<forall>fd bs off os os'. sys_pwrite P fd bs off os = (Inl EINTR, os') \<longrightarrow> pending os' < pending os) \<and>
     (\<forall>fd n off os bs os'. sys_pread P fd n off os = (Inr bs, os') \<longrightarrow> length bs \<le> unat n) \<and>
     (\<forall>fd bs off os k os'. sys_pwrite P fd bs off os = (Inr k, os') \<longrightarrow> k \<le> length bs)"

text \<open>
  When the machine stops, the file of a successful \<^verbatim>\<open>fdatasync\<close> keeps its content, if the
  directory still names it: the call says nothing of directories.
\<close>

definition crash_keeps_synced :: "'os Posix \<Rightarrow> 'os file_view \<Rightarrow> ('os \<Rightarrow> 'os \<Rightarrow> bool) \<Rightarrow> bool" where
  "crash_keeps_synced P V crash \<longleftrightarrow> (\<forall>fd os os1 os2 p c c'. sys_fdatasync P fd os = (Inr (), os1) \<longrightarrow>
     open_on V os fd p c \<longrightarrow> crash os1 os2 \<longrightarrow> stored V os2 p = Some c' \<longrightarrow> c' = c)"

lemma preadD:
  assumes "posix_file P V" and "sys_pread P fd n off os = (r, os')" and "open_on V os fd p c"
  shows "open_on V os' fd p c"
    and "r = Inr bs \<Longrightarrow> length bs \<le> unat n"
    and "r = Inr bs \<Longrightarrow> i < length bs \<Longrightarrow> bs ! i = byte_at c (unat off + i)"
    and "r = Inr [] \<Longrightarrow> n \<noteq> 0 \<Longrightarrow> length c \<le> unat off"
proof -
  have *: "open_on V os' fd p c \<and>
     (case r of Inl e \<Rightarrow> True
      | Inr bs \<Rightarrow> length bs \<le> unat n \<and> bs = take (length bs) (drop (unat off) c) \<and>
          (bs = [] \<longrightarrow> n = 0 \<or> length c \<le> unat off))"
    using assms unfolding posix_file_def pread_ok_def by blast
  then show "open_on V os' fd p c" "r = Inr bs \<Longrightarrow> length bs \<le> unat n"
    "r = Inr [] \<Longrightarrow> n \<noteq> 0 \<Longrightarrow> length c \<le> unat off"
    by auto
  assume r: "r = Inr bs" and i: "i < length bs"
  then have bs: "bs = take (length bs) (drop (unat off) c)" using * by simp
  then have "length bs \<le> length c - unat off" by (metis length_drop length_take min.cobounded1 min.commute)
  then show "bs ! i = byte_at c (unat off + i)"
    using i by (subst bs) (auto simp: byte_at_def)
qed

lemma pwriteD:
  assumes "posix_file P V" and "sys_pwrite P fd bs off os = (r, os')" and "open_on V os fd p c"
  shows "r = Inr k \<Longrightarrow> k \<le> length bs \<and> open_on V os' fd p (write_at c (unat off) (take k bs))"
    and "r = Inl e \<Longrightarrow> \<exists>k \<le> length bs. open_on V os' fd p (write_at c (unat off) (take k bs))"
proof -
  have *: "case r of
        Inl e \<Rightarrow> \<exists>k \<le> length bs. open_on V os' fd p (write_at c (unat off) (take k bs))
      | Inr k \<Rightarrow> k \<le> length bs \<and> open_on V os' fd p (write_at c (unat off) (take k bs))"
    using assms unfolding posix_file_def pwrite_ok_def by blast
  then show "r = Inr k \<Longrightarrow> k \<le> length bs \<and> open_on V os' fd p (write_at c (unat off) (take k bs))"
    and "r = Inl e \<Longrightarrow> \<exists>k \<le> length bs. open_on V os' fd p (write_at c (unat off) (take k bs))"
    by auto
qed

lemma fstatD:
  assumes "posix_file P V" and "sys_fstat P fd os = (r, os')" and "open_on V os fd p c"
  shows "open_on V os' fd p c" and "r = Inr n \<Longrightarrow> n = int (length c) \<and> n < 2 ^ 63"
  using assms unfolding posix_file_def fstat_ok_def by blast+

lemma ftruncateD:
  assumes "posix_file P V" and "sys_ftruncate P fd n os = (r, os')" and "open_on V os fd p c"
  shows "r = Inl e \<Longrightarrow> open_on V os' fd p c" and "r = Inr u \<Longrightarrow> open_on V os' fd p (resize c (unat n))"
proof -
  have "case r of Inl e \<Rightarrow> open_on V os' fd p c | Inr _ \<Rightarrow> open_on V os' fd p (resize c (unat n))"
    using assms unfolding posix_file_def ftruncate_ok_def by blast
  then show "r = Inl e \<Longrightarrow> open_on V os' fd p c" "r = Inr u \<Longrightarrow> open_on V os' fd p (resize c (unat n))"
    by auto
qed

lemma fdatasyncD:
  "posix_file P V \<Longrightarrow> sys_fdatasync P fd os = (r, os') \<Longrightarrow> open_on V os fd p c \<Longrightarrow> open_on V os' fd p c"
  unfolding posix_file_def fdatasync_ok_def by blast

lemma openD:
  assumes "posix_file P V" and "sys_open P path flags mode os = (r, os')" and "O_CREAT \<in> set flags"
  shows "r = Inr fd \<Longrightarrow> 0 \<le> fd"
    and "r = Inr fd \<Longrightarrow> open_on V os' fd path
       (case stored V os path of None \<Rightarrow> [] | Some c \<Rightarrow> if O_TRUNC \<in> set flags then [] else c)"
    and "r = Inl e \<Longrightarrow> stored V os' path = stored V os path"
proof -
  have "case r of
        Inl e \<Rightarrow> stored V os' path = stored V os path
      | Inr fd \<Rightarrow> 0 \<le> fd \<and>
          open_on V os' fd path
            (case stored V os path of None \<Rightarrow> [] | Some c \<Rightarrow> if O_TRUNC \<in> set flags then [] else c)"
    using assms unfolding posix_file_def open_ok_def by blast
  then show "r = Inr fd \<Longrightarrow> 0 \<le> fd"
    "r = Inr fd \<Longrightarrow> open_on V os' fd path
       (case stored V os path of None \<Rightarrow> [] | Some c \<Rightarrow> if O_TRUNC \<in> set flags then [] else c)"
    "r = Inl e \<Longrightarrow> stored V os' path = stored V os path"
    by auto
qed

lemma closeD:
  assumes "posix_file P V" and "sys_close P fd os = (r, os')" and "open_on V os fd p c"
  shows "opened V os' fd = None" and "stored V os' p = Some c"
  using assms unfolding posix_file_def close_ok_def by blast+

end
