(* ===== verification/Disk_Manager.thy ===== *)
theory Disk_Manager
  imports Posix_File
begin

text \<open>
  The disk manager (\<^verbatim>\<open>src/storage/disk_manager.h\<close> and \<^verbatim>\<open>disk_manager.cc\<close>): pages at
  fixed offsets of one file, behind a header that says what the file is. The code is the Linux
  build of it. The operating system is the parameter \<open>P\<close>; a function that retries an interrupted
  call is a partial function, whose value \<open>None\<close> is that it never returns.
\<close>

subsection \<open>Options and constants\<close>

datatype IoMode = kDirect | kBuffered

record DiskManagerOptions =
  path :: string
  disk_max_page_count :: PageId
  header_size :: "64 word"
  truncate_existing :: bool
  preallocate :: bool
  io_mode :: IoMode

definition kMagic :: "byte list" where
  "kMagic = [66, 77, 68, 73, 83, 75, 48, 49]"

definition kFormatVersion :: "32 word" where
  "kFormatVersion = 1"

text \<open>\<^verbatim>\<open>S_IRUSR | S_IWUSR | S_IRGRP | S_IROTH\<close>\<close>

definition kFileCreateMode :: nat where
  "kFileCreateMode = 256 + 128 + 32 + 4"

subsection \<open>The file header\<close>

record DiskFileHeader =
  magic :: "byte list"
  version :: "32 word"
  page_size :: "32 word"
  hdr_max_page_count :: "64 word"
  hdr_header_size :: "64 word"

definition sizeof_DiskFileHeader :: nat where
  "sizeof_DiskFileHeader = 8 + 4 + 4 + 8 + 8"

text \<open>
  The bytes that \<^verbatim>\<open>std::memcpy\<close> copies: the fields one after the other, without padding, the
  integers in the byte order of the machine, which is little endian.
\<close>

fun le_bytes :: "nat \<Rightarrow> nat \<Rightarrow> byte list" where
  "le_bytes 0 n = []"
| "le_bytes (Suc k) n = of_nat (n mod 256) # le_bytes k (n div 256)"

fun le_value :: "byte list \<Rightarrow> nat" where
  "le_value [] = 0"
| "le_value (b # bs) = unat b + 256 * le_value bs"

definition header_bytes :: "DiskFileHeader \<Rightarrow> byte list" where
  "header_bytes h = magic h @ le_bytes 4 (unat (version h)) @ le_bytes 4 (unat (page_size h)) @
     le_bytes 8 (unat (hdr_max_page_count h)) @ le_bytes 8 (unat (hdr_header_size h))"

definition header_of_bytes :: "byte list \<Rightarrow> DiskFileHeader" where
  "header_of_bytes bs =
     \<lparr>magic = take 8 bs,
      version = of_nat (le_value (take 4 (drop 8 bs))),
      page_size = of_nat (le_value (take 4 (drop 12 bs))),
      hdr_max_page_count = of_nat (le_value (take 8 (drop 16 bs))),
      hdr_header_size = of_nat (le_value (take 8 (drop 24 bs)))\<rparr>"

definition MakeHeader :: "DiskManagerOptions \<Rightarrow> DiskFileHeader" where
  "MakeHeader opts =
     \<lparr>magic = kMagic, version = kFormatVersion, page_size = ucast kPageSize,
      hdr_max_page_count = disk_max_page_count opts, hdr_header_size = header_size opts\<rparr>"

subsection \<open>Errors and checked arithmetic\<close>

definition SystemError :: "string \<Rightarrow> int \<Rightarrow> exn" where
  "SystemError operation error_number = system_error operation error_number"

definition CheckedAdd :: "64 word \<Rightarrow> 64 word \<Rightarrow> exn + 64 word" where
  "CheckedAdd lhs rhs =
     (if lhs > - 1 - rhs then Inl (overflow_error ''uint64 addition overflow'') else Inr (lhs + rhs))"

definition CheckedMul :: "64 word \<Rightarrow> 64 word \<Rightarrow> exn + 64 word" where
  "CheckedMul lhs rhs =
     (if lhs \<noteq> 0 \<and> rhs > (- 1) div lhs then Inl (overflow_error ''uint64 multiplication overflow'')
      else Inr (lhs * rhs))"

definition max_offset :: "64 word" where
  "max_offset = 9223372036854775807"

definition CheckedOffset :: "64 word \<Rightarrow> exn + off_t" where
  "CheckedOffset offset =
     (if offset > max_offset then Inl (overflow_error ''file offset does not fit into off_t'') else Inr offset)"

text \<open>A page buffer is where its address says.\<close>

definition ValidatePageAlignment :: "64 word \<Rightarrow> exn + unit" where
  "ValidatePageAlignment address =
     (if address mod kPageSize \<noteq> 0 then Inl (logic_error ''page buffer is not page-size aligned'') else Inr ())"

subsection \<open>Reading and writing in full\<close>

type_synonym ('s, 'a) pact = "'s \<Rightarrow> ((exn + 'a) \<times> 's) option"

definition bindO :: "('s, 'a) pact \<Rightarrow> ('a \<Rightarrow> ('s, 'b) pact) \<Rightarrow> ('s, 'b) pact" where
  "bindO m f = (\<lambda>s. case m s of None \<Rightarrow> None
     | Some (Inl e, s') \<Rightarrow> Some (Inl e, s')
     | Some (Inr a, s') \<Rightarrow> f a s')"

definition liftO :: "('s, 'a) act \<Rightarrow> ('s, 'a) pact" where
  "liftO m = (\<lambda>s. Some (m s))"

definition checkO :: "exn + 'a \<Rightarrow> ('s, 'a) pact" where
  "checkO r = (\<lambda>s. Some (r, s))"

text \<open>\<open>put_bytes out t bs\<close>: the buffer \<open>out\<close> after a call has filled it from \<open>out + t\<close>.\<close>

definition put_bytes :: "byte list \<Rightarrow> nat \<Rightarrow> byte list \<Rightarrow> byte list" where
  "put_bytes out t bs = take t out @ bs @ drop (t + length bs) out"

definition io_offset :: "64 word \<Rightarrow> size_t \<Rightarrow> exn + off_t" where
  "io_offset offset done_bytes = bindE (CheckedAdd offset done_bytes) CheckedOffset"

partial_function (option) ReadAtMost_loop ::
  "'os Posix \<Rightarrow> int \<Rightarrow> size_t \<Rightarrow> 64 word \<Rightarrow> size_t \<Rightarrow> byte list \<Rightarrow> 'os \<Rightarrow> ((exn + unit) \<times> byte list \<times> 'os) option"
where
  "ReadAtMost_loop P fd nbytes offset total_read out os =
     (if total_read < nbytes then
        (case io_offset offset total_read of
           Inl e \<Rightarrow> Some (Inl e, out, os)
         | Inr off \<Rightarrow>
             (case sys_pread P fd (nbytes - total_read) off os of (r, os') \<Rightarrow>
                (case r of
                   Inl errno \<Rightarrow>
                     if errno = EINTR then ReadAtMost_loop P fd nbytes offset total_read out os'
                     else Some (Inl (SystemError ''pread failed'' errno), out, os')
                 | Inr bs \<Rightarrow>
                     if bs = [] then Some (Inr (), out, os')
                     else ReadAtMost_loop P fd nbytes offset (total_read + of_nat (length bs))
                            (put_bytes out (unat total_read) bs) os')))
      else Some (Inr (), out, os))"

definition ReadAtMost ::
  "'os Posix \<Rightarrow> int \<Rightarrow> size_t \<Rightarrow> 64 word \<Rightarrow> (byte list \<times> 'os, unit) pact" where
  "ReadAtMost P fd nbytes offset = (\<lambda>(buffer, os). ReadAtMost_loop P fd nbytes offset 0 buffer os)"

partial_function (option) WriteFully_loop ::
  "'os Posix \<Rightarrow> int \<Rightarrow> byte list \<Rightarrow> size_t \<Rightarrow> 64 word \<Rightarrow> size_t \<Rightarrow> 'os \<Rightarrow> ((exn + unit) \<times> 'os) option"
where
  "WriteFully_loop P fd buffer nbytes offset total_written os =
     (if total_written < nbytes then
        (case io_offset offset total_written of
           Inl e \<Rightarrow> Some (Inl e, os)
         | Inr off \<Rightarrow>
             (case sys_pwrite P fd (take (unat (nbytes - total_written)) (drop (unat total_written) buffer)) off os of
                (r, os') \<Rightarrow>
                (case r of
                   Inl errno \<Rightarrow>
                     if errno = EINTR then WriteFully_loop P fd buffer nbytes offset total_written os'
                     else Some (Inl (SystemError ''pwrite failed'' errno), os')
                 | Inr n \<Rightarrow>
                     if n = 0 then Some (Inl (runtime_error ''pwrite wrote zero bytes''), os')
                     else WriteFully_loop P fd buffer nbytes offset (total_written + of_nat n) os')))
      else Some (Inr (), os))"

definition WriteFully :: "'os Posix \<Rightarrow> int \<Rightarrow> byte list \<Rightarrow> size_t \<Rightarrow> 64 word \<Rightarrow> ('os, unit) pact" where
  "WriteFully P fd buffer nbytes offset = WriteFully_loop P fd buffer nbytes offset 0"

subsection \<open>The disk manager\<close>

record DiskManager =
  dm_options :: DiskManagerOptions
  dm_fd :: int

definition ExpectedFileSize :: "DiskManagerOptions \<Rightarrow> exn + 64 word" where
  "ExpectedFileSize opts =
     bindE (CheckedMul (disk_max_page_count opts) kPageSize) (\<lambda>page_area_size.
     CheckedAdd (header_size opts) page_area_size)"

definition Disk_ValidateOptions :: "DiskManagerOptions \<Rightarrow> exn + unit" where
  "Disk_ValidateOptions opts =
     (if path opts = [] then Inl (invalid_argument ''disk path must not be empty'')
      else if disk_max_page_count opts = 0 then
        Inl (invalid_argument ''max_page_count must be greater than zero'')
      else if header_size opts < of_nat sizeof_DiskFileHeader then
        Inl (invalid_argument ''header_size is too small'')
      else if header_size opts mod kPageSize \<noteq> 0 then
        Inl (invalid_argument ''header_size must be a multiple of kPageSize'')
      else bindE (ExpectedFileSize opts) (\<lambda>_. Inr ()))"

definition Disk_ValidatePageId :: "DiskManagerOptions \<Rightarrow> PageId \<Rightarrow> exn + unit" where
  "Disk_ValidatePageId opts page_id =
     (if page_id \<ge> disk_max_page_count opts then Inl (out_of_range ''page id is out of range'') else Inr ())"

definition OffsetForPage :: "DiskManagerOptions \<Rightarrow> PageId \<Rightarrow> exn + 64 word" where
  "OffsetForPage opts page_id =
     bindE (Disk_ValidatePageId opts page_id) (\<lambda>_.
     bindE (CheckedMul page_id kPageSize) (\<lambda>page_offset.
     CheckedAdd (header_size opts) page_offset))"

definition FileSize :: "'os Posix \<Rightarrow> int \<Rightarrow> ('os, 64 word) act" where
  "FileSize P fd os =
     (case sys_fstat P fd os of
        (Inl errno, os') \<Rightarrow> (Inl (SystemError ''fstat failed'' errno), os')
      | (Inr st_size, os') \<Rightarrow>
          if st_size < 0 then (Inl (runtime_error ''file size is negative''), os')
          else (Inr (of_int st_size), os'))"

definition open_flags :: "DiskManagerOptions \<Rightarrow> open_flag list" where
  "open_flags opts =
     [O_RDWR, O_CREAT] @ (if io_mode opts = kDirect then [O_DIRECT] else []) @ [O_CLOEXEC] @
     (if truncate_existing opts then [O_TRUNC] else [])"

definition OpenFile :: "'os Posix \<Rightarrow> DiskManagerOptions \<Rightarrow> ('os, int) act" where
  "OpenFile P opts os =
     (case sys_open P (path opts) (open_flags opts) kFileCreateMode os of
        (Inl errno, os') \<Rightarrow> (Inl (SystemError ''open failed'' errno), os')
      | (Inr fd, os') \<Rightarrow> (Inr fd, os'))"

text \<open>A page of zeros with the header copied over its first bytes.\<close>

definition header_page :: "DiskFileHeader \<Rightarrow> byte list" where
  "header_page h = put_bytes (replicate (unat kPageSize) 0) 0 (header_bytes h)"

definition WriteFreshHeader :: "'os Posix \<Rightarrow> DiskManagerOptions \<Rightarrow> int \<Rightarrow> ('os, unit) pact" where
  "WriteFreshHeader P opts fd = WriteFully P fd (header_page (MakeHeader opts)) kPageSize 0"

definition check_header :: "DiskManagerOptions \<Rightarrow> DiskFileHeader \<Rightarrow> exn + unit" where
  "check_header opts header =
     (if magic header \<noteq> kMagic then Inl (runtime_error ''invalid disk file magic'')
      else if version header \<noteq> kFormatVersion then Inl (runtime_error ''unsupported disk file format version'')
      else if ucast (page_size header) \<noteq> kPageSize then
        Inl (runtime_error ''disk file page size does not match build'')
      else if hdr_max_page_count header \<noteq> disk_max_page_count opts then
        Inl (runtime_error ''disk file max_page_count does not match options'')
      else if hdr_header_size header \<noteq> header_size opts then
        Inl (runtime_error ''disk file header_size does not match options'')
      else Inr ())"

definition ValidateExistingHeader :: "'os Posix \<Rightarrow> DiskManagerOptions \<Rightarrow> int \<Rightarrow> ('os, unit) pact" where
  "ValidateExistingHeader P opts fd os =
     (case ReadAtMost P fd kPageSize 0 (replicate (unat kPageSize) 0, os) of
        None \<Rightarrow> None
      | Some (Inl e, buffer, os') \<Rightarrow> Some (Inl e, os')
      | Some (Inr _, buffer, os') \<Rightarrow> Some (check_header opts (header_of_bytes buffer), os'))"

definition PreallocateFile :: "'os Posix \<Rightarrow> DiskManagerOptions \<Rightarrow> int \<Rightarrow> ('os, unit) act" where
  "PreallocateFile P opts fd =
     bindA (readA (\<lambda>_. ExpectedFileSize opts)) (\<lambda>expected_size.
     if expected_size > max_offset then throwA (overflow_error ''expected file size does not fit into off_t'')
     else (\<lambda>os. case sys_ftruncate P fd expected_size os of
        (Inl errno, os') \<Rightarrow> (Inl (SystemError ''ftruncate failed'' errno), os')
      | (Inr _, os') \<Rightarrow> (Inr (), os')))"

definition InitializeFile :: "'os Posix \<Rightarrow> DiskManagerOptions \<Rightarrow> int \<Rightarrow> ('os, unit) pact" where
  "InitializeFile P opts fd =
     bindO (liftO (FileSize P fd)) (\<lambda>file_size.
     bindO (if file_size = 0 \<or> truncate_existing opts then WriteFreshHeader P opts fd
            else ValidateExistingHeader P opts fd) (\<lambda>_.
     if preallocate opts then liftO (PreallocateFile P opts fd) else checkO (Inr ())))"

text \<open>The constructor.\<close>

definition new_DiskManager :: "'os Posix \<Rightarrow> DiskManagerOptions \<Rightarrow> ('os, DiskManager) pact" where
  "new_DiskManager P opts =
     bindO (checkO (Disk_ValidateOptions opts)) (\<lambda>_.
     bindO (liftO (OpenFile P opts)) (\<lambda>fd.
     bindO (InitializeFile P opts fd) (\<lambda>_.
     checkO (Inr \<lparr>dm_options = opts, dm_fd = fd\<rparr>))))"

text \<open>The destructor ignores the result of \<^verbatim>\<open>close\<close>.\<close>

definition delete_DiskManager :: "'os Posix \<Rightarrow> DiskManager \<Rightarrow> 'os \<Rightarrow> DiskManager \<times> 'os" where
  "delete_DiskManager P dm os =
     (if dm_fd dm \<ge> 0 then (dm\<lparr>dm_fd := - 1\<rparr>, snd (sys_close P (dm_fd dm) os)) else (dm, os))"

text \<open>
  The page a caller passes by pointer is its address and its content; the null pointer is the
  address 0.
\<close>

definition ReadPage ::
  "'os Posix \<Rightarrow> DiskManager \<Rightarrow> PageId \<Rightarrow> 64 word \<Rightarrow> (Page \<times> 'os, unit) pact" where
  "ReadPage P dm page_id address = (\<lambda>(page, os).
     case bindE (if address = 0 then Inl (invalid_argument ''page must not be null'') else Inr ()) (\<lambda>_.
          bindE (Disk_ValidatePageId (dm_options dm) page_id) (\<lambda>_. ValidatePageAlignment address)) of
       Inl e \<Rightarrow> Some (Inl e, page, os)
     | Inr _ \<Rightarrow>
         let page = fill 0 page in
         case OffsetForPage (dm_options dm) page_id of
           Inl e \<Rightarrow> Some (Inl e, page, os)
         | Inr offset \<Rightarrow>
             (case ReadAtMost P (dm_fd dm) kPageSize offset (data page, os) of
                None \<Rightarrow> None
              | Some (r, buffer, os') \<Rightarrow> Some (r, page\<lparr>data := buffer\<rparr>, os')))"

definition WritePage ::
  "'os Posix \<Rightarrow> DiskManager \<Rightarrow> PageId \<Rightarrow> 64 word \<Rightarrow> Page \<Rightarrow> ('os, unit) pact" where
  "WritePage P dm page_id address page =
     bindO (checkO (Disk_ValidatePageId (dm_options dm) page_id)) (\<lambda>_.
     bindO (checkO (ValidatePageAlignment address)) (\<lambda>_.
     bindO (checkO (OffsetForPage (dm_options dm) page_id)) (\<lambda>offset.
     WriteFully P (dm_fd dm) (data page) kPageSize offset)))"

definition Disk_Sync :: "'os Posix \<Rightarrow> DiskManager \<Rightarrow> ('os, unit) act" where
  "Disk_Sync P dm os =
     (if dm_fd dm < 0 then (Inl (logic_error ''disk file is not open''), os)
      else (case sys_fdatasync P (dm_fd dm) os of
        (Inl errno, os') \<Rightarrow> (Inl (SystemError ''fdatasync failed'' errno), os')
      | (Inr _, os') \<Rightarrow> (Inr (), os')))"

end
