(* ===== verification/Async_Executor.thy ===== *)
theory Async_Executor
  imports BM_Prelude
begin

text \<open>
  The thread pool of the asynchronous operations (class \<^verbatim>\<open>BufferManager::AsyncExecutor\<close>
  in \<^verbatim>\<open>src/buffer_manager.cc\<close>): a queue of tasks, the worker threads, and the clients that
  submit tasks or destroy the pool. A step is what one thread does while it holds the mutex, one
  notification, or the end of a task.
\<close>

subsection \<open>State and operations\<close>

text \<open>
  A worker is about to take the mutex at the head of its loop, is blocked in
  \<^verbatim>\<open>ready_.wait\<close>, runs a task, or has left \<^verbatim>\<open>WorkerLoop\<close>.
\<close>

datatype 't worker = AtLoopHead | BlockedOnReady | RunningTask 't | Exited

record 't AsyncExecutor =
  stopping :: bool
  tasks :: "'t list"
  workers :: "'t worker list"

definition new_AsyncExecutor :: "size_t \<Rightarrow> exn + 't AsyncExecutor" where
  "new_AsyncExecutor worker_count =
     (if worker_count = 0 then Inl (invalid_argument ''async_worker_count must be greater than zero'')
      else Inr \<lparr>stopping = False, tasks = [], workers = replicate (unat worker_count) AtLoopHead\<rparr>)"

text \<open>The part of \<^verbatim>\<open>Submit\<close> under the mutex.\<close>

definition Submit :: "'t \<Rightarrow> ('t AsyncExecutor, unit) act" where
  "Submit task =
     bindA (getA stopping) (\<lambda>st.
     if st then throwA (logic_error ''async executor is stopping'')
     else modifyA (\<lambda>e. e\<lparr>tasks := tasks e @ [task]\<rparr>))"

definition notify_one :: "nat \<Rightarrow> 't AsyncExecutor \<Rightarrow> 't AsyncExecutor" where
  "notify_one w e =
     (if w < length (workers e) \<and> workers e ! w = BlockedOnReady
      then e\<lparr>workers := (workers e)[w := AtLoopHead]\<rparr> else e)"

definition notify_all_workers :: "'t AsyncExecutor \<Rightarrow> 't AsyncExecutor" where
  "notify_all_workers e =
     e\<lparr>workers := map (\<lambda>w. if w = BlockedOnReady then AtLoopHead else w) (workers e)\<rparr>"

text \<open>
  One round of \<^verbatim>\<open>WorkerLoop\<close> under the mutex: wait unless there is something to do, leave
  when the pool stops and the queue is empty, otherwise take the first task.
\<close>

definition WorkerLoop :: "nat \<Rightarrow> 't AsyncExecutor \<Rightarrow> 't AsyncExecutor" where
  "WorkerLoop w e =
     (if \<not> (stopping e \<or> tasks e \<noteq> []) then e\<lparr>workers := (workers e)[w := BlockedOnReady]\<rparr>
      else if stopping e \<and> tasks e = [] then e\<lparr>workers := (workers e)[w := Exited]\<rparr>
      else e\<lparr>tasks := tl (tasks e), workers := (workers e)[w := RunningTask (hd (tasks e))]\<rparr>)"

text \<open>The destructor: the part under the mutex; the workers are then notified and joined.\<close>

definition begin_stop :: "'t AsyncExecutor \<Rightarrow> 't AsyncExecutor" where
  "begin_stop e = e\<lparr>stopping := True\<rparr>"

definition joined :: "'t AsyncExecutor \<Rightarrow> bool" where
  "joined e \<longleftrightarrow> (\<forall>w \<in> set (workers e). w = Exited)"

subsection \<open>The pool as a transition system\<close>

text \<open>
  Around the pool: the notifications announced and not delivered (a submitter between its two
  steps, and the destructor between its two steps), and a record of the tasks submitted, started
  and finished, in order.
\<close>

record 't pool =
  pool :: "'t AsyncExecutor"
  to_notify :: nat
  to_notify_all :: bool
  submitted :: "'t list"
  started :: "'t list"
  finished :: "'t list"

inductive pool_step :: "'t pool \<Rightarrow> 't pool \<Rightarrow> bool" where
  submit: "Submit t (pool P) = (Inr (), e) \<Longrightarrow>
    pool_step P (P\<lparr>pool := e, to_notify := Suc (to_notify P), submitted := submitted P @ [t]\<rparr>)"
| notify: "0 < to_notify P \<Longrightarrow>
    w < length (workers (pool P)) \<and> workers (pool P) ! w = BlockedOnReady \<or> BlockedOnReady \<notin> set (workers (pool P)) \<Longrightarrow>
    pool_step P (P\<lparr>pool := notify_one w (pool P), to_notify := to_notify P - 1\<rparr>)"
| spurious: "pool_step P (P\<lparr>pool := notify_one w (pool P)\<rparr>)"
| take_task: "w < length (workers (pool P)) \<Longrightarrow> workers (pool P) ! w = AtLoopHead \<Longrightarrow>
    pool_step P (P\<lparr>pool := WorkerLoop w (pool P),
      started := started P @ (if tasks (pool P) = [] then [] else [hd (tasks (pool P))])\<rparr>)"
| end_task: "w < length (workers (pool P)) \<Longrightarrow> workers (pool P) ! w = RunningTask t \<Longrightarrow>
    pool_step P (P\<lparr>pool := (pool P)\<lparr>workers := (workers (pool P))[w := AtLoopHead]\<rparr>, finished := finished P @ [t]\<rparr>)"
| destroy: "\<not> stopping (pool P) \<Longrightarrow> pool_step P (P\<lparr>pool := begin_stop (pool P), to_notify_all := True\<rparr>)"
| destroy_notify: "to_notify_all P \<Longrightarrow>
    pool_step P (P\<lparr>pool := notify_all_workers (pool P), to_notify_all := False\<rparr>)"

inductive_cases pool_stepE: "pool_step P P'"

definition pool_start :: "'t AsyncExecutor \<Rightarrow> 't pool" where
  "pool_start e = \<lparr>pool = e, to_notify = 0, to_notify_all = False, submitted = [], started = [], finished = []\<rparr>"

inductive pool_reach :: "'t AsyncExecutor \<Rightarrow> 't pool \<Rightarrow> bool" for e where
  init: "pool_reach e (pool_start e)"
| step: "pool_reach e P \<Longrightarrow> pool_step P P' \<Longrightarrow> pool_reach e P'"

subsection \<open>Invariant\<close>

fun running :: "'t worker \<Rightarrow> 't list" where
  "running (RunningTask t) = [t]"
| "running _ = []"

definition awake :: "'t worker \<Rightarrow> bool" where
  "awake w \<longleftrightarrow> w \<noteq> BlockedOnReady \<and> w \<noteq> Exited"

text \<open>
  The tasks are started in the order in which they were submitted, each once; a started task is
  running or finished; no worker leaves before the queue is empty for good; and when there is a
  task to start or the pool stops, some worker is awake or about to be woken.
\<close>

definition pool_inv :: "nat \<Rightarrow> 't pool \<Rightarrow> bool" where
  "pool_inv n P \<longleftrightarrow>
     length (workers (pool P)) = n \<and> 0 < n \<and>
     submitted P = started P @ tasks (pool P) \<and>
     mset (started P) = mset (finished P) + mset (concat (map running (workers (pool P)))) \<and>
     (Exited \<in> set (workers (pool P)) \<longrightarrow> stopping (pool P) \<and> tasks (pool P) = []) \<and>
     (tasks (pool P) \<noteq> [] \<longrightarrow> (\<exists>w \<in> set (workers (pool P)). awake w) \<or> 0 < to_notify P \<or> to_notify_all P) \<and>
     (stopping (pool P) \<longrightarrow> BlockedOnReady \<notin> set (workers (pool P)) \<or> to_notify_all P) \<and>
     (to_notify_all P \<longrightarrow> stopping (pool P))"

lemma running_concat_update:
  assumes "w < length ws" and "running (ws ! w) = []"
  shows "mset (concat (map running (ws[w := x]))) = mset (concat (map running ws)) + mset (running x)"
  using mset_concat_update [OF assms(1), of running x] assms(2) by simp

lemma notify_one_workers:
  "workers (notify_one w e) = workers e \<or>
   w < length (workers e) \<and> workers e ! w = BlockedOnReady \<and> workers (notify_one w e) = (workers e)[w := AtLoopHead]"
  by (simp add: notify_one_def)

lemma awake_simps [simp]:
  "awake AtLoopHead" "awake (RunningTask t)" "\<not> awake BlockedOnReady" "\<not> awake Exited"
  by (simp_all add: awake_def)

lemma mem_updated: "w < length ws \<Longrightarrow> x \<in> set (ws[w := x])"
  by (rule set_update_memI)

lemma mem_update_other: "w < length ws \<Longrightarrow> v \<in> set (ws[w := x]) \<Longrightarrow> v \<noteq> x \<Longrightarrow> v \<in> set ws"
  using set_update_subset_insert [of ws w x] by blast

lemma notify_one_inv:
  assumes inv: "pool_inv n P" and P': "P' = P\<lparr>pool := notify_one w (pool P), to_notify := k\<rparr>"
    and ok: "k = to_notify P \<or>
      (w < length (workers (pool P)) \<and> workers (pool P) ! w = BlockedOnReady \<or> BlockedOnReady \<notin> set (workers (pool P)))"
  shows "pool_inv n P'"
proof (cases "w < length (workers (pool P)) \<and> workers (pool P) ! w = BlockedOnReady")
  case True
  let ?e = "(pool P)\<lparr>workers := (workers (pool P))[w := AtLoopHead]\<rparr>"
  have e: "notify_one w (pool P) = ?e" using True by (simp add: notify_one_def)
  have "AtLoopHead \<in> set (workers ?e)" using True mem_updated [of w "workers (pool P)"] by simp
  then have "\<exists>w \<in> set (workers ?e). awake w" using awake_simps(1) by blast
  moreover have "mset (concat (map running (workers ?e))) = mset (concat (map running (workers (pool P))))"
    using True running_concat_update [of w "workers (pool P)" AtLoopHead] by simp
  moreover have "Exited \<in> set (workers ?e) \<Longrightarrow> Exited \<in> set (workers (pool P))"
    "BlockedOnReady \<in> set (workers ?e) \<Longrightarrow> BlockedOnReady \<in> set (workers (pool P))"
    using True mem_update_other [of w "workers (pool P)"] by auto
  ultimately show ?thesis using inv unfolding pool_inv_def P' e by auto
next
  case False
  then have e: "notify_one w (pool P) = pool P" by (auto simp: notify_one_def)
  have "\<exists>v \<in> set (workers (pool P)). awake v" if "k \<noteq> to_notify P" "tasks (pool P) \<noteq> []"
  proof -
    have nb: "BlockedOnReady \<notin> set (workers (pool P))" using False ok that(1) by auto
    have ne: "Exited \<notin> set (workers (pool P))" using inv that(2) by (auto simp: pool_inv_def)
    obtain v where v: "v \<in> set (workers (pool P))"
      using inv by (cases "workers (pool P)") (auto simp: pool_inv_def)
    then have "awake v" using nb ne by (auto simp: awake_def)
    with v show ?thesis ..
  qed
  then show ?thesis using inv unfolding pool_inv_def P' e by auto
qed

lemma take_task_inv:
  assumes inv: "pool_inv n P" and w: "w < length (workers (pool P))" "workers (pool P) ! w = AtLoopHead"
    and P': "P' = P\<lparr>pool := WorkerLoop w (pool P),
      started := started P @ (if tasks (pool P) = [] then [] else [hd (tasks (pool P))])\<rparr>"
  shows "pool_inv n P'"
proof -
  let ?ws = "workers (pool P)"
  have run: "mset (concat (map running (?ws[w := x]))) = mset (concat (map running ?ws)) + mset (running x)" for x
    using running_concat_update [OF w(1), of x] w(2) by simp
  have sub: "v \<in> set (?ws[w := x]) \<Longrightarrow> v \<noteq> x \<Longrightarrow> v \<in> set ?ws" for v x
    using mem_update_other [OF w(1)] .
  have upd: "x \<in> set (?ws[w := x])" for x using mem_updated [OF w(1)] .
  consider (wait) "\<not> stopping (pool P)" "tasks (pool P) = []" | (leave) "stopping (pool P)" "tasks (pool P) = []"
    | (take) t ts where "tasks (pool P) = t # ts" by (cases "tasks (pool P)") auto
  then show ?thesis
  proof cases
    case wait
    then show ?thesis
      using inv sub [of Exited BlockedOnReady] by (auto simp: pool_inv_def P' WorkerLoop_def run)
  next
    case leave
    then show ?thesis
      using inv sub [of BlockedOnReady Exited] by (auto simp: pool_inv_def P' WorkerLoop_def run)
  next
    case take
    have "\<exists>v \<in> set (?ws[w := RunningTask t]). awake v" by (rule bexI [OF _ upd]) simp
    moreover have "Exited \<notin> set ?ws"
    proof
      assume "Exited \<in> set ?ws"
      then have "tasks (pool P) = []" using inv by (simp add: pool_inv_def)
      then show False using take by simp
    qed
    then have "Exited \<notin> set (?ws[w := RunningTask t])" 
      by (rule contrapos_nn) (erule sub, rule worker.distinct)
    moreover have "BlockedOnReady \<in> set (?ws[w := RunningTask t]) \<Longrightarrow> BlockedOnReady \<in> set ?ws"
      by (erule sub) (rule worker.distinct)
    ultimately show ?thesis
      using inv take unfolding pool_inv_def P' WorkerLoop_def by (simp add: run)
  qed
qed

lemma end_task_inv:
  assumes inv: "pool_inv n P" and w: "w < length (workers (pool P))" "workers (pool P) ! w = RunningTask t"
    and P': "P' = P\<lparr>pool := (pool P)\<lparr>workers := (workers (pool P))[w := AtLoopHead]\<rparr>, finished := finished P @ [t]\<rparr>"
  shows "pool_inv n P'"
proof -
  let ?ws = "workers (pool P)"
  have "mset (concat (map running (?ws[w := AtLoopHead]))) + {#t#} = mset (concat (map running ?ws))"
    using mset_concat_update [OF w(1), of running AtLoopHead] w(2) by simp
  then have "mset (started P) = mset (finished P @ [t]) + mset (concat (map running (?ws[w := AtLoopHead])))"
    using inv by (simp add: pool_inv_def)
  moreover have "\<exists>v \<in> set (?ws[w := AtLoopHead]). awake v" using mem_updated [OF w(1)] awake_simps(1) by blast
  ultimately show ?thesis
    using inv mem_update_other [OF w(1), of Exited AtLoopHead] mem_update_other [OF w(1), of BlockedOnReady AtLoopHead]
    by (auto simp: pool_inv_def P')
qed

lemma notify_all_inv:
  assumes inv: "pool_inv n P" and a: "to_notify_all P"
    and P': "P' = P\<lparr>pool := notify_all_workers (pool P), to_notify_all := False\<rparr>"
  shows "pool_inv n P'"
proof -
  let ?ws = "workers (pool P)" and ?ws' = "map (\<lambda>w. if w = BlockedOnReady then AtLoopHead else w) (workers (pool P))"
  have run: "concat (map running ?ws') = concat (map running ?ws)"
    by (induction ?ws arbitrary: P) (auto intro: arg_cong [where f = concat])
  have ex: "Exited \<in> set ?ws' \<Longrightarrow> Exited \<in> set ?ws" by (auto split: if_splits)
  have "\<exists>v \<in> set ?ws'. awake v" if ts: "tasks (pool P) \<noteq> []"
  proof -
    have ne: "Exited \<notin> set ?ws" using inv ts by (auto simp: pool_inv_def)
    obtain v where v: "v \<in> set ?ws" using inv by (cases ?ws) (auto simp: pool_inv_def)
    then have "awake (if v = BlockedOnReady then AtLoopHead else v)" using ne by (auto simp: awake_def)
    moreover have "(if v = BlockedOnReady then AtLoopHead else v) \<in> set ?ws'" using v by simp
    ultimately show ?thesis by blast
  qed
  then show ?thesis
    using inv a run ex by (auto simp: pool_inv_def P' notify_all_workers_def)
qed

lemma pool_step_inv:
  assumes inv: "pool_inv n P" and st: "pool_step P P'"
  shows "pool_inv n P'"
  using st
proof (cases rule: pool_step.cases)
  case (submit t e)
  then have "\<not> stopping (pool P)" "e = (pool P)\<lparr>tasks := tasks (pool P) @ [t]\<rparr>"
    by (auto simp: Submit_def split: if_splits)
  then show ?thesis using inv submit by (auto simp: pool_inv_def)
next
  case (notify w)
  then show ?thesis using notify_one_inv [OF inv notify(1)] by blast
next
  case (spurious w)
  have "P' = P\<lparr>pool := notify_one w (pool P), to_notify := to_notify P\<rparr>" using spurious by simp
  then show ?thesis using notify_one_inv [OF inv] by blast
next
  case (take_task w)
  then show ?thesis using take_task_inv [OF inv] by blast
next
  case (end_task w t)
  then show ?thesis using end_task_inv [OF inv] by blast
next
  case destroy
  then show ?thesis using inv by (auto simp: pool_inv_def begin_stop_def)
next
  case destroy_notify
  then show ?thesis using notify_all_inv [OF inv] by blast
qed

lemma new_AsyncExecutor_inv: "new_AsyncExecutor n = Inr e \<Longrightarrow> pool_inv (unat n) (pool_start e)"
  by (auto simp: new_AsyncExecutor_def pool_inv_def pool_start_def unat_gt_0 split: if_splits)

lemma pool_reach_inv: "pool_reach e P \<Longrightarrow> new_AsyncExecutor n = Inr e \<Longrightarrow> pool_inv (unat n) P"
  by (induction rule: pool_reach.induct) (auto intro: new_AsyncExecutor_inv pool_step_inv)

subsection \<open>Shutting down\<close>

text \<open>
  Once the destructor has notified the workers, every step of a worker brings the end nearer, and
  there is such a step until all have left.
\<close>

fun work_left :: "'t worker \<Rightarrow> nat" where
  "work_left AtLoopHead = 1"
| "work_left BlockedOnReady = 2"
| "work_left (RunningTask t) = 2"
| "work_left Exited = 0"

definition shutdown_measure :: "'t AsyncExecutor \<Rightarrow> nat" where
  "shutdown_measure e = 2 * length (tasks e) + sum_list (map work_left (workers e))"

lemma work_left_update:
  "w < length ws \<Longrightarrow> sum_list (map work_left (ws[w := x])) + work_left (ws ! w) = sum_list (map work_left ws) + work_left x"
proof (induction ws arbitrary: w)
  case (Cons v ws)
  then show ?case by (cases w) (simp_all add: add.left_commute add.commute)
qed simp

lemma WorkerLoop_measure:
  assumes "stopping e" and w: "w < length (workers e)" "workers e ! w = AtLoopHead"
  shows "shutdown_measure (WorkerLoop w e) < shutdown_measure e"
proof (cases "tasks e")
  case Nil
  then show ?thesis
    using assms work_left_update [OF w(1), of Exited] by (simp add: WorkerLoop_def shutdown_measure_def)
next
  case (Cons t ts)
  then show ?thesis
    using assms work_left_update [OF w(1), of "RunningTask t"] by (simp add: WorkerLoop_def shutdown_measure_def)
qed

lemma end_task_measure:
  assumes "w < length (workers e)" and "workers e ! w = RunningTask t"
  shows "shutdown_measure (e\<lparr>workers := (workers e)[w := AtLoopHead]\<rparr>) < shutdown_measure e"
  using assms work_left_update [OF assms(1), of AtLoopHead] by (simp add: shutdown_measure_def)

lemma shutdown_step:
  assumes inv: "pool_inv n P" and st: "stopping (pool P)" "\<not> to_notify_all P" and nj: "\<not> joined (pool P)"
  shows "\<exists>P'. pool_step P P' \<and> stopping (pool P') \<and> \<not> to_notify_all P' \<and> submitted P' = submitted P \<and>
    shutdown_measure (pool P') < shutdown_measure (pool P)"
proof -
  obtain w where w: "w < length (workers (pool P))" "workers (pool P) ! w \<noteq> Exited"
    using nj by (auto simp: joined_def in_set_conv_nth)
  moreover have "workers (pool P) ! w \<noteq> BlockedOnReady"
  proof -
    have "BlockedOnReady \<notin> set (workers (pool P))" using inv st by (simp add: pool_inv_def)
    then show ?thesis using w(1) by (metis nth_mem)
  qed
  ultimately consider "workers (pool P) ! w = AtLoopHead" | t where "workers (pool P) ! w = RunningTask t"
    by (cases "workers (pool P) ! w") auto
  then show ?thesis
  proof cases
    case 1
    have "stopping (WorkerLoop w (pool P))" using st by (simp add: WorkerLoop_def)
    then show ?thesis
      using pool_step.take_task [OF w(1) 1] WorkerLoop_measure [OF st(1) w(1) 1] st(2) by fastforce
  next
    case 2
    then show ?thesis
      using pool_step.end_task [OF w(1) 2] end_task_measure [OF w(1) 2] st by fastforce
  qed
qed

lemma joined_all_done:
  assumes inv: "pool_inv n P" and j: "joined (pool P)"
  shows "started P = submitted P \<and> mset (finished P) = mset (submitted P) \<and> stopping (pool P)"
proof -
  let ?ws = "workers (pool P)"
  have run: "concat (map running ?ws) = []" using j by (auto simp: joined_def)
  have "Exited \<in> set ?ws" using inv j by (cases ?ws) (auto simp: pool_inv_def joined_def)
  then have "tasks (pool P) = []" "stopping (pool P)" using inv by (auto simp: pool_inv_def)
  then show ?thesis using inv run by (simp add: pool_inv_def)
qed

subsection \<open>Properties\<close>

text \<open>C28: tasks are started in the order in which they were submitted, each exactly once, and a task
  that was started is running or finished.\<close>

theorem tasks_run_once_in_order:
  assumes "new_AsyncExecutor n = Inr e" and "pool_reach e P"
  shows "submitted P = started P @ tasks (pool P) \<and>
    mset (started P) = mset (finished P) + mset (concat (map running (workers (pool P))))"
  using pool_reach_inv [OF assms(2,1)] by (simp add: pool_inv_def)

text \<open>A pool of one worker, one task submitted, the destructor at its join.\<close>

definition ex_pool :: "nat pool" where
  "ex_pool = \<lparr>pool = \<lparr>stopping = True, tasks = [5], workers = [AtLoopHead]\<rparr>, to_notify = 1, to_notify_all = False,
     submitted = [5], started = [], finished = []\<rparr>"

lemma ex_pool_reach: "new_AsyncExecutor 1 = Inr \<lparr>stopping = False, tasks = [], workers = [AtLoopHead]\<rparr>"
  "pool_reach \<lparr>stopping = False, tasks = [], workers = [AtLoopHead]\<rparr> ex_pool"
proof -
  let ?e = "\<lparr>stopping = False, tasks = [] :: nat list, workers = [AtLoopHead]\<rparr>"
  show "new_AsyncExecutor 1 = Inr \<lparr>stopping = False, tasks = [], workers = [AtLoopHead]\<rparr>"
    by (simp add: new_AsyncExecutor_def)
  have s: "Submit (5 :: nat) ?e = (Inr (), ?e\<lparr>tasks := [5]\<rparr>)" by (simp add: Submit_def)
  have "pool_reach ?e ((pool_start ?e)\<lparr>pool := ?e\<lparr>tasks := [5]\<rparr>, to_notify := 1, submitted := [5]\<rparr>)" (is "pool_reach _ ?P1")
    using pool_reach.step [OF pool_reach.init pool_step.submit, of 5 ?e] s by (simp add: pool_start_def)
  from pool_reach.step [OF this pool_step.destroy]
  have "pool_reach ?e (?P1\<lparr>pool := begin_stop (pool ?P1), to_notify_all := True\<rparr>)" (is "pool_reach _ ?P2")
    by simp
  from pool_reach.step [OF this pool_step.destroy_notify]
  show "pool_reach ?e ex_pool"
    by (simp add: ex_pool_def pool_start_def begin_stop_def notify_all_workers_def)
qed

theorem tasks_run_once_in_order_witness: "submitted ex_pool = started ex_pool @ tasks (pool ex_pool)"
  using tasks_run_once_in_order [OF ex_pool_reach] by blast

text \<open>C27: no wake-up is lost: while there is a task in the queue, some worker is awake, so that it will
  come to the queue, or a notification is still to be delivered.\<close>

theorem queued_task_is_served:
  assumes "new_AsyncExecutor n = Inr e" and "pool_reach e P" and "tasks (pool P) \<noteq> []"
  shows "(\<exists>w < length (workers (pool P)). workers (pool P) ! w = AtLoopHead \<or> (\<exists>t. workers (pool P) ! w = RunningTask t)) \<or>
    0 < to_notify P \<or> to_notify_all P"
proof -
  have "(\<exists>w \<in> set (workers (pool P)). awake w) \<or> 0 < to_notify P \<or> to_notify_all P"
    using pool_reach_inv [OF assms(2,1)] assms(3) by (simp add: pool_inv_def)
  moreover have "w = AtLoopHead \<or> (\<exists>t. w = RunningTask t)" if "awake w" for w :: "'t worker"
    using that by (cases w) (simp_all add: awake_def)
  ultimately show ?thesis by (metis in_set_conv_nth)
qed

theorem queued_task_is_served_witness:
  "(\<exists>w < length (workers (pool ex_pool)). workers (pool ex_pool) ! w = AtLoopHead \<or>
      (\<exists>t. workers (pool ex_pool) ! w = RunningTask t)) \<or> 0 < to_notify ex_pool \<or> to_notify_all ex_pool"
  using queued_task_is_served [OF ex_pool_reach] by (simp add: ex_pool_def)

lemma shutdown_reaches_join:
  assumes "pool_inv n P" and "stopping (pool P)" and "\<not> to_notify_all P"
  shows "\<exists>P'. pool_step\<^sup>*\<^sup>* P P' \<and> joined (pool P') \<and> submitted P' = submitted P \<and> pool_inv n P'"
  using assms
proof (induction "shutdown_measure (pool P)" arbitrary: P rule: less_induct)
  case less
  show ?case
  proof (cases "joined (pool P)")
    case True
    then show ?thesis using less.prems(1) by blast
  next
    case False
    obtain P1 where P1: "pool_step P P1" "stopping (pool P1)" "\<not> to_notify_all P1" "submitted P1 = submitted P"
        "shutdown_measure (pool P1) < shutdown_measure (pool P)"
      using shutdown_step [OF less.prems False] by blast
    then obtain P' where "pool_step\<^sup>*\<^sup>* P1 P'" "joined (pool P')" "submitted P' = submitted P1" "pool_inv n P'"
      using less.hyps [OF P1(5) pool_step_inv [OF less.prems(1) P1(1)] P1(2,3)] by blast
    then show ?thesis using P1(1,4) by (metis converse_rtranclp_into_rtranclp)
  qed
qed

text \<open>C19: the destructor comes back, and not too early: once it has notified the workers, the pool can
  always go on until all workers have left, every step of a worker brings it nearer to that, and when
  they have left every submitted task has been finished.\<close>

theorem destructor_finishes_all_tasks:
  assumes "new_AsyncExecutor n = Inr e" and "pool_reach e P" and "stopping (pool P)" and "\<not> to_notify_all P"
  shows "\<exists>P'. pool_step\<^sup>*\<^sup>* P P' \<and> joined (pool P') \<and> submitted P' = submitted P \<and>
    mset (finished P') = mset (submitted P) \<and> started P' = submitted P"
proof -
  obtain P' where "pool_step\<^sup>*\<^sup>* P P'" "joined (pool P')" "submitted P' = submitted P" "pool_inv (unat n) P'"
    using shutdown_reaches_join [OF pool_reach_inv [OF assms(2,1)] assms(3,4)] by blast
  then show ?thesis using joined_all_done by metis
qed

theorem destructor_finishes_all_tasks_witness:
  "\<exists>P'. pool_step\<^sup>*\<^sup>* ex_pool P' \<and> joined (pool P') \<and> started P' = [5]"
  using destructor_finishes_all_tasks [OF ex_pool_reach] by (auto simp: ex_pool_def)

end
