(* ===== verification/Buffer_Manager.thy ===== *)
theory Buffer_Manager
  imports Frame_Allocator Page_Table Clock_Replacer Disk_Manager Async_Executor
begin

text \<open>
  The buffer manager (\<^verbatim>\<open>include/buffer_manager/buffer_manager.h\<close> and
  \<^verbatim>\<open>src/buffer_manager.cc\<close>): its state and the critical sections its operations consist of.

  Every operation takes \<^verbatim>\<open>mutex_\<close> and gives it up at two kinds of places: where it waits
  on \<^verbatim>\<open>state_changed_\<close> and around a page read or write. What runs between two such places
  is atomic and is one function here, from the state to the next place, a result or an
  exception. A \<open>pc\<close> is a place where a thread does not hold the mutex, with the local
  variables that are live there.
\<close>

subsection \<open>State\<close>

record BufferManagerOptions =
  disk_options :: DiskManagerOptions
  frame_count :: size_t
  async_worker_count :: size_t

datatype FrameState = kFree | kFrameLoading | kFrameResident | kFrameEvicting

record FrameMeta =
  fm_page_id :: "PageId option"
  pin_count :: "32 word"
  dirty :: bool
  dirty_epoch :: "64 word"
  fm_state :: FrameState

definition empty_meta :: FrameMeta where
  "empty_meta = \<lparr>fm_page_id = None, pin_count = 0, dirty = False, dirty_epoch = 0, fm_state = kFree\<rparr>"

text \<open>
  \<open>state_changed\<close> is the condition variable: the threads blocked on it. The mutex is not a
  field: a critical section is atomic.
\<close>

record 'r BufferManager =
  options :: BufferManagerOptions
  frame_allocator :: FrameAllocator
  page_table :: PageTable
  replacer :: 'r
  frame_meta :: "FrameMeta list"
  state_changed :: "nat set"

text \<open>\<^verbatim>\<open>PageGuard\<close>: which page it pins in which frame.\<close>

record PageGuard =
  guard_page_id :: PageId
  guard_frame_id :: FrameId

subsection \<open>Construction\<close>

definition BufferManager_ValidateOptions :: "BufferManagerOptions \<Rightarrow> exn + unit" where
  "BufferManager_ValidateOptions opts =
     (if frame_count opts = 0 then Inl (invalid_argument ''frame_count must be greater than zero'')
      else if disk_max_page_count (disk_options opts) = 0 then
        Inl (invalid_argument ''max_page_count must be greater than zero'')
      else if async_worker_count opts = 0 then
        Inl (invalid_argument ''async_worker_count must be greater than zero'')
      else Inr ())"

text \<open>
  The constructor: the members in the order of their declaration, then the body. The disk manager,
  the replacer given by the caller (\<^verbatim>\<open>nullptr\<close> is \<open>None\<close>) and the result of constructing
  a default replacer are arguments; the pool of workers is returned beside the buffer manager.
\<close>

definition new_BufferManager ::
  "BufferManagerOptions \<Rightarrow> exn + 'd \<Rightarrow> 'r option \<Rightarrow> (size_t \<Rightarrow> exn + 'r) \<Rightarrow>
   exn + 'd \<times> 'r BufferManager \<times> 't AsyncExecutor" where
  "new_BufferManager opts disk_manager given new_replacer =
     bindE disk_manager (\<lambda>dm.
     bindE (new_FrameAllocator (frame_count opts)) (\<lambda>fa.
     bindE (new_PageTable (disk_max_page_count (disk_options opts))) (\<lambda>pt.
     bindE (new_AsyncExecutor (async_worker_count opts)) (\<lambda>ex.
     bindE (BufferManager_ValidateOptions opts) (\<lambda>_.
     bindE (case given of Some r \<Rightarrow> Inr r | None \<Rightarrow> new_replacer (frame_count opts)) (\<lambda>r.
     Inr (dm, \<lparr>options = opts, frame_allocator = fa, page_table = pt, replacer = r,
       frame_meta = replicate (unat (frame_count opts)) empty_meta, state_changed = {}\<rparr>, ex)))))))"

definition BufferManager_frame_count :: "'r BufferManager \<Rightarrow> size_t" where
  "BufferManager_frame_count s = frame_count (options s)"

definition BufferManager_max_page_count :: "'r BufferManager \<Rightarrow> PageId" where
  "BufferManager_max_page_count s = disk_max_page_count (disk_options (options s))"

subsection \<open>Program points\<close>

datatype requester = ForNewPage PageId | ForFetchPage PageId

datatype pc =
    Idle
  | NewPage_enter
  | NewPage_retry PageId
  | FetchPage_enter PageId
  | FetchPage_retry PageId
  | Evict_write requester FrameId PageId bool "64 word"
  | Evict_done requester FrameId PageId
  | Evict_failed requester FrameId PageId bool "64 word" exn
  | Load_read PageId FrameId
  | Load_done PageId FrameId
  | Load_failed PageId FrameId exn
  | FlushPage_enter PageId "PageId list"
  | Flush_write PageId FrameId "64 word" "PageId list"
  | Flush_done PageId FrameId "64 word" "PageId list"
  | Flush_failed PageId FrameId exn
  | FlushAll_enter
  | DeletePage_enter PageId
  | Drop_enter PageId FrameId
  | MarkDirty_enter PageId FrameId

text \<open>
  What a critical section ends with: the operation returns, with a guard or without; the
  thread waits on \<^verbatim>\<open>state_changed_\<close>; or it gives the mutex up and goes on at a program
  point.
\<close>

datatype ending = Return "PageGuard option" | Wait pc | Unlock pc

subsection \<open>Access to the parts\<close>

definition on_allocator :: "(FrameAllocator, 'a) act \<Rightarrow> ('r BufferManager, 'a) act" where
  "on_allocator = zoomA frame_allocator (\<lambda>a s. s\<lparr>frame_allocator := a\<rparr>)"

definition on_page_table :: "(PageTable, 'a) act \<Rightarrow> ('r BufferManager, 'a) act" where
  "on_page_table = zoomA page_table (\<lambda>t s. s\<lparr>page_table := t\<rparr>)"

definition on_replacer :: "('r, 'a) act \<Rightarrow> ('r BufferManager, 'a) act" where
  "on_replacer = zoomA replacer (\<lambda>r s. s\<lparr>replacer := r\<rparr>)"

definition get_meta :: "FrameId \<Rightarrow> 'r BufferManager \<Rightarrow> FrameMeta" where
  "get_meta frame_id s = frame_meta s ! unat frame_id"

definition put_meta :: "FrameId \<Rightarrow> FrameMeta \<Rightarrow> 'r BufferManager \<Rightarrow> 'r BufferManager" where
  "put_meta frame_id m s = s\<lparr>frame_meta := (frame_meta s)[unat frame_id := m]\<rparr>"

definition page_state :: "PageId \<Rightarrow> ('r BufferManager, PageState) act" where
  "page_state page_id = readA (\<lambda>s. State (page_table s) page_id)"

text \<open>The dereferenced \<^verbatim>\<open>*page_table_.FrameForPage(page_id)\<close> of a resident page.\<close>

definition frame_for_page :: "PageId \<Rightarrow> ('r BufferManager, FrameId) act" where
  "frame_for_page page_id =
     bindA (readA (\<lambda>s. FrameForPage (page_table s) page_id)) (\<lambda>f. returnA (the f))"

text \<open>Taking the reference \<^verbatim>\<open>frame_allocator_.page(frame_id)\<close>: it may throw.\<close>

definition page_ref :: "FrameId \<Rightarrow> ('r BufferManager, unit) act" where
  "page_ref frame_id = bindA (readA (\<lambda>s. page_at (frame_allocator s) frame_id)) (\<lambda>_. returnA ())"

definition notify_all :: "('r BufferManager, unit) act" where
  "notify_all = modifyA (\<lambda>s. s\<lparr>state_changed := {}\<rparr>)"

subsection \<open>Private members\<close>

definition HasTransientFrameLocked :: "'r BufferManager \<Rightarrow> bool" where
  "HasTransientFrameLocked s =
     list_ex (\<lambda>m. fm_state m = kFrameLoading \<or> fm_state m = kFrameEvicting) (frame_meta s)"

definition MakeGuardLocked :: "PageId \<Rightarrow> FrameId \<Rightarrow> ('r BufferManager, ending) act" where
  "MakeGuardLocked page_id frame_id =
     thenA (page_ref frame_id)
     (returnA (Return (Some \<lparr>guard_page_id = page_id, guard_frame_id = frame_id\<rparr>)))"

definition PinResidentFrameLocked :: "'r Replacer \<Rightarrow> PageId \<Rightarrow> FrameId \<Rightarrow> ('r BufferManager, unit) act" where
  "PinResidentFrameLocked R page_id frame_id =
     bindA (getA (get_meta frame_id)) (\<lambda>meta.
     if fm_page_id meta \<noteq> Some page_id \<or> fm_state meta \<noteq> kFrameResident then
       throwA (logic_error ''inconsistent resident page metadata'')
     else if pin_count meta = - 1 then throwA (overflow_error ''pin count overflow'')
     else
       thenA (modifyA (put_meta frame_id (meta\<lparr>pin_count := pin_count meta + 1\<rparr>)))
       (thenA (on_replacer (RecordAccess R frame_id))
       (on_replacer (SetEvictable R frame_id False))))"

definition UnpinFrameLocked :: "'r Replacer \<Rightarrow> FrameId \<Rightarrow> ('r BufferManager, unit) act" where
  "UnpinFrameLocked R frame_id =
     bindA (getA (get_meta frame_id)) (\<lambda>meta.
     if fm_state meta \<noteq> kFrameResident then throwA (logic_error ''cannot unpin a nonresident frame'')
     else if pin_count meta = 0 then throwA (logic_error ''pin count underflow'')
     else
       thenA (modifyA (put_meta frame_id (meta\<lparr>pin_count := pin_count meta - 1\<rparr>)))
       (if pin_count meta - 1 = 0 then on_replacer (SetEvictable R frame_id True)
        else returnA ()))"

definition RestoreEvictedFrameLocked ::
  "'r Replacer \<Rightarrow> FrameId \<Rightarrow> PageId \<Rightarrow> bool \<Rightarrow> 64 word \<Rightarrow> ('r BufferManager, unit) act" where
  "RestoreEvictedFrameLocked R frame_id page_id was_dirty epoch =
     bindA (page_state page_id) (\<lambda>state.
     thenA
       (if state = kEvicting then
          thenA (on_page_table (SetNonResident page_id)) (on_page_table (SetResident page_id frame_id))
        else returnA ())
     (thenA (modifyA (put_meta frame_id \<lparr>fm_page_id = Some page_id, pin_count = 0, dirty = was_dirty,
        dirty_epoch = epoch, fm_state = kFrameResident\<rparr>))
     (thenA (on_replacer (RecordAccess R frame_id))
     (on_replacer (SetEvictable R frame_id True)))))"

subsection \<open>Acquiring a frame\<close>

text \<open>
  Both acquire functions loop; the body of a loop ends with a frame, with a wait, or by
  giving the mutex up to write the victim back, after which the function always returns.
\<close>

datatype acquired = Acquired FrameId | MustWait | MustEvict FrameId PageId bool "64 word"

definition SelectVictimLocked :: "'r Replacer \<Rightarrow> ('r BufferManager, acquired) act" where
  "SelectVictimLocked R =
     bindA (on_replacer (Victim R)) (\<lambda>victim.
     case victim of
       None \<Rightarrow>
         bindA (getA HasTransientFrameLocked) (\<lambda>transient.
         if transient then returnA MustWait
         else throwA (runtime_error ''no frame available''))
     | Some frame_id \<Rightarrow>
         bindA (getA (get_meta frame_id)) (\<lambda>meta.
         case fm_page_id meta of
           None \<Rightarrow> throwA (logic_error ''victim frame has no page'')
         | Some old_page_id \<Rightarrow>
             if pin_count meta \<noteq> 0 then throwA (logic_error ''replacer selected a pinned frame'')
             else if fm_state meta \<noteq> kFrameResident then
               throwA (logic_error ''victim frame is not resident'')
             else
               thenA (on_page_table (SetEvicting old_page_id))
               (thenA (modifyA (put_meta frame_id (meta\<lparr>fm_state := kFrameEvicting\<rparr>)))
               (thenA (page_ref frame_id)
               (returnA (MustEvict frame_id old_page_id (dirty meta) (dirty_epoch meta)))))))"

definition allocate_frame :: "('r BufferManager, FrameId option) act" where
  "allocate_frame = on_allocator (\<lambda>fa. case AllocateFrame fa of (r, fa') \<Rightarrow> (Inr r, fa'))"

definition AcquireFrameLocked :: "'r Replacer \<Rightarrow> ('r BufferManager, acquired) act" where
  "AcquireFrameLocked R =
     bindA allocate_frame (\<lambda>free_frame.
     case free_frame of
       Some frame_id \<Rightarrow> returnA (Acquired frame_id)
     | None \<Rightarrow> SelectVictimLocked R)"

text \<open>After the write-back, with the mutex held again.\<close>

definition finish_eviction :: "FrameId \<Rightarrow> PageId \<Rightarrow> ('r BufferManager, unit) act" where
  "finish_eviction frame_id old_page_id =
     thenA (on_page_table (SetNonResident old_page_id))
     (thenA (modifyA (put_meta frame_id empty_meta))
     notify_all)"

definition fail_eviction ::
  "'r Replacer \<Rightarrow> FrameId \<Rightarrow> PageId \<Rightarrow> bool \<Rightarrow> 64 word \<Rightarrow> exn \<Rightarrow> ('r BufferManager, 'a) act" where
  "fail_eviction R frame_id old_page_id was_dirty epoch e =
     thenA (RestoreEvictedFrameLocked R frame_id old_page_id was_dirty epoch)
     (thenA notify_all (throwA e))"

definition AcquireFrameLocked_evicted :: "FrameId \<Rightarrow> PageId \<Rightarrow> ('r BufferManager, FrameId) act" where
  "AcquireFrameLocked_evicted frame_id old_page_id =
     thenA (finish_eviction frame_id old_page_id) (returnA frame_id)"

text \<open>\<open>None\<close> is the \<^verbatim>\<open>std::nullopt\<close> that sends the caller back to the page's state.\<close>

definition AcquireFrameForFetchLocked ::
  "'r Replacer \<Rightarrow> PageId \<Rightarrow> ('r BufferManager, acquired option) act" where
  "AcquireFrameForFetchLocked R page_id =
     bindA (page_state page_id) (\<lambda>state.
     if state \<noteq> kNonResident then returnA None
     else
       bindA allocate_frame (\<lambda>free_frame.
       case free_frame of
         Some frame_id \<Rightarrow> returnA (Some (Acquired frame_id))
       | None \<Rightarrow> bindA (SelectVictimLocked R) (\<lambda>a. returnA (Some a))))"

definition AcquireFrameForFetchLocked_evicted ::
  "PageId \<Rightarrow> FrameId \<Rightarrow> PageId \<Rightarrow> ('r BufferManager, FrameId option) act" where
  "AcquireFrameForFetchLocked_evicted page_id frame_id old_page_id =
     thenA (finish_eviction frame_id old_page_id)
     (bindA (page_state page_id) (\<lambda>state.
     if state = kNonResident then returnA (Some frame_id)
     else
       thenA (on_allocator (FreeFrame frame_id))
       (thenA notify_all (returnA None))))"

subsection \<open>New pages\<close>

text \<open>The body of \<^verbatim>\<open>NewPage\<close> once a frame is there.\<close>

definition NewPage_install :: "'r Replacer \<Rightarrow> PageId \<Rightarrow> FrameId \<Rightarrow> ('r BufferManager, ending) act" where
  "NewPage_install R page_id frame_id =
     thenA (on_allocator (update_page frame_id (fill 0)))
     (thenA (modifyA (put_meta frame_id \<lparr>fm_page_id = Some page_id, pin_count = 1, dirty = True,
        dirty_epoch = 1, fm_state = kFrameResident\<rparr>))
     (thenA (on_page_table (SetResident page_id frame_id))
     (thenA (on_replacer (RecordAccess R frame_id))
     (thenA (on_replacer (SetEvictable R frame_id False))
     (thenA notify_all
     (MakeGuardLocked page_id frame_id))))))"

definition NewPage_acquired :: "'r Replacer \<Rightarrow> PageId \<Rightarrow> acquired \<Rightarrow> ('r BufferManager, ending) act" where
  "NewPage_acquired R page_id a =
     (case a of
        Acquired frame_id \<Rightarrow> NewPage_install R page_id frame_id
      | MustWait \<Rightarrow> returnA (Wait (NewPage_retry page_id))
      | MustEvict frame_id old_page_id was_dirty epoch \<Rightarrow>
          returnA (Unlock (Evict_write (ForNewPage page_id) frame_id old_page_id was_dirty epoch)))"

text \<open>The \<^verbatim>\<open>catch (...)\<close> block of \<^verbatim>\<open>NewPage\<close>.\<close>

definition NewPage_catch :: "PageId \<Rightarrow> exn \<Rightarrow> ('r BufferManager, 'a) act" where
  "NewPage_catch page_id e =
     bindA (page_state page_id) (\<lambda>state.
     thenA (if state = kNonResident then on_page_table (FreePageId page_id) else returnA ())
     (thenA notify_all
     (throwA e)))"

definition NewPage_locked :: "'r Replacer \<Rightarrow> PageId \<Rightarrow> ('r BufferManager, ending) act" where
  "NewPage_locked R page_id =
     catchA (bindA (AcquireFrameLocked R) (NewPage_acquired R page_id)) (NewPage_catch page_id)"

definition NewPage :: "'r Replacer \<Rightarrow> ('r BufferManager, ending) act" where
  "NewPage R = bindA (on_page_table AllocatePageId) (NewPage_locked R)"

definition NewPage_evicted :: "'r Replacer \<Rightarrow> PageId \<Rightarrow> FrameId \<Rightarrow> PageId \<Rightarrow> ('r BufferManager, ending) act" where
  "NewPage_evicted R page_id frame_id old_page_id =
     catchA (bindA (AcquireFrameLocked_evicted frame_id old_page_id) (NewPage_install R page_id))
       (NewPage_catch page_id)"

definition NewPage_evict_failed ::
  "'r Replacer \<Rightarrow> PageId \<Rightarrow> FrameId \<Rightarrow> PageId \<Rightarrow> bool \<Rightarrow> 64 word \<Rightarrow> exn \<Rightarrow> ('r BufferManager, ending) act" where
  "NewPage_evict_failed R page_id frame_id old_page_id was_dirty epoch e =
     catchA (fail_eviction R frame_id old_page_id was_dirty epoch e) (NewPage_catch page_id)"

subsection \<open>Fetching pages\<close>

definition FetchPage_begin_load :: "PageId \<Rightarrow> FrameId \<Rightarrow> ('r BufferManager, ending) act" where
  "FetchPage_begin_load page_id frame_id =
     thenA (on_page_table (SetLoading page_id frame_id))
     (thenA (modifyA (put_meta frame_id \<lparr>fm_page_id = Some page_id, pin_count = 1, dirty = False,
        dirty_epoch = 0, fm_state = kFrameLoading\<rparr>))
     (thenA (page_ref frame_id)
     (returnA (Unlock (Load_read page_id frame_id)))))"

definition FetchPage_resident :: "'r Replacer \<Rightarrow> PageId \<Rightarrow> ('r BufferManager, ending) act" where
  "FetchPage_resident R page_id =
     bindA (frame_for_page page_id) (\<lambda>frame_id.
     thenA (PinResidentFrameLocked R page_id frame_id)
     (MakeGuardLocked page_id frame_id))"

definition FetchPage_acquired :: "PageId \<Rightarrow> acquired \<Rightarrow> ('r BufferManager, ending) act" where
  "FetchPage_acquired page_id a =
     (case a of
        Acquired frame_id \<Rightarrow> FetchPage_begin_load page_id frame_id
      | MustWait \<Rightarrow> returnA (Wait (FetchPage_retry page_id))
      | MustEvict frame_id old_page_id was_dirty epoch \<Rightarrow>
          returnA (Unlock (Evict_write (ForFetchPage page_id) frame_id old_page_id was_dirty epoch)))"

text \<open>
  The loop of \<^verbatim>\<open>FetchPage\<close>. It comes round without giving the mutex up only when the
  acquire function returns \<^verbatim>\<open>std::nullopt\<close>, which it does in a state in which the page is
  not nonresident: hence it stops.
\<close>

lemma AcquireFrameForFetchLocked_None:
  assumes "AcquireFrameForFetchLocked R p s = (Inr None, s')"
  shows "s' = s \<and> State (page_table s) p \<noteq> Inr kNonResident"
  using assms
  by (auto simp: AcquireFrameForFetchLocked_def bindA_def page_state_def
      split: sum.splits prod.splits if_splits option.splits)

function FetchPage :: "'r Replacer \<Rightarrow> PageId \<Rightarrow> ('r BufferManager, ending) act" where
  "FetchPage R page_id s =
     (case State (page_table s) page_id of
        Inl e \<Rightarrow> (Inl e, s)
      | Inr state \<Rightarrow>
          (case state of
             kUnused \<Rightarrow> (Inl (logic_error ''cannot fetch an unused page''), s)
           | kResident \<Rightarrow> FetchPage_resident R page_id s
           | kLoading \<Rightarrow> (Inr (Wait (FetchPage_enter page_id)), s)
           | kEvicting \<Rightarrow> (Inr (Wait (FetchPage_enter page_id)), s)
           | kNonResident \<Rightarrow>
               (case AcquireFrameForFetchLocked R page_id s of
                  (Inl e, s') \<Rightarrow> (Inl e, s')
                | (Inr None, s') \<Rightarrow> FetchPage R page_id s'
                | (Inr (Some a), s') \<Rightarrow> FetchPage_acquired page_id a s')))"
  by pat_completeness auto
termination
  by (relation "measure (\<lambda>(R, p, s). if State (page_table s) p = Inr kNonResident then 1 else 0)")
    (auto dest: AcquireFrameForFetchLocked_None [OF sym])

declare FetchPage.simps [simp del]

text \<open>Coming back inside \<^verbatim>\<open>AcquireFrameForFetchLocked\<close>, after a wait or a write-back.\<close>

definition FetchPage_retried :: "'r Replacer \<Rightarrow> PageId \<Rightarrow> ('r BufferManager, ending) act" where
  "FetchPage_retried R page_id =
     bindA (AcquireFrameForFetchLocked R page_id) (\<lambda>maybe.
     case maybe of
       None \<Rightarrow> FetchPage R page_id
     | Some a \<Rightarrow> FetchPage_acquired page_id a)"

definition FetchPage_evicted ::
  "'r Replacer \<Rightarrow> PageId \<Rightarrow> FrameId \<Rightarrow> PageId \<Rightarrow> ('r BufferManager, ending) act" where
  "FetchPage_evicted R page_id frame_id old_page_id =
     bindA (AcquireFrameForFetchLocked_evicted page_id frame_id old_page_id) (\<lambda>maybe.
     case maybe of
       None \<Rightarrow> FetchPage R page_id
     | Some f \<Rightarrow> FetchPage_begin_load page_id f)"

definition FetchPage_loaded :: "'r Replacer \<Rightarrow> PageId \<Rightarrow> FrameId \<Rightarrow> ('r BufferManager, ending) act" where
  "FetchPage_loaded R page_id frame_id =
     thenA (modifyA (\<lambda>s. put_meta frame_id ((get_meta frame_id s)\<lparr>fm_state := kFrameResident,
        dirty := False, dirty_epoch := 0\<rparr>) s))
     (thenA (on_page_table (SetResident page_id frame_id))
     (thenA (on_replacer (RecordAccess R frame_id))
     (thenA (on_replacer (SetEvictable R frame_id False))
     (thenA notify_all
     (MakeGuardLocked page_id frame_id)))))"

definition FetchPage_load_failed :: "PageId \<Rightarrow> FrameId \<Rightarrow> exn \<Rightarrow> ('r BufferManager, ending) act" where
  "FetchPage_load_failed page_id frame_id e =
     thenA (modifyA (put_meta frame_id empty_meta))
     (thenA (on_allocator (FreeFrame frame_id))
     (thenA (on_page_table (SetNonResident page_id))
     (thenA notify_all
     (throwA e))))"

subsection \<open>Flushing pages\<close>

text \<open>
  \<^verbatim>\<open>FlushAllPages\<close> flushes a list of pages one after the other: the pages still to come
  travel along as \<open>rest\<close>, empty for a single \<^verbatim>\<open>FlushPage\<close>.
\<close>

definition flush_next :: "PageId list \<Rightarrow> ending" where
  "flush_next rest = (case rest of [] \<Rightarrow> Return None | p # ps \<Rightarrow> Unlock (FlushPage_enter p ps))"

definition FlushPage_resident ::
  "'r Replacer \<Rightarrow> PageId \<Rightarrow> PageId list \<Rightarrow> ('r BufferManager, ending) act" where
  "FlushPage_resident R page_id rest =
     bindA (frame_for_page page_id) (\<lambda>frame_id.
     bindA (getA (get_meta frame_id)) (\<lambda>meta.
     if \<not> dirty meta then returnA (flush_next rest)
     else if fm_page_id meta \<noteq> Some page_id \<or> fm_state meta \<noteq> kFrameResident then
       throwA (logic_error ''inconsistent resident page metadata'')
     else
       thenA (modifyA (put_meta frame_id (meta\<lparr>pin_count := pin_count meta + 1\<rparr>)))
       (thenA (on_replacer (SetEvictable R frame_id False))
       (thenA (page_ref frame_id)
       (returnA (Unlock (Flush_write page_id frame_id (dirty_epoch meta) rest)))))))"

definition FlushPage :: "'r Replacer \<Rightarrow> PageId \<Rightarrow> PageId list \<Rightarrow> ('r BufferManager, ending) act" where
  "FlushPage R page_id rest =
     bindA (page_state page_id) (\<lambda>state.
     case state of
       kUnused \<Rightarrow> throwA (logic_error ''cannot flush an unused page'')
     | kNonResident \<Rightarrow> returnA (flush_next rest)
     | kLoading \<Rightarrow> returnA (Wait (FlushPage_enter page_id rest))
     | kEvicting \<Rightarrow> returnA (Wait (FlushPage_enter page_id rest))
     | kResident \<Rightarrow> FlushPage_resident R page_id rest)"

definition FlushPage_written ::
  "'r Replacer \<Rightarrow> PageId \<Rightarrow> FrameId \<Rightarrow> 64 word \<Rightarrow> PageId list \<Rightarrow> ('r BufferManager, ending) act" where
  "FlushPage_written R page_id frame_id captured_dirty_epoch rest =
     bindA (getA (get_meta frame_id)) (\<lambda>current_meta.
     thenA (modifyA (\<lambda>s.
       if fm_page_id current_meta = Some page_id \<and> fm_state current_meta = kFrameResident \<and>
          dirty_epoch current_meta = captured_dirty_epoch
       then put_meta frame_id (current_meta\<lparr>dirty := False\<rparr>) s else s))
     (thenA (UnpinFrameLocked R frame_id)
     (thenA notify_all
     (returnA (flush_next rest)))))"

definition FlushPage_write_failed ::
  "'r Replacer \<Rightarrow> FrameId \<Rightarrow> exn \<Rightarrow> ('r BufferManager, ending) act" where
  "FlushPage_write_failed R frame_id e =
     thenA (UnpinFrameLocked R frame_id) (thenA notify_all (throwA e))"

definition dirty_pages :: "'r BufferManager \<Rightarrow> PageId list" where
  "dirty_pages s =
     concat (map (\<lambda>meta. if fm_state meta = kFrameResident \<and> dirty meta then
        (case fm_page_id meta of Some p \<Rightarrow> [p] | None \<Rightarrow> []) else []) (frame_meta s))"

definition FlushAllPages :: "('r BufferManager, ending) act" where
  "FlushAllPages = bindA (getA dirty_pages) (\<lambda>ps. returnA (flush_next ps))"

subsection \<open>Deleting pages\<close>

definition DeletePage_resident :: "'r Replacer \<Rightarrow> PageId \<Rightarrow> ('r BufferManager, ending) act" where
  "DeletePage_resident R page_id =
     bindA (frame_for_page page_id) (\<lambda>frame_id.
     bindA (getA (get_meta frame_id)) (\<lambda>meta.
     if fm_page_id meta \<noteq> Some page_id \<or> fm_state meta \<noteq> kFrameResident then
       throwA (logic_error ''inconsistent resident page metadata'')
     else if pin_count meta \<noteq> 0 then throwA (logic_error ''cannot delete a pinned page'')
     else
       thenA (on_replacer (Remove R frame_id))
       (thenA (modifyA (put_meta frame_id empty_meta))
       (thenA (on_allocator (FreeFrame frame_id))
       (thenA (on_page_table (SetNonResident page_id))
       (thenA (on_page_table (FreePageId page_id))
       (thenA notify_all
       (returnA (Return None)))))))))"

definition DeletePage :: "'r Replacer \<Rightarrow> PageId \<Rightarrow> ('r BufferManager, ending) act" where
  "DeletePage R page_id =
     bindA (page_state page_id) (\<lambda>state.
     case state of
       kUnused \<Rightarrow> returnA (Return None)
     | kLoading \<Rightarrow> returnA (Wait (DeletePage_enter page_id))
     | kEvicting \<Rightarrow> returnA (Wait (DeletePage_enter page_id))
     | kResident \<Rightarrow> DeletePage_resident R page_id
     | kNonResident \<Rightarrow>
         thenA (on_page_table (FreePageId page_id))
         (thenA notify_all
         (returnA (Return None))))"

subsection \<open>Guards\<close>

definition DropPageGuard :: "'r Replacer \<Rightarrow> PageId \<Rightarrow> FrameId \<Rightarrow> ('r BufferManager, ending) act" where
  "DropPageGuard R page_id frame_id =
     bindA (getA (get_meta frame_id)) (\<lambda>meta.
     if fm_page_id meta \<noteq> Some page_id then
       throwA (logic_error ''page guard refers to the wrong page'')
     else
       thenA (UnpinFrameLocked R frame_id)
       (thenA notify_all
       (returnA (Return None))))"

definition MarkDirty :: "PageId \<Rightarrow> FrameId \<Rightarrow> ('r BufferManager, ending) act" where
  "MarkDirty page_id frame_id =
     bindA (getA (get_meta frame_id)) (\<lambda>meta.
     if fm_page_id meta \<noteq> Some page_id \<or> fm_state meta \<noteq> kFrameResident then
       throwA (logic_error ''cannot mark a nonresident page dirty'')
     else
       thenA (modifyA (put_meta frame_id (meta\<lparr>dirty := True, dirty_epoch := dirty_epoch meta + 1\<rparr>)))
       (returnA (Return None)))"

subsection \<open>The critical section at a program point\<close>

text \<open>
  The program points at which a thread is idle or inside a page read or write have none: the
  input or output moves it on.
\<close>

fun critical_section :: "'r Replacer \<Rightarrow> pc \<Rightarrow> ('r BufferManager, ending) act option" where
  "critical_section R Idle = None"
| "critical_section R NewPage_enter = Some (NewPage R)"
| "critical_section R (NewPage_retry p) = Some (NewPage_locked R p)"
| "critical_section R (FetchPage_enter p) = Some (FetchPage R p)"
| "critical_section R (FetchPage_retry p) = Some (FetchPage_retried R p)"
| "critical_section R (Evict_write for f old d e) = None"
| "critical_section R (Evict_done (ForNewPage p) f old) = Some (NewPage_evicted R p f old)"
| "critical_section R (Evict_done (ForFetchPage p) f old) = Some (FetchPage_evicted R p f old)"
| "critical_section R (Evict_failed (ForNewPage p) f old d e x) = Some (NewPage_evict_failed R p f old d e x)"
| "critical_section R (Evict_failed (ForFetchPage p) f old d e x) = Some (fail_eviction R f old d e x)"
| "critical_section R (Load_read p f) = None"
| "critical_section R (Load_done p f) = Some (FetchPage_loaded R p f)"
| "critical_section R (Load_failed p f x) = Some (FetchPage_load_failed p f x)"
| "critical_section R (FlushPage_enter p rest) = Some (FlushPage R p rest)"
| "critical_section R (Flush_write p f e rest) = None"
| "critical_section R (Flush_done p f e rest) = Some (FlushPage_written R p f e rest)"
| "critical_section R (Flush_failed p f x) = Some (FlushPage_write_failed R f x)"
| "critical_section R FlushAll_enter = Some FlushAllPages"
| "critical_section R (DeletePage_enter p) = Some (DeletePage R p)"
| "critical_section R (Drop_enter p f) = Some (DropPageGuard R p f)"
| "critical_section R (MarkDirty_enter p f) = Some (MarkDirty p f)"

end
