(* ===== verification/Buffer_Invariant.thy ===== *)
theory Buffer_Invariant
  imports Buffer_Manager
begin

text \<open>
  The invariant of the buffer manager at the places where the mutex is free, and what each
  part of a critical section does to it.
\<close>

subsection \<open>Views\<close>

text \<open>
  The metadata of a frame, the entry of a page and the contents of a frame, as functions on
  all identifiers.
\<close>

definition meta_of :: "'r BufferManager \<Rightarrow> FrameId \<Rightarrow> FrameMeta" where
  "meta_of s f = (if unat f < length (frame_meta s) then frame_meta s ! unat f else empty_meta)"

abbreviation entry_of :: "'r BufferManager \<Rightarrow> PageId \<Rightarrow> PageEntry" where
  "entry_of s \<equiv> page_entry (page_table s)"

definition content_of :: "'r BufferManager \<Rightarrow> FrameId \<Rightarrow> Page" where
  "content_of s f = frames (frame_allocator s) ! unat f"

abbreviation loading :: "FrameId \<Rightarrow> PageEntry" where
  "loading f \<equiv> \<lparr>pe_state = kLoading, pe_frame_id = Some f\<rparr>"

abbreviation resident :: "FrameId \<Rightarrow> PageEntry" where
  "resident f \<equiv> \<lparr>pe_state = kResident, pe_frame_id = Some f\<rparr>"

abbreviation evicting :: "FrameId \<Rightarrow> PageEntry" where
  "evicting f \<equiv> \<lparr>pe_state = kEvicting, pe_frame_id = Some f\<rparr>"

abbreviation on_disk :: PageEntry where
  "on_disk \<equiv> \<lparr>pe_state = kNonResident, pe_frame_id = None\<rparr>"

subsection \<open>Coherence of frames and pages\<close>

definition frame_coherent :: "(PageId \<Rightarrow> PageEntry) \<Rightarrow> FrameId \<Rightarrow> FrameMeta \<Rightarrow> bool" where
  "frame_coherent E f m =
     (case fm_state m of
        kFree \<Rightarrow> m = empty_meta
      | kFrameLoading \<Rightarrow> (\<exists>p. fm_page_id m = Some p \<and> E p = loading f) \<and> pin_count m = 1 \<and> \<not> dirty m
      | kFrameResident \<Rightarrow> (\<exists>p. fm_page_id m = Some p \<and> E p = resident f)
      | kFrameEvicting \<Rightarrow> (\<exists>p. fm_page_id m = Some p \<and> E p = evicting f) \<and> pin_count m = 0)"

definition coherent :: "(FrameId \<Rightarrow> FrameMeta) \<Rightarrow> (PageId \<Rightarrow> PageEntry) \<Rightarrow> bool" where
  "coherent M E \<longleftrightarrow>
     (\<forall>f. frame_coherent E f (M f)) \<and>
     (\<forall>p f. pe_frame_id (E p) = Some f \<longrightarrow> fm_page_id (M f) = Some p)"

lemma empty_meta_simps [simp]:
  "fm_page_id empty_meta = None" "pin_count empty_meta = 0" "dirty empty_meta = False"
  "dirty_epoch empty_meta = 0" "fm_state empty_meta = kFree"
  by (simp_all add: empty_meta_def)

lemma coherent_update:
  assumes coh: "coherent M E"
    and m: "fm_page_id (M f) = Some p \<or> fm_page_id (M f) = None"
    and e: "pe_frame_id (E p) = Some f \<or> pe_frame_id (E p) = None"
    and new: "frame_coherent (E(p := e')) f m'"
    and fr: "pe_frame_id e' = None \<or> pe_frame_id e' = Some f \<and> fm_page_id m' = Some p"
  shows "coherent (M(f := m')) (E(p := e'))"
  unfolding coherent_def
proof (intro conjI allI impI)
  fix g
  show "frame_coherent (E(p := e')) g ((M(f := m')) g)"
  proof (cases "g = f")
    case False
    have g: "frame_coherent E g (M g)" using coh by (simp add: coherent_def)
    have "E p \<noteq> loading g" "E p \<noteq> resident g" "E p \<noteq> evicting g" using e False by auto
    then show ?thesis
      using g False by (auto simp: frame_coherent_def split: FrameState.splits)
  qed (simp add: new)
next
  fix q g
  assume q: "pe_frame_id ((E(p := e')) q) = Some g"
  show "fm_page_id ((M(f := m')) g) = Some q"
  proof (cases "q = p")
    case True
    then show ?thesis using q fr by auto
  next
    case False
    then have "fm_page_id (M g) = Some q" using q coh by (simp add: coherent_def)
    then show ?thesis using m False by auto
  qed
qed

lemma coherent_frameD:
  assumes "coherent M E"
  shows "fm_state (M f) = kFree \<Longrightarrow> M f = empty_meta"
    and "fm_state (M f) = kFrameLoading \<Longrightarrow> \<exists>p. fm_page_id (M f) = Some p \<and> E p = loading f \<and> pin_count (M f) = 1"
    and "fm_state (M f) = kFrameResident \<Longrightarrow> \<exists>p. fm_page_id (M f) = Some p \<and> E p = resident f"
    and "fm_state (M f) = kFrameEvicting \<Longrightarrow> \<exists>p. fm_page_id (M f) = Some p \<and> E p = evicting f \<and> pin_count (M f) = 0"
proof -
  have "frame_coherent E f (M f)" using assms by (simp add: coherent_def)
  then show "fm_state (M f) = kFree \<Longrightarrow> M f = empty_meta"
    "fm_state (M f) = kFrameLoading \<Longrightarrow> \<exists>p. fm_page_id (M f) = Some p \<and> E p = loading f \<and> pin_count (M f) = 1"
    "fm_state (M f) = kFrameResident \<Longrightarrow> \<exists>p. fm_page_id (M f) = Some p \<and> E p = resident f"
    "fm_state (M f) = kFrameEvicting \<Longrightarrow> \<exists>p. fm_page_id (M f) = Some p \<and> E p = evicting f \<and> pin_count (M f) = 0"
    by (auto simp: frame_coherent_def)
qed

lemma coherent_meta:
  assumes coh: "coherent M E" and st: "fm_state (M f) = kFrameResident"
    and m: "fm_state m' = kFrameResident" "fm_page_id m' = fm_page_id (M f)"
  shows "coherent (M(f := m')) E"
proof -
  obtain p where p: "fm_page_id (M f) = Some p" "E p = resident f"
    using coherent_frameD(3) [OF coh st] by blast
  have "coherent (M(f := m')) (E(p := E p))"
    by (rule coherent_update [OF coh]) (use p m in \<open>simp_all add: frame_coherent_def\<close>)
  then show ?thesis by simp
qed

lemma coherent_entry:
  assumes "coherent M E" and "pe_frame_id (E p) = None" and "pe_frame_id e = None"
  shows "coherent M (E(p := e))"
proof -
  have "frame_coherent (E(p := e)) g (M g)" for g
  proof -
    have "E p \<noteq> loading g" "E p \<noteq> resident g" "E p \<noteq> evicting g" using assms(2) by auto
    moreover have "frame_coherent E g (M g)" using assms(1) by (simp add: coherent_def)
    ultimately show ?thesis by (auto simp: frame_coherent_def split: FrameState.splits)
  qed
  then show ?thesis using assms by (auto simp: coherent_def)
qed

lemma coherent_pageD:
  assumes coh: "coherent M E" and fr: "pe_frame_id (E p) = Some f"
  shows "fm_page_id (M f) = Some p"
    and "fm_state (M f) = kFrameLoading \<and> E p = loading f \<or> fm_state (M f) = kFrameResident \<and> E p = resident f \<or>
      fm_state (M f) = kFrameEvicting \<and> E p = evicting f"
proof -
  show p: "fm_page_id (M f) = Some p" using assms by (simp add: coherent_def)
  have "frame_coherent E f (M f)" using coh by (simp add: coherent_def)
  then show "fm_state (M f) = kFrameLoading \<and> E p = loading f \<or> fm_state (M f) = kFrameResident \<and> E p = resident f \<or>
      fm_state (M f) = kFrameEvicting \<and> E p = evicting f"
    using p by (auto simp: frame_coherent_def split: FrameState.splits)
qed

subsection \<open>The invariant\<close>

text \<open>
  \<open>X\<close> holds the frames a thread has just taken and not yet given a page: none where the
  mutex is free.
\<close>

definition bm_inv ::
  "('r \<Rightarrow> bool) \<Rightarrow> ('r \<Rightarrow> nat) \<Rightarrow> ('r \<Rightarrow> FrameId set) \<Rightarrow> ('r \<Rightarrow> FrameId set) \<Rightarrow> FrameId set \<Rightarrow>
   'r BufferManager \<Rightarrow> bool" where
  "bm_inv rinv capacity tracked candidates X s \<longleftrightarrow>
     fa_inv (frame_allocator s) \<and> pt_inv (page_table s) \<and> rinv (replacer s) \<and>
     length (frame_meta s) = unat (fa_frame_count (frame_allocator s)) \<and>
     capacity (replacer s) = length (frame_meta s) \<and>
     coherent (meta_of s) (entry_of s) \<and>
     allocated (frame_allocator s) = {f. fm_state (meta_of s f) \<noteq> kFree} \<union> X \<and>
     (\<forall>f \<in> X. fm_state (meta_of s f) = kFree) \<and>
     tracked (replacer s) = {f. fm_state (meta_of s f) = kFrameResident} \<and>
     candidates (replacer s) = {f. fm_state (meta_of s f) = kFrameResident \<and> pin_count (meta_of s f) = 0}"

lemma meta_of_put [simp]:
  "unat f < length (frame_meta s) \<Longrightarrow> meta_of (put_meta f m s) = (meta_of s)(f := m)"
  by (auto simp: fun_eq_iff meta_of_def put_meta_def nth_list_update_if unat_eq_iff)

lemma put_meta_fields [simp]:
  "frame_allocator (put_meta f m s) = frame_allocator s"
  "page_table (put_meta f m s) = page_table s"
  "replacer (put_meta f m s) = replacer s"
  "options (put_meta f m s) = options s"
  "state_changed (put_meta f m s) = state_changed s"
  "length (frame_meta (put_meta f m s)) = length (frame_meta s)"
  by (simp_all add: put_meta_def)

lemma meta_of_fields [simp]:
  "meta_of (s\<lparr>frame_allocator := a\<rparr>) = meta_of s"
  "meta_of (s\<lparr>page_table := t\<rparr>) = meta_of s"
  "meta_of (s\<lparr>replacer := r\<rparr>) = meta_of s"
  "meta_of (s\<lparr>state_changed := w\<rparr>) = meta_of s"
  by (simp_all add: meta_of_def fun_eq_iff)

lemma meta_of_cong: "frame_meta s' = frame_meta s \<Longrightarrow> meta_of s' = meta_of s"
  by (simp add: meta_of_def fun_eq_iff)

lemma content_of_fields [simp]:
  "content_of (s\<lparr>page_table := t\<rparr>) = content_of s"
  "content_of (s\<lparr>replacer := r\<rparr>) = content_of s"
  "content_of (s\<lparr>state_changed := w\<rparr>) = content_of s"
  "content_of (put_meta f m s) = content_of s"
  by (simp_all add: content_of_def fun_eq_iff)

lemma content_of_allocator:
  "frames a = frames (frame_allocator s) \<Longrightarrow> content_of (s\<lparr>frame_allocator := a\<rparr>) = content_of s"
  by (simp add: content_of_def fun_eq_iff)

lemma get_meta_in_range: "unat f < length (frame_meta s) \<Longrightarrow> get_meta f s = meta_of s f"
  by (simp add: get_meta_def meta_of_def)

lemma meta_of_in_range: "fm_state (meta_of s f) \<noteq> kFree \<Longrightarrow> unat f < length (frame_meta s)"
  by (auto simp: meta_of_def split: if_splits)

subsection \<open>Calls into the parts\<close>

lemma on_allocator_eval: "m (frame_allocator s) = (r, a) \<Longrightarrow> on_allocator m s = (r, s\<lparr>frame_allocator := a\<rparr>)"
  by (simp add: on_allocator_def zoomA_def)

lemma on_page_table_eval: "m (page_table s) = (r, t) \<Longrightarrow> on_page_table m s = (r, s\<lparr>page_table := t\<rparr>)"
  by (simp add: on_page_table_def zoomA_def)

lemma on_replacer_eval: "m (replacer s) = (r, t) \<Longrightarrow> on_replacer m s = (r, s\<lparr>replacer := t\<rparr>)"
  by (simp add: on_replacer_def zoomA_def)

lemma page_state_eval:
  "pt_inv (page_table s) \<Longrightarrow> unat p < unat (max_page_count (page_table s)) \<Longrightarrow>
   page_state p s = (Inr (pe_state (entry_of s p)), s)"
  by (simp add: page_state_def State_eq)

lemma page_state_used:
  "pt_inv (page_table s) \<Longrightarrow> pe_state (entry_of s p) \<noteq> kUnused \<Longrightarrow>
   page_state p s = (Inr (pe_state (entry_of s p)), s)"
  using in_range_if_used by (simp add: page_state_eval)

lemma page_state_out_of_range:
  "pt_inv (page_table s) \<Longrightarrow> \<not> unat p < unat (max_page_count (page_table s)) \<Longrightarrow>
   page_state p s = (Inl (out_of_range ''invalid page id''), s)"
  by (simp add: page_state_def State_out_of_range)

lemma frame_for_page_resident:
  assumes "pt_inv (page_table s)" and "entry_of s p = resident f"
  shows "frame_for_page p s = (Inr f, s)"
  using FrameForPage_eq [OF assms(1), of p] assms(2) by (simp add: frame_for_page_def bindA_def)

lemma page_ref_ok:
  assumes "fa_inv (frame_allocator s)" and "f \<in> allocated (frame_allocator s)"
  shows "page_ref f s = (Inr (), s)"
  using page_at_eq [OF assms] by (simp add: page_ref_def bindA_def)

lemma notify_all_eval [simp]: "notify_all s = (Inr (), s\<lparr>state_changed := {}\<rparr>)"
  by (simp add: notify_all_def)

lemma thenA_notify_all [simp]: "thenA notify_all m s = m (s\<lparr>state_changed := {}\<rparr>)"
  by (simp add: notify_all_def)

subsection \<open>What each part of a critical section does\<close>

text \<open>
  The lemmas hold for any replacer that keeps the contract. Each gives the result of a part and
  the new metadata, entries, contents and waiting threads.
\<close>

context replacer_contract begin

abbreviation binv :: "FrameId set \<Rightarrow> 'r BufferManager \<Rightarrow> bool" where
  "binv X s \<equiv> bm_inv inv capacity tracked candidates X s"

lemma binv_parts:
  assumes "binv X s"
  shows "fa_inv (frame_allocator s)" and "pt_inv (page_table s)" and "inv (replacer s)"
    and "length (frame_meta s) = unat (fa_frame_count (frame_allocator s))"
    and "capacity (replacer s) = length (frame_meta s)"
    and "coherent (meta_of s) (entry_of s)"
    and "f \<in> allocated (frame_allocator s) \<longleftrightarrow> fm_state (meta_of s f) \<noteq> kFree \<or> f \<in> X"
    and "f \<in> X \<Longrightarrow> fm_state (meta_of s f) = kFree"
    and "f \<in> tracked (replacer s) \<longleftrightarrow> fm_state (meta_of s f) = kFrameResident"
    and "f \<in> candidates (replacer s) \<longleftrightarrow> fm_state (meta_of s f) = kFrameResident \<and> pin_count (meta_of s f) = 0"
  using assms by (auto simp: bm_inv_def)

lemma binv_range: "binv X s \<Longrightarrow> f \<in> allocated (frame_allocator s) \<Longrightarrow> unat f < length (frame_meta s)"
  using allocated_bound binv_parts(4) by metis

lemma binv_notify [simp]: "binv X (s\<lparr>state_changed := w\<rparr>) = binv X s"
  by (simp add: bm_inv_def)

lemma allocate_frame_spec:
  assumes inv: "binv {} s" and run: "allocate_frame s = (r, s')"
  shows "(r = Inr None \<and> s' = s \<and> (\<forall>f. unat f < length (frame_meta s) \<longrightarrow> fm_state (meta_of s f) \<noteq> kFree)) \<or>
    (\<exists>f. r = Inr (Some f) \<and> binv {f} s' \<and> meta_of s' = meta_of s \<and> page_table s' = page_table s \<and>
      content_of s' = content_of s \<and> state_changed s' = state_changed s \<and> fm_state (meta_of s f) = kFree \<and>
      unat f < length (frame_meta s) \<and> options s' = options s \<and> frame_meta s' = frame_meta s)"
proof -
  obtain o' fa' where al: "AllocateFrame (frame_allocator s) = (o', fa')" by fastforce
  then have run': "r = Inr o'" "s' = s\<lparr>frame_allocator := fa'\<rparr>"
    using run by (simp_all add: allocate_frame_def on_allocator_eval)
  note spec = AllocateFrame_spec [OF binv_parts(1) [OF inv] al]
  show ?thesis
  proof (cases o')
    case None
    then have "fa' = frame_allocator s"
      and "allocated (frame_allocator s) = {f. unat f < unat (fa_frame_count (frame_allocator s))}"
      using spec by simp_all
    then show ?thesis
      using run' None binv_parts(4,7) [OF inv] by auto
  next
    case (Some f)
    then have f: "fa_inv fa'" "fa_frame_count fa' = fa_frame_count (frame_allocator s)"
        "frames fa' = frames (frame_allocator s)" "f \<notin> allocated (frame_allocator s)"
        "allocated fa' = insert f (allocated (frame_allocator s))"
        "unat f < unat (fa_frame_count (frame_allocator s))"
      using spec by simp_all
    then have free: "fm_state (meta_of s f) = kFree" using binv_parts(7) [OF inv, of f] by simp
    have "binv {f} s'"
      using inv f free by (auto simp: run' bm_inv_def)
    then show ?thesis
      using run' Some free f binv_parts(4) [OF inv] by (simp add: content_of_allocator)
  qed
qed

lemma free_frame_spec:
  assumes inv: "binv {f} s"
  shows "\<exists>s'. on_allocator (FreeFrame f) s = (Inr (), s') \<and> binv {} s' \<and> meta_of s' = meta_of s \<and>
    page_table s' = page_table s \<and> content_of s' = content_of s \<and> state_changed s' = state_changed s \<and>
    options s' = options s"
proof -
  have f: "f \<in> allocated (frame_allocator s)" using binv_parts(7) [OF inv] by simp
  obtain fa' where fa: "FreeFrame f (frame_allocator s) = (Inr (), fa')" "fa_inv fa'"
      "fa_frame_count fa' = fa_frame_count (frame_allocator s)" "frames fa' = frames (frame_allocator s)"
      "allocated fa' = allocated (frame_allocator s) - {f}"
    using FreeFrame_spec [OF binv_parts(1) [OF inv] f] by blast
  have "binv {} (s\<lparr>frame_allocator := fa'\<rparr>)"
    using inv fa by (auto simp: bm_inv_def)
  then show ?thesis
    using fa by (simp add: on_allocator_eval content_of_allocator)
qed

text \<open>A change of the entry of a page that has no frame before and after.\<close>

lemma entry_change:
  assumes inv: "binv X s" and "pt_inv t" and "page_entry t = (entry_of s)(p := e)"
    and "pe_frame_id (entry_of s p) = None" and "pe_frame_id e = None"
  shows "binv X (s\<lparr>page_table := t\<rparr>)"
  using assms coherent_entry [OF binv_parts(6) [OF inv], of p e] by (simp add: bm_inv_def)

text \<open>A change of one frame, with its page's entry and its place in the replacer.\<close>

lemma frame_change:
  assumes inv: "binv X s" and f: "unat f < length (frame_meta s)"
    and pt: "pt_inv t" and E: "coherent ((meta_of s)(f := m)) (page_entry t)"
    and r: "inv r" "capacity r = capacity (replacer s)"
      "tracked r = (if fm_state m = kFrameResident then insert f (tracked (replacer s)) else tracked (replacer s) - {f})"
      "candidates r = (if fm_state m = kFrameResident \<and> pin_count m = 0 then insert f (candidates (replacer s))
        else candidates (replacer s) - {f})"
    and X': "if fm_state m = kFree then (fm_state (meta_of s f) \<noteq> kFree \<or> f \<in> X) \<and> X' = insert f X
      else (fm_state (meta_of s f) \<noteq> kFree \<or> f \<in> X) \<and> X' = X - {f}"
  shows "binv X' ((put_meta f m s)\<lparr>page_table := t, replacer := r\<rparr>)"
proof -
  let ?s = "(put_meta f m s)\<lparr>page_table := t, replacer := r\<rparr>"
  have M: "meta_of ?s = (meta_of s)(f := m)" using f by simp
  have al: "allocated (frame_allocator s) = {g. fm_state (((meta_of s)(f := m)) g) \<noteq> kFree} \<union> X'"
    using X' binv_parts(7) [OF inv] by (auto split: if_splits)
  have xf: "fm_state (((meta_of s)(f := m)) g) = kFree" if "g \<in> X'" for g
    using that X' binv_parts(8) [OF inv] by (auto split: if_splits)
  have tr: "tracked r = {g. fm_state (((meta_of s)(f := m)) g) = kFrameResident}"
    using r(3) binv_parts(9) [OF inv] by auto
  have ca: "candidates r = {g. fm_state (((meta_of s)(f := m)) g) = kFrameResident \<and>
      pin_count (((meta_of s)(f := m)) g) = 0}"
    using r(4) binv_parts(10) [OF inv] by auto
  show ?thesis
    unfolding bm_inv_def M using binv_parts(1,4,5) [OF inv] pt E r(1,2) al xf tr ca by simp
qed

lemma binv_cong:
  "frame_allocator s' = frame_allocator s \<Longrightarrow> page_table s' = page_table s \<Longrightarrow> replacer s' = replacer s \<Longrightarrow>
   frame_meta s' = frame_meta s \<Longrightarrow> binv X s' = binv X s"
  by (simp add: bm_inv_def meta_of_cong [of s' s])

lemma HasTransient_iff:
  "HasTransientFrameLocked s \<longleftrightarrow> (\<exists>f. fm_state (meta_of s f) = kFrameLoading \<or> fm_state (meta_of s f) = kFrameEvicting)"
  (is "_ \<longleftrightarrow> ?T") if "length (frame_meta s) < 4294967296"
proof
  assume "HasTransientFrameLocked s"
  then obtain i where i: "i < length (frame_meta s)"
      "fm_state (frame_meta s ! i) = kFrameLoading \<or> fm_state (frame_meta s ! i) = kFrameEvicting"
    by (auto simp: HasTransientFrameLocked_def list_ex_iff in_set_conv_nth)
  then have "meta_of s (of_nat i) = frame_meta s ! i"
    using that by (simp add: meta_of_def unat_of_nat_32)
  then show ?T using i(2) by metis
next
  assume ?T
  then obtain f where f: "fm_state (meta_of s f) = kFrameLoading \<or> fm_state (meta_of s f) = kFrameEvicting" ..
  then have "unat f < length (frame_meta s)" by (intro meta_of_in_range) auto
  then have "frame_meta s ! unat f \<in> set (frame_meta s)" "meta_of s f = frame_meta s ! unat f"
    by (simp_all add: meta_of_def)
  then show "HasTransientFrameLocked s" using f by (auto simp: HasTransientFrameLocked_def list_ex_iff)
qed

lemma binv_size: "binv X s \<Longrightarrow> length (frame_meta s) < 4294967296"
  using binv_parts(1,4) fa_inv_bitmap_length(5) by metis

lemma select_victim_spec:
  assumes inv: "binv {} s" and run: "SelectVictimLocked ops s = (r, s')"
  shows "(r = Inr MustWait \<and> s' = s \<and>
      (\<exists>f. fm_state (meta_of s f) = kFrameLoading \<or> fm_state (meta_of s f) = kFrameEvicting)) \<or>
    (r = Inl (runtime_error ''no frame available'') \<and> s' = s \<and>
      (\<forall>f. fm_state (meta_of s f) = kFree \<or> fm_state (meta_of s f) = kFrameResident \<and> pin_count (meta_of s f) \<noteq> 0)) \<or>
    (\<exists>f p. r = Inr (MustEvict f p (dirty (meta_of s f)) (dirty_epoch (meta_of s f))) \<and>
      fm_state (meta_of s f) = kFrameResident \<and> pin_count (meta_of s f) = 0 \<and> fm_page_id (meta_of s f) = Some p \<and>
      binv {} s' \<and> meta_of s' = (meta_of s)(f := (meta_of s f)\<lparr>fm_state := kFrameEvicting\<rparr>) \<and>
      entry_of s' = (entry_of s)(p := evicting f) \<and> content_of s' = content_of s \<and>
      state_changed s' = state_changed s \<and> options s' = options s \<and>
      max_page_count (page_table s') = max_page_count (page_table s))"
proof (cases "candidates (replacer s) = {}")
  case True
  have "on_replacer (Victim ops) s = (Inr None, s)"
    using victim_none [OF binv_parts(3) [OF inv] True] by (simp add: on_replacer_eval)
  then have sel: "SelectVictimLocked ops s =
      (if HasTransientFrameLocked s then (Inr MustWait, s) else (Inl (runtime_error ''no frame available''), s))"
    by (simp add: SelectVictimLocked_def bindA_Inr)
  have none: "fm_state (meta_of s f) = kFree \<or> fm_state (meta_of s f) = kFrameResident \<and> pin_count (meta_of s f) \<noteq> 0"
    if "\<not> HasTransientFrameLocked s" for f
    using that True binv_parts(10) [OF inv, of f] HasTransient_iff [OF binv_size [OF inv]]
    by (cases "fm_state (meta_of s f)") auto
  show ?thesis
  proof (cases "HasTransientFrameLocked s")
    case True
    then show ?thesis using run sel HasTransient_iff [OF binv_size [OF inv]] by simp
  next
    case False
    then show ?thesis using run sel none by simp
  qed
next
  case False
  obtain f r' where v: "Victim ops (replacer s) = (Inr (Some f), r')" "f \<in> candidates (replacer s)" "inv r'"
      "capacity r' = capacity (replacer s)" "tracked r' = tracked (replacer s) - {f}"
      "candidates r' = candidates (replacer s) - {f}"
    using victim_some [OF binv_parts(3) [OF inv] False] by blast
  let ?M = "meta_of s" and ?s1 = "s\<lparr>replacer := r'\<rparr>"
  let ?m = "(?M f)\<lparr>fm_state := kFrameEvicting\<rparr>"
  have st: "fm_state (?M f) = kFrameResident" and pin: "pin_count (?M f) = 0"
    using v(2) binv_parts(10) [OF inv] by auto
  obtain p where p: "fm_page_id (?M f) = Some p" "entry_of s p = resident f"
    using coherent_frameD(3) [OF binv_parts(6) [OF inv] st] by blast
  have f: "unat f < length (frame_meta s)" using st by (intro meta_of_in_range) simp
  obtain t where t: "SetEvicting p (page_table s) = (Inr (), t)" "pt_inv t"
      "max_page_count t = max_page_count (page_table s)" "page_entry t = (entry_of s)(p := evicting f)"
    using SetEvicting_spec [OF binv_parts(2) [OF inv] p(2)] by blast
  let ?s' = "put_meta f ?m (?s1\<lparr>page_table := t\<rparr>)"
  have "binv {} ((put_meta f ?m s)\<lparr>page_table := t, replacer := r'\<rparr>)"
    using inv f t(2)
  proof (rule frame_change)
    show "coherent (?M(f := ?m)) (page_entry t)"
      unfolding t(4) using binv_parts(6) [OF inv] p pin
      by (intro coherent_update) (simp_all add: frame_coherent_def)
  qed (use v st in simp_all)
  then have inv': "binv {} ?s'" by (subst binv_cong) (simp_all add: put_meta_def)
  have "f \<in> allocated (frame_allocator ?s')" using binv_parts(7) [OF inv', of f] f by simp
  then have ref: "page_ref f ?s' = (Inr (), ?s')" by (rule page_ref_ok [OF binv_parts(1) [OF inv']])
  have get: "get_meta f ?s1 = ?M f" using f by (simp add: get_meta_in_range)
  have "on_replacer (Victim ops) s = (Inr (Some f), ?s1)" using v(1) by (rule on_replacer_eval)
  moreover have "on_page_table (SetEvicting p) ?s1 = (Inr (), ?s1\<lparr>page_table := t\<rparr>)"
    using t(1) by (intro on_page_table_eval) simp
  ultimately have "SelectVictimLocked ops s =
      (Inr (MustEvict f p (dirty (?M f)) (dirty_epoch (?M f))), ?s')"
    by (simp add: SelectVictimLocked_def bindA_Inr get p pin st thenA_Inr ref)
  then show ?thesis
    using run inv' st pin p t(3,4) f by auto
qed

end

end
