(* ===== verification/Buffer_Ownership.thy ===== *)
theory Buffer_Ownership
  imports Buffer_Invariant
begin

text \<open>
  Who is responsible for what: a token stands for one pin of a frame, for the duty to finish
  a load or an eviction, or for the right to a page identifier whose page is not there yet.
  Threads and the client's guards hold tokens; the invariant says that the frame metadata and
  the page table agree with the tokens held, and that the data of clean frames is on disk.
\<close>

subsection \<open>Tokens\<close>

datatype token = Pin PageId FrameId | Loading PageId FrameId | Evicting PageId FrameId | Creating PageId

fun pins_frame :: "FrameId \<Rightarrow> token \<Rightarrow> bool" where
  "pins_frame f (Pin p g) \<longleftrightarrow> g = f"
| "pins_frame f _ \<longleftrightarrow> False"

definition pins :: "token multiset \<Rightarrow> FrameId \<Rightarrow> nat" where
  "pins T f = size (filter_mset (pins_frame f) T)"

lemma pins_add [simp]:
  "pins (add_mset (Pin p g) T) f = (if g = f then Suc (pins T f) else pins T f)"
  "pins (add_mset (Loading p g) T) f = pins T f"
  "pins (add_mset (Evicting p g) T) f = pins T f"
  "pins (add_mset (Creating p) T) f = pins T f"
  "pins {#} f = 0"
  by (simp_all add: pins_def)

lemma pins_pos: "Pin p f \<in># T \<Longrightarrow> 0 < pins T f"
  by (metis multi_member_split pins_add(1) zero_less_Suc)

lemma pins_zero: "(\<And>p. Pin p f \<notin># T) \<Longrightarrow> pins T f = 0"
proof -
  assume none: "\<And>p. Pin p f \<notin># T"
  have "\<not> pins_frame f t" if "t \<in># T" for t using that none by (cases t) auto
  then have "filter_mset (pins_frame f) T = {#}" by (auto simp: filter_mset_eq_mempty_iff)
  then show ?thesis by (simp add: pins_def)
qed

subsection \<open>The invariant on the views\<close>

text \<open>
  \<open>D\<close> is the content of the database file, page by page, and \<open>U\<close> the pages written
  through a guard that has not marked them dirty yet.
\<close>

definition pins_agree :: "token multiset \<Rightarrow> (FrameId \<Rightarrow> FrameMeta) \<Rightarrow> bool" where
  "pins_agree T M \<longleftrightarrow>
     (\<forall>p f. Pin p f \<in># T \<longrightarrow> fm_state (M f) = kFrameResident \<and> fm_page_id (M f) = Some p) \<and>
     (\<forall>f. fm_state (M f) = kFrameResident \<longrightarrow> unat (pin_count (M f)) = pins T f)"

definition duties_agree :: "token multiset \<Rightarrow> (FrameId \<Rightarrow> FrameMeta) \<Rightarrow> bool" where
  "duties_agree T M \<longleftrightarrow>
     (\<forall>p f. count T (Loading p f) =
        (if fm_state (M f) = kFrameLoading \<and> fm_page_id (M f) = Some p then 1 else 0)) \<and>
     (\<forall>p f. count T (Evicting p f) =
        (if fm_state (M f) = kFrameEvicting \<and> fm_page_id (M f) = Some p then 1 else 0))"

definition creating_agree :: "token multiset \<Rightarrow> (PageId \<Rightarrow> PageEntry) \<Rightarrow> bool" where
  "creating_agree T E \<longleftrightarrow>
     (\<forall>p. count T (Creating p) \<le> 1 \<and> (Creating p \<in># T \<longrightarrow> E p = on_disk))"

definition clean_on_disk ::
  "(PageId \<Rightarrow> Page) \<Rightarrow> PageId set \<Rightarrow> (FrameId \<Rightarrow> FrameMeta) \<Rightarrow> (FrameId \<Rightarrow> Page) \<Rightarrow> bool" where
  "clean_on_disk D U M C \<longleftrightarrow>
     (\<forall>p f. fm_state (M f) = kFrameResident \<and> fm_page_id (M f) = Some p \<and> \<not> dirty (M f) \<and> p \<notin> U \<longrightarrow>
        C f = D p)"

definition unmarked_pinned :: "token multiset \<Rightarrow> PageId set \<Rightarrow> bool" where
  "unmarked_pinned T U \<longleftrightarrow> (\<forall>p \<in> U. \<exists>f. Pin p f \<in># T)"

definition tok_inv ::
  "(PageId \<Rightarrow> Page) \<Rightarrow> PageId set \<Rightarrow> token multiset \<Rightarrow> (FrameId \<Rightarrow> FrameMeta) \<Rightarrow>
   (PageId \<Rightarrow> PageEntry) \<Rightarrow> (FrameId \<Rightarrow> Page) \<Rightarrow> bool" where
  "tok_inv D U T M E C \<longleftrightarrow>
     coherent M E \<and> pins_agree T M \<and> duties_agree T M \<and> creating_agree T E \<and>
     clean_on_disk D U M C \<and> unmarked_pinned T U"

lemmas tok_defs = pins_agree_def duties_agree_def creating_agree_def clean_on_disk_def unmarked_pinned_def

lemma tok_invD:
  assumes "tok_inv D U T M E C"
  shows "coherent M E" and "pins_agree T M" and "duties_agree T M" and "creating_agree T E"
    and "clean_on_disk D U M C" and "unmarked_pinned T U"
  using assms by (simp_all add: tok_inv_def)

text \<open>The frame of a page and the page of a frame determine each other.\<close>

lemma coherent_unique:
  assumes "coherent M E" and "fm_page_id (M f) = Some p" and "fm_page_id (M g) = Some p"
  shows "f = g"
proof -
  have st: "fm_state (M h) \<noteq> kFree" if "fm_page_id (M h) = Some p" for h
    using that coherent_frameD(1) [OF assms(1), of h] by auto
  have "pe_frame_id (E p) = Some h" if "fm_page_id (M h) = Some p" for h
    using that st [OF that] coherent_frameD(2-4) [OF assms(1), of h] by (cases "fm_state (M h)") auto
  from this [OF assms(2)] this [OF assms(3)] show ?thesis by simp
qed

lemma pin_resident:
  assumes "tok_inv D U T M E C" and "Pin p f \<in># T"
  shows "fm_state (M f) = kFrameResident" and "fm_page_id (M f) = Some p" and "E p = resident f"
    and "pin_count (M f) \<noteq> 0" and "unat (pin_count (M f)) = pins T f"
proof -
  note d = tok_invD(1,2) [OF assms(1)]
  show st: "fm_state (M f) = kFrameResident" and p: "fm_page_id (M f) = Some p"
    using d(2) assms(2) by (auto simp: pins_agree_def)
  then show "E p = resident f" using coherent_frameD(3) [OF d(1) st] by auto
  show pc: "unat (pin_count (M f)) = pins T f" using d(2) st by (simp add: pins_agree_def)
  then show "pin_count (M f) \<noteq> 0" using pins_pos [OF assms(2)] by auto
qed

lemma unpinned_marked:
  assumes "tok_inv D U T M E C" and "E p = resident f" and "pin_count (M f) = 0"
  shows "p \<notin> U"
proof
  assume "p \<in> U"
  then obtain g where g: "Pin p g \<in># T" using tok_invD(6) [OF assms(1)] by (auto simp: unmarked_pinned_def)
  have "E p = resident g" using pin_resident(3) [OF assms(1) g] .
  then have "g = f" using assms(2) by simp
  then show False using pin_resident(4) [OF assms(1) g] assms(3) by simp
qed

lemma no_pin:
  assumes "tok_inv D U T M E C" and "fm_state (M f) \<noteq> kFrameResident \<or> pin_count (M f) = 0"
  shows "Pin p f \<notin># T"
  using pin_resident(1,4) [OF assms(1), of p f] assms(2) by blast

subsection \<open>How the tokens move\<close>

lemma free_frame_tokens:
  assumes "tok_inv D U T M E C" and "fm_state (M f) = kFree"
  shows "Pin p f \<notin># T" and "Loading p f \<notin># T" and "Evicting p f \<notin># T" and "pins T f = 0"
    and "pe_frame_id (E q) \<noteq> Some f" and "fm_page_id (M f) = None"
proof -
  note i = tok_invD [OF assms(1)]
  show "Pin p f \<notin># T" and z: "pins T f = 0"
    using no_pin [OF assms(1)] assms(2) pins_zero by auto
  have "count T (Loading p f) = 0" "count T (Evicting p f) = 0"
    using i(3) assms(2) by (simp_all add: duties_agree_def)
  then show "Loading p f \<notin># T" "Evicting p f \<notin># T" by (simp_all add: count_eq_zero_iff)
  show n: "fm_page_id (M f) = None" using coherent_frameD(1) [OF i(1) assms(2)] by simp
  then show "pe_frame_id (E q) \<noteq> Some f" using coherent_pageD(1) [OF i(1), of q f] by auto
qed

lemma duty_frame:
  assumes "tok_inv D U T M E C"
  shows "Loading p f \<in># T \<Longrightarrow> fm_state (M f) = kFrameLoading \<and> fm_page_id (M f) = Some p \<and> E p = loading f \<and>
      pin_count (M f) = 1"
    and "Evicting p f \<in># T \<Longrightarrow> fm_state (M f) = kFrameEvicting \<and> fm_page_id (M f) = Some p \<and> E p = evicting f"
proof -
  note i = tok_invD(1,3) [OF assms]
  have l: "fm_state (M f) = kFrameLoading \<and> fm_page_id (M f) = Some p" if "Loading p f \<in># T"
  proof (rule ccontr)
    assume "\<not> ?thesis"
    then have "count T (Loading p f) = 0" using i(2) unfolding duties_agree_def by presburger
    with that show False by (simp add: count_eq_zero_iff)
  qed
  then show "Loading p f \<in># T \<Longrightarrow> fm_state (M f) = kFrameLoading \<and> fm_page_id (M f) = Some p \<and> E p = loading f \<and>
      pin_count (M f) = 1"
    using coherent_frameD(2) [OF i(1), of f] by auto
  have e: "fm_state (M f) = kFrameEvicting \<and> fm_page_id (M f) = Some p" if "Evicting p f \<in># T"
  proof (rule ccontr)
    assume "\<not> ?thesis"
    then have "count T (Evicting p f) = 0" using i(2) unfolding duties_agree_def by presburger
    with that show False by (simp add: count_eq_zero_iff)
  qed
  then show "Evicting p f \<in># T \<Longrightarrow> fm_state (M f) = kFrameEvicting \<and> fm_page_id (M f) = Some p \<and> E p = evicting f"
    using coherent_frameD(4) [OF i(1), of f] by auto
qed

text \<open>The duties after a change of one frame.\<close>

lemma duties_change:
  assumes d: "duties_agree T M"
    and other: "\<And>g q. g \<noteq> f \<Longrightarrow> count T' (Loading q g) = count T (Loading q g) \<and>
      count T' (Evicting q g) = count T (Evicting q g)"
    and l: "\<And>q. count T' (Loading q f) = (if fm_state m = kFrameLoading \<and> fm_page_id m = Some q then 1 else 0)"
    and e: "\<And>q. count T' (Evicting q f) = (if fm_state m = kFrameEvicting \<and> fm_page_id m = Some q then 1 else 0)"
  shows "duties_agree T' (M(f := m))"
  unfolding duties_agree_def
proof (intro conjI allI)
  fix q g
  show "count T' (Loading q g) = (if fm_state ((M(f := m)) g) = kFrameLoading \<and>
      fm_page_id ((M(f := m)) g) = Some q then 1 else 0)"
    using d other [of g q] l [of q] by (cases "g = f") (simp_all add: duties_agree_def)
  show "count T' (Evicting q g) = (if fm_state ((M(f := m)) g) = kFrameEvicting \<and>
      fm_page_id ((M(f := m)) g) = Some q then 1 else 0)"
    using d other [of g q] e [of q] by (cases "g = f") (simp_all add: duties_agree_def)
qed

lemma no_duty:
  "duties_agree T M \<Longrightarrow> fm_state (M f) \<noteq> kFrameLoading \<Longrightarrow> count T (Loading q f) = 0"
  "duties_agree T M \<Longrightarrow> fm_state (M f) \<noteq> kFrameEvicting \<Longrightarrow> count T (Evicting q f) = 0"
  by (simp_all add: duties_agree_def)

lemma one_duty:
  "duties_agree (add_mset (Loading p f) T) M \<Longrightarrow> count T (Loading q f) = 0 \<and> count T (Evicting q f) = 0"
  "duties_agree (add_mset (Evicting p f) T) M \<Longrightarrow> count T (Loading q f) = 0 \<and> count T (Evicting q f) = 0"
proof -
  have l: "count T' (Loading q f) = (if fm_state (M f) = kFrameLoading \<and> fm_page_id (M f) = Some q then 1 else 0)"
    and e: "count T' (Evicting q f) = (if fm_state (M f) = kFrameEvicting \<and> fm_page_id (M f) = Some q then 1 else 0)"
    if "duties_agree T' M" for T' q using that by (simp_all add: duties_agree_def)
  show "count T (Loading q f) = 0 \<and> count T (Evicting q f) = 0" if "duties_agree (add_mset (Loading p f) T) M"
    using l [OF that, of p] l [OF that, of q] e [OF that, of q] by (auto split: if_splits)
  show "count T (Loading q f) = 0 \<and> count T (Evicting q f) = 0" if "duties_agree (add_mset (Evicting p f) T) M"
    using e [OF that, of p] l [OF that, of q] e [OF that, of q] by (auto split: if_splits)
qed

text \<open>The page identifiers being created after a change of one entry.\<close>

lemma creating_change:
  assumes c: "creating_agree T E"
    and other: "\<And>q. q \<noteq> p \<Longrightarrow> count T' (Creating q) = count T (Creating q)"
    and new: "count T' (Creating p) = 0 \<or> count T' (Creating p) = 1 \<and> e = on_disk"
  shows "creating_agree T' (E(p := e))"
  unfolding creating_agree_def
proof (intro allI)
  fix q
  have "count T (Creating q) \<le> 1" "count T (Creating q) > 0 \<longrightarrow> E q = on_disk"
    using c unfolding creating_agree_def count_greater_zero_iff by blast+
  then have "count T' (Creating q) \<le> 1 \<and> (0 < count T' (Creating q) \<longrightarrow> (E(p := e)) q = on_disk)"
    using other [of q] new by (cases "q = p") (auto simp del: count_greater_zero_iff)
  then show "count T' (Creating q) \<le> 1 \<and> (Creating q \<in># T' \<longrightarrow> (E(p := e)) q = on_disk)"
    unfolding count_greater_zero_iff .
qed

lemma not_creating: "creating_agree T E \<Longrightarrow> E p \<noteq> on_disk \<Longrightarrow> count T (Creating p) = 0"
  "creating_agree (add_mset (Creating p) T) E \<Longrightarrow> count T (Creating p) = 0"
proof -
  show "creating_agree T E \<Longrightarrow> E p \<noteq> on_disk \<Longrightarrow> count T (Creating p) = 0"
    by (auto simp: creating_agree_def count_eq_zero_iff)
  assume "creating_agree (add_mset (Creating p) T) E"
  then have "count (add_mset (Creating p) T) (Creating p) \<le> 1" by (simp only: creating_agree_def)
  then show "count T (Creating p) = 0" by simp
qed

lemma count_zero_mem: "t \<notin># T \<Longrightarrow> count T t = 0"
  by (simp add: count_eq_zero_iff)

lemma creating_entry: "tok_inv D U T M E C \<Longrightarrow> Creating p \<in># T \<Longrightarrow> E p = on_disk"
  by (simp add: tok_inv_def creating_agree_def)

lemma tok_evict:
  assumes tok: "tok_inv D U T M E C" and st: "fm_state (M f) = kFrameResident"
    and pin: "pin_count (M f) = 0" and p: "fm_page_id (M f) = Some p"
  shows "tok_inv D U (add_mset (Evicting p f) T) (M(f := (M f)\<lparr>fm_state := kFrameEvicting\<rparr>)) (E(p := evicting f)) C"
    and "dirty (M f) \<or> C f = D p"
proof -
  note i = tok_invD [OF tok]
  have e: "E p = resident f" using coherent_frameD(3) [OF i(1) st] p by auto
  have np: "Pin q f \<notin># T" for q using no_pin [OF tok] pin by blast
  have u: "p \<notin> U" using unpinned_marked [OF tok e pin] .
  then show "dirty (M f) \<or> C f = D p" using i(5) st p by (auto simp: clean_on_disk_def)
  show "tok_inv D U (add_mset (Evicting p f) T) (M(f := (M f)\<lparr>fm_state := kFrameEvicting\<rparr>)) (E(p := evicting f)) C"
    unfolding tok_inv_def
  proof (intro conjI)
    show "coherent (M(f := (M f)\<lparr>fm_state := kFrameEvicting\<rparr>)) (E(p := evicting f))"
      using i(1) p e pin by (intro coherent_update) (simp_all add: frame_coherent_def)
    show "pins_agree (add_mset (Evicting p f) T) (M(f := (M f)\<lparr>fm_state := kFrameEvicting\<rparr>))"
      using i(2) np by (auto simp: pins_agree_def)
    show "duties_agree (add_mset (Evicting p f) T) (M(f := (M f)\<lparr>fm_state := kFrameEvicting\<rparr>))"
      by (rule duties_change [OF i(3)]) (use st p no_duty [OF i(3), of f] in simp_all)
    show "creating_agree (add_mset (Evicting p f) T) (E(p := evicting f))"
      by (rule creating_change [OF i(4)]) (use not_creating(1) [OF i(4), of p] e in simp_all)
    show "clean_on_disk D U (M(f := (M f)\<lparr>fm_state := kFrameEvicting\<rparr>)) C"
      using i(5) by (auto simp: clean_on_disk_def)
    show "unmarked_pinned (add_mset (Evicting p f) T) U" using i(6) by (auto simp: unmarked_pinned_def)
  qed
qed

lemma tok_finish:
  assumes tok: "tok_inv D U (add_mset (Evicting p f) T) M E C"
  shows "tok_inv D U T (M(f := empty_meta)) (E(p := on_disk)) C"
proof -
  note i = tok_invD [OF tok]
  note d = duty_frame(2) [OF tok, of p f, simplified]
  have np: "Pin q f \<notin># T" for q using no_pin [OF tok, of f q] d by auto
  show ?thesis unfolding tok_inv_def
  proof (intro conjI)
    show "coherent (M(f := empty_meta)) (E(p := on_disk))"
      using i(1) d by (intro coherent_update) (simp_all add: frame_coherent_def)
    show "pins_agree T (M(f := empty_meta))" using i(2) np by (auto simp: pins_agree_def)
    show "duties_agree T (M(f := empty_meta))"
      by (rule duties_change [OF i(3)]) (use one_duty(2) [OF i(3)] in simp_all)
    show "creating_agree T (E(p := on_disk))"
      by (rule creating_change [OF i(4)]) (use not_creating(1) [OF i(4), of p] d in simp_all)
    show "clean_on_disk D U (M(f := empty_meta)) C" using i(5) by (auto simp: clean_on_disk_def)
    show "unmarked_pinned T U" using i(6) by (auto simp: unmarked_pinned_def)
  qed
qed

lemma tok_restore:
  assumes tok: "tok_inv D U (add_mset (Evicting p f) T) M E C" and cl: "d \<or> C f = D p"
    and m: "m = \<lparr>fm_page_id = Some p, pin_count = 0, dirty = d, dirty_epoch = e, fm_state = kFrameResident\<rparr>"
  shows "tok_inv D U T (M(f := m)) (E(p := resident f)) C"
proof -
  note i = tok_invD [OF tok]
  note dt = duty_frame(2) [OF tok, of p f, simplified]
  have np: "Pin q f \<notin># T" for q using no_pin [OF tok, of f q] dt by auto
  then have z: "pins T f = 0" by (rule pins_zero)
  have cr: "Creating p \<notin># T" using creating_entry [OF tok, of p] dt by auto
  show ?thesis unfolding tok_inv_def
  proof (intro conjI)
    show "coherent (M(f := m)) (E(p := resident f))"
      using i(1) dt by (intro coherent_update) (simp_all add: frame_coherent_def m)
    show "pins_agree T (M(f := m))" using i(2) np z by (auto simp: pins_agree_def m)
    show "duties_agree T (M(f := m))"
      by (rule duties_change [OF i(3)]) (use one_duty(2) [OF i(3)] in \<open>simp_all add: m\<close>)
    show "creating_agree T (E(p := resident f))"
      by (rule creating_change [OF i(4)]) (use cr in \<open>simp_all add: count_zero_mem\<close>)
    show "clean_on_disk D U (M(f := m)) C" using i(5) cl by (auto simp: clean_on_disk_def m)
    show "unmarked_pinned T U" using i(6) by (auto simp: unmarked_pinned_def)
  qed
qed

lemma tok_install:
  assumes tok: "tok_inv D U (add_mset (Creating p) T) M E C" and free: "fm_state (M f) = kFree"
    and m: "m = \<lparr>fm_page_id = Some p, pin_count = 1, dirty = True, dirty_epoch = 1, fm_state = kFrameResident\<rparr>"
  shows "tok_inv D U (add_mset (Pin p f) T) (M(f := m)) (E(p := resident f)) (C(f := c))"
proof -
  note i = tok_invD [OF tok]
  note fr = free_frame_tokens [OF tok free, simplified]
  have e: "E p = on_disk" using creating_entry [OF tok, of p] by simp
  have cr: "Creating p \<notin># T" using not_creating(2) [OF i(4)] by (simp add: count_eq_zero_iff)
  show ?thesis unfolding tok_inv_def
  proof (intro conjI)
    show "coherent (M(f := m)) (E(p := resident f))"
      using i(1) fr(6) e by (intro coherent_update) (simp_all add: frame_coherent_def m)
    show "pins_agree (add_mset (Pin p f) T) (M(f := m))" using i(2) fr by (auto simp: pins_agree_def m)
    show "duties_agree (add_mset (Pin p f) T) (M(f := m))"
      by (rule duties_change [OF i(3)]) (use no_duty [OF i(3), of f] free in \<open>simp_all add: m\<close>)
    show "creating_agree (add_mset (Pin p f) T) (E(p := resident f))"
      by (rule creating_change [OF i(4)]) (use cr in \<open>simp_all add: count_zero_mem\<close>)
    show "clean_on_disk D U (M(f := m)) (C(f := c))" using i(5) by (auto simp: clean_on_disk_def m)
    show "unmarked_pinned (add_mset (Pin p f) T) U" using i(6) by (auto simp: unmarked_pinned_def)
  qed
qed

lemma tok_begin_load:
  assumes tok: "tok_inv D U T M E C" and free: "fm_state (M f) = kFree"
    and e: "E p = on_disk" and cr: "Creating p \<notin># T"
    and m: "m = \<lparr>fm_page_id = Some p, pin_count = 1, dirty = False, dirty_epoch = 0, fm_state = kFrameLoading\<rparr>"
  shows "tok_inv D U (add_mset (Loading p f) T) (M(f := m)) (E(p := loading f)) C"
proof -
  note i = tok_invD [OF tok]
  note fr = free_frame_tokens [OF tok free]
  show ?thesis unfolding tok_inv_def
  proof (intro conjI)
    show "coherent (M(f := m)) (E(p := loading f))"
      using i(1) fr(6) e by (intro coherent_update) (simp_all add: frame_coherent_def m)
    show "pins_agree (add_mset (Loading p f) T) (M(f := m))" using i(2) fr by (auto simp: pins_agree_def m)
    show "duties_agree (add_mset (Loading p f) T) (M(f := m))"
      by (rule duties_change [OF i(3)]) (use no_duty [OF i(3), of f] free in \<open>simp_all add: m\<close>)
    show "creating_agree (add_mset (Loading p f) T) (E(p := loading f))"
      by (rule creating_change [OF i(4)]) (use cr in \<open>simp_all add: count_zero_mem\<close>)
    show "clean_on_disk D U (M(f := m)) C" using i(5) by (auto simp: clean_on_disk_def m)
    show "unmarked_pinned (add_mset (Loading p f) T) U" using i(6) by (auto simp: unmarked_pinned_def)
  qed
qed

lemma tok_loaded:
  assumes tok: "tok_inv D U (add_mset (Loading p f) T) M E C" and cl: "C f = D p"
    and m: "m = (M f)\<lparr>fm_state := kFrameResident, dirty := False, dirty_epoch := 0\<rparr>"
  shows "tok_inv D U (add_mset (Pin p f) T) (M(f := m)) (E(p := resident f)) C"
proof -
  note i = tok_invD [OF tok]
  note dt = duty_frame(1) [OF tok, of p f, simplified]
  have np: "Pin q f \<notin># T" for q using no_pin [OF tok, of f q] dt by auto
  then have z: "pins T f = 0" by (rule pins_zero)
  have cr: "Creating p \<notin># T" using creating_entry [OF tok, of p] dt by auto
  show ?thesis unfolding tok_inv_def
  proof (intro conjI)
    show "coherent (M(f := m)) (E(p := resident f))"
      using i(1) dt by (intro coherent_update) (simp_all add: frame_coherent_def m)
    show "pins_agree (add_mset (Pin p f) T) (M(f := m))" using i(2) np z dt by (auto simp: pins_agree_def m)
    show "duties_agree (add_mset (Pin p f) T) (M(f := m))"
      by (rule duties_change [OF i(3)]) (use one_duty(1) [OF i(3)] in \<open>simp_all add: m\<close>)
    show "creating_agree (add_mset (Pin p f) T) (E(p := resident f))"
      by (rule creating_change [OF i(4)]) (use cr in \<open>simp_all add: count_zero_mem\<close>)
    show "clean_on_disk D U (M(f := m)) C" using i(5) cl dt by (auto simp: clean_on_disk_def m)
    show "unmarked_pinned (add_mset (Pin p f) T) U" using i(6) by (auto simp: unmarked_pinned_def)
  qed
qed

lemma tok_load_failed:
  assumes tok: "tok_inv D U (add_mset (Loading p f) T) M E C"
  shows "tok_inv D U T (M(f := empty_meta)) (E(p := on_disk)) C"
proof -
  note i = tok_invD [OF tok]
  note d = duty_frame(1) [OF tok, of p f, simplified]
  have np: "Pin q f \<notin># T" for q using no_pin [OF tok, of f q] d by auto
  show ?thesis unfolding tok_inv_def
  proof (intro conjI)
    show "coherent (M(f := empty_meta)) (E(p := on_disk))"
      using i(1) d by (intro coherent_update) (simp_all add: frame_coherent_def)
    show "pins_agree T (M(f := empty_meta))" using i(2) np by (auto simp: pins_agree_def)
    show "duties_agree T (M(f := empty_meta))"
      by (rule duties_change [OF i(3)]) (use one_duty(1) [OF i(3)] in simp_all)
    show "creating_agree T (E(p := on_disk))"
      by (rule creating_change [OF i(4)]) (use not_creating(1) [OF i(4), of p] d in simp_all)
    show "clean_on_disk D U (M(f := empty_meta)) C" using i(5) by (auto simp: clean_on_disk_def)
    show "unmarked_pinned T U" using i(6) by (auto simp: unmarked_pinned_def)
  qed
qed

text \<open>A change of the metadata of a resident frame that leaves its page and pins alone.\<close>

lemma tok_meta:
  assumes tok: "tok_inv D U T M E C" and st: "fm_state (M f) = kFrameResident" "fm_page_id (M f) = Some p"
    and m: "fm_state m = kFrameResident" "fm_page_id m = Some p" "pin_count m = pin_count (M f)"
    and cl: "dirty m \<or> p \<in> U \<or> C f = D p"
    and U': "U' = U \<or> U' = U - {p} \<and> dirty m"
  shows "tok_inv D U' T (M(f := m)) E C"
proof -
  note i = tok_invD [OF tok]
  show ?thesis unfolding tok_inv_def
  proof (intro conjI)
    show "coherent (M(f := m)) E" using coherent_meta [OF i(1) st(1) m(1)] m(2) st(2) by simp
    show "pins_agree T (M(f := m))" using i(2) st m by (auto simp: pins_agree_def)
    show "duties_agree T (M(f := m))"
      by (rule duties_change [OF i(3)]) (use no_duty [OF i(3), of f] st m in simp_all)
    show "creating_agree T E" by (rule i(4))
    show "clean_on_disk D U' (M(f := m)) C"
      using i(5) cl U' m(2) coherent_unique [OF i(1) st(2)] by (auto simp: clean_on_disk_def)
    show "unmarked_pinned T U'" using i(6) U' by (auto simp: unmarked_pinned_def)
  qed
qed

lemma tok_pin:
  assumes tok: "tok_inv D U T M E C" and e: "E p = resident f" and c: "unat (pin_count m) = Suc (unat (pin_count (M f)))"
    and m: "m = (M f)\<lparr>pin_count := pin_count m\<rparr>"
  shows "tok_inv D U (add_mset (Pin p f) T) (M(f := m)) E C"
proof -
  note i = tok_invD [OF tok]
  have st: "fm_state (M f) = kFrameResident" "fm_page_id (M f) = Some p"
    using coherent_pageD [OF i(1), of p f] e by auto
  have m': "fm_state m = kFrameResident" "fm_page_id m = Some p" "dirty m = dirty (M f)"
    using st by (subst m, simp)+
  show ?thesis unfolding tok_inv_def
  proof (intro conjI)
    show "coherent (M(f := m)) E" using coherent_meta [OF i(1) st(1) m'(1)] m'(2) st(2) by simp
    show "pins_agree (add_mset (Pin p f) T) (M(f := m))" using i(2) st m' c by (auto simp: pins_agree_def)
    show "duties_agree (add_mset (Pin p f) T) (M(f := m))"
      by (rule duties_change [OF i(3)]) (use no_duty [OF i(3), of f] st m' in simp_all)
    show "creating_agree (add_mset (Pin p f) T) E" using i(4) by (simp add: creating_agree_def)
    show "clean_on_disk D U (M(f := m)) C" using i(5) m' st by (auto simp: clean_on_disk_def)
    show "unmarked_pinned (add_mset (Pin p f) T) U" using i(6) by (auto simp: unmarked_pinned_def)
  qed
qed

lemma tok_unpin:
  assumes tok: "tok_inv D U (add_mset (Pin p f) T) M E C" and u: "p \<in> U \<Longrightarrow> Pin p f \<in># T"
    and m: "m = (M f)\<lparr>pin_count := pin_count (M f) - 1\<rparr>"
  shows "tok_inv D U T (M(f := m)) E C"
proof -
  note i = tok_invD [OF tok]
  note r = pin_resident [OF tok, of p f, simplified]
  have c: "unat (pin_count (M f) - 1) = pins T f" using r(4,5) by (simp add: unat_minus_one)
  show ?thesis unfolding tok_inv_def
  proof (intro conjI)
    show "coherent (M(f := m)) E" using coherent_meta [OF i(1) r(1)] by (simp add: m r)
    show "pins_agree T (M(f := m))" using i(2) r(1,2) c by (auto simp: pins_agree_def m)
    show "duties_agree T (M(f := m))"
      by (rule duties_change [OF i(3)]) (use no_duty [OF i(3), of f] r in \<open>simp_all add: m\<close>)
    show "creating_agree T E" using i(4) by (simp add: creating_agree_def)
    show "clean_on_disk D U (M(f := m)) C" using i(5) by (auto simp: clean_on_disk_def m)
    show "unmarked_pinned T U" using i(6) u unfolding unmarked_pinned_def by fastforce
  qed
qed

lemma tok_delete:
  assumes tok: "tok_inv D U T M E C" and e: "E p = resident f" and pin: "pin_count (M f) = 0"
    and e': "pe_frame_id e' = None" "e' \<noteq> on_disk"
  shows "tok_inv D U T (M(f := empty_meta)) (E(p := e')) C"
proof -
  note i = tok_invD [OF tok]
  have st: "fm_state (M f) = kFrameResident" "fm_page_id (M f) = Some p"
    using coherent_pageD [OF i(1), of p f] e by auto
  have np: "Pin q f \<notin># T" for q using no_pin [OF tok] pin by blast
  show ?thesis unfolding tok_inv_def
  proof (intro conjI)
    show "coherent (M(f := empty_meta)) (E(p := e'))"
      using i(1) st e e' by (intro coherent_update) (simp_all add: frame_coherent_def)
    show "pins_agree T (M(f := empty_meta))" using i(2) np by (auto simp: pins_agree_def)
    show "duties_agree T (M(f := empty_meta))"
      by (rule duties_change [OF i(3)]) (use no_duty [OF i(3), of f] st in simp_all)
    show "creating_agree T (E(p := e'))"
      by (rule creating_change [OF i(4)]) (use not_creating(1) [OF i(4), of p] e in simp_all)
    show "clean_on_disk D U (M(f := empty_meta)) C" using i(5) by (auto simp: clean_on_disk_def)
    show "unmarked_pinned T U" using i(6) by (auto simp: unmarked_pinned_def)
  qed
qed

text \<open>A change of the entry of a page that has no frame.\<close>

lemma tok_entry:
  assumes tok: "tok_inv D U T M E C" and e: "pe_frame_id (E p) = None" "pe_frame_id e' = None"
    and T': "(T' = T \<and> Creating p \<notin># T) \<or> (T' = add_mset (Creating p) T \<and> Creating p \<notin># T \<and> e' = on_disk) \<or>
      T = add_mset (Creating p) T'"
  shows "tok_inv D U T' M (E(p := e')) C"
proof -
  note i = tok_invD [OF tok]
  have np: "Pin q f \<in># T' \<longleftrightarrow> Pin q f \<in># T" "pins T' f = pins T f" for q f using T' by auto
  have cr: "count T' (Creating p) = 0 \<or> count T' (Creating p) = 1 \<and> e' = on_disk"
    using T' not_creating(2) [of p T' E] i(4) by (auto simp: count_zero_mem)
  show ?thesis unfolding tok_inv_def
  proof (intro conjI)
    show "coherent M (E(p := e'))" using coherent_entry [OF i(1) e] .
    show "pins_agree T' M" using i(2) by (simp add: pins_agree_def np)
    show "duties_agree T' M" using i(3) T' by (auto simp: duties_agree_def)
    show "creating_agree T' (E(p := e'))" by (rule creating_change [OF i(4)]) (use cr T' in auto)
    show "clean_on_disk D U M C" by (rule i(5))
    show "unmarked_pinned T' U" using i(6) by (simp add: unmarked_pinned_def np)
  qed
qed

lemma tok_content:
  "tok_inv D U T M E C \<Longrightarrow> fm_state (M f) \<noteq> kFrameResident \<Longrightarrow> tok_inv D U T M E (C(f := c))"
  by (auto simp: tok_inv_def clean_on_disk_def)

subsection \<open>Contents\<close>

text \<open>
  What the buffer manager promises to its clients: a page that exists has contents. They are
  in the page's frame while it has one that is filled, and in the file otherwise. A page
  identifier taken by a \<^verbatim>\<open>NewPage\<close> that has not returned is not a page yet.
\<close>

definition contents ::
  "(PageId \<Rightarrow> Page) \<Rightarrow> token multiset \<Rightarrow> (PageId \<Rightarrow> PageEntry) \<Rightarrow> (FrameId \<Rightarrow> Page) \<Rightarrow> PageId \<Rightarrow> Page option" where
  "contents D T E C p =
     (if pe_state (E p) = kUnused \<or> Creating p \<in># T then None
      else if pe_state (E p) = kResident \<or> pe_state (E p) = kEvicting then Some (C (the (pe_frame_id (E p))))
      else Some (D p))"

lemma contents_change:
  assumes "\<And>q. q \<noteq> p \<Longrightarrow> Creating q \<in># T' \<longleftrightarrow> Creating q \<in># T"
    and "\<And>q f. q \<noteq> p \<Longrightarrow> E q = resident f \<or> E q = evicting f \<Longrightarrow> C' f = C f"
    and "\<And>q. entry_ok (E q)"
  shows "contents D T' (E(p := e)) C' = (contents D T E C)(p := contents D T' (E(p := e)) C' p)"
proof
  fix q
  show "contents D T' (E(p := e)) C' q = ((contents D T E C)(p := contents D T' (E(p := e)) C' p)) q"
  proof (cases "q = p")
    case False
    have "C' (the (pe_frame_id (E q))) = C (the (pe_frame_id (E q)))"
      if st: "pe_state (E q) = kResident \<or> pe_state (E q) = kEvicting"
    proof -
      obtain f where "pe_frame_id (E q) = Some f"
        using assms(3) [of q] st by (auto simp: entry_ok_def)
      moreover from this have "E q = resident f \<or> E q = evicting f" using st by (cases "E q") auto
      ultimately show ?thesis using assms(2) [OF False] by auto
    qed
    then show ?thesis using False assms(1) [OF False] by (simp add: contents_def)
  qed simp
qed

lemma contents_free:
  assumes "\<And>q. pe_frame_id (E q) \<noteq> Some f" and "\<And>q. entry_ok (E q)"
  shows "contents D T E (C(f := c)) = contents D T E C"
proof
  fix q
  show "contents D T E (C(f := c)) q = contents D T E C q"
  proof (cases "pe_frame_id (E q)")
    case None
    then have "pe_state (E q) = kUnused \<or> pe_state (E q) = kNonResident"
      using assms(2) [of q] by (simp add: entry_ok_def)
    then show ?thesis by (auto simp: contents_def)
  next
    case (Some g)
    then have "g \<noteq> f" using assms(1) [of q] by auto
    then show ?thesis using Some by (simp add: contents_def)
  qed
qed

subsection \<open>What the other threads see\<close>

text \<open>
  \<open>moved R U U' s s'\<close>: a change from \<open>s\<close> to \<open>s'\<close> by a thread when the
  others hold the tokens \<open>R\<close>. The contents of their frames stay; the dirty epoch of a frame
  they have pinned does not fall, and grows when a page is marked dirty; and a page stops being
  loaded or evicted only when all waiting threads are woken.
\<close>

definition transient :: "PageEntry \<Rightarrow> bool" where
  "transient e \<longleftrightarrow> pe_state e = kLoading \<or> pe_state e = kEvicting"

definition moved ::
  "token multiset \<Rightarrow> PageId set \<Rightarrow> PageId set \<Rightarrow> 'r BufferManager \<Rightarrow> 'r BufferManager \<Rightarrow> bool" where
  "moved R U U' s s' \<longleftrightarrow>
     (\<forall>p f. Pin p f \<in># R \<or> Loading p f \<in># R \<or> Evicting p f \<in># R \<longrightarrow> content_of s' f = content_of s f) \<and>
     (\<forall>p f. Pin p f \<in># R \<longrightarrow> dirty_epoch (meta_of s f) \<le> dirty_epoch (meta_of s' f) \<and>
        (p \<in> U - U' \<longrightarrow> dirty_epoch (meta_of s f) < dirty_epoch (meta_of s' f))) \<and>
     (state_changed s' = {} \<or> state_changed s' = state_changed s \<and>
        (\<forall>p. transient (entry_of s p) \<longrightarrow> entry_of s' p = entry_of s p)) \<and>
     max_page_count (page_table s') = max_page_count (page_table s) \<and> options s' = options s"

lemma moved_refl [simp]: "moved R U U s s"
  by (simp add: moved_def)

lemma moved_trans:
  assumes a: "moved R U U s t" and b: "moved R U U' t u"
  shows "moved R U U' s u"
proof -
  have "dirty_epoch (meta_of s f) \<le> dirty_epoch (meta_of u f) \<and>
      (p \<in> U - U' \<longrightarrow> dirty_epoch (meta_of s f) < dirty_epoch (meta_of u f))" if "Pin p f \<in># R" for p f
    using a b that unfolding moved_def by (meson order_trans order_le_less_trans)
  moreover have "content_of u f = content_of s f"
    if "Pin p f \<in># R \<or> Loading p f \<in># R \<or> Evicting p f \<in># R" for p f
    using a b that unfolding moved_def by metis
  moreover have "state_changed u = {} \<or> state_changed u = state_changed s \<and>
      (\<forall>p. transient (entry_of s p) \<longrightarrow> entry_of u p = entry_of s p)"
    using a b unfolding moved_def by metis
  moreover have "max_page_count (page_table u) = max_page_count (page_table s) \<and> options u = options s"
    using a b unfolding moved_def by metis
  ultimately show ?thesis unfolding moved_def by blast
qed

lemma movedI:
  assumes "meta_of s' = (meta_of s)(f := m)" and "entry_of s' = (entry_of s)(p := e)"
    and "content_of s' = content_of s \<or> (\<forall>q. Pin q f \<notin># R \<and> Loading q f \<notin># R \<and> Evicting q f \<notin># R) \<and>
      content_of s' = (content_of s)(f := c)"
    and "(\<forall>q. Pin q f \<notin># R) \<or> dirty_epoch (meta_of s f) \<le> dirty_epoch m"
    and "state_changed s' = {} \<or> state_changed s' = state_changed s \<and> (\<not> transient (entry_of s p) \<or> entry_of s p = e)"
    and "max_page_count (page_table s') = max_page_count (page_table s)" and "options s' = options s"
  shows "moved R U U s s'"
  unfolding moved_def using assms by (intro conjI) auto

subsection \<open>The parts of a critical section\<close>

definition bm_good ::
  "('r \<Rightarrow> bool) \<Rightarrow> ('r \<Rightarrow> nat) \<Rightarrow> ('r \<Rightarrow> FrameId set) \<Rightarrow> ('r \<Rightarrow> FrameId set) \<Rightarrow> (PageId \<Rightarrow> Page) \<Rightarrow>
   PageId set \<Rightarrow> FrameId set \<Rightarrow> token multiset \<Rightarrow> 'r BufferManager \<Rightarrow> bool" where
  "bm_good rinv capacity tracked candidates D U X T s \<longleftrightarrow>
     bm_inv rinv capacity tracked candidates X s \<and> tok_inv D U T (meta_of s) (entry_of s) (content_of s)"

abbreviation page_contents :: "(PageId \<Rightarrow> Page) \<Rightarrow> token multiset \<Rightarrow> 'r BufferManager \<Rightarrow> PageId \<Rightarrow> Page option" where
  "page_contents D T s \<equiv> contents D T (entry_of s) (content_of s)"

context replacer_contract begin

abbreviation good ::
  "(PageId \<Rightarrow> Page) \<Rightarrow> PageId set \<Rightarrow> FrameId set \<Rightarrow> token multiset \<Rightarrow> 'r BufferManager \<Rightarrow> bool" where
  "good D U X T s \<equiv> bm_good inv capacity tracked candidates D U X T s"

lemma goodD:
  assumes "good D U X T s"
  shows "binv X s" and "tok_inv D U T (meta_of s) (entry_of s) (content_of s)" and "pt_inv (page_table s)"
    and "fa_inv (frame_allocator s)" and "entry_ok (entry_of s p)" and "coherent (meta_of s) (entry_of s)"
proof -
  show b: "binv X s" and "tok_inv D U T (meta_of s) (entry_of s) (content_of s)"
    using assms by (simp_all add: bm_good_def)
  note i = binv_parts(1,2,6) [OF b]
  show "pt_inv (page_table s)" "fa_inv (frame_allocator s)" "coherent (meta_of s) (entry_of s)" using i by simp_all
  show "entry_ok (entry_of s p)" using pt_inv_parts(7) [OF i(2)] .
qed

lemma good_alloc:
  assumes g: "good D U {} T s" and run: "allocate_frame s = (r, s')"
  shows "r = Inr None \<and> s' = s \<or>
    (\<exists>f. r = Inr (Some f) \<and> good D U {f} T s' \<and> fm_state (meta_of s' f) = kFree \<and> entry_of s' = entry_of s \<and>
      moved R U U s s' \<and> page_contents D T' s' = page_contents D T' s)"
proof -
  from allocate_frame_spec [OF goodD(1) [OF g] run] show ?thesis
  proof
    assume "\<exists>f. r = Inr (Some f) \<and> binv {f} s' \<and> meta_of s' = meta_of s \<and> page_table s' = page_table s \<and>
      content_of s' = content_of s \<and> state_changed s' = state_changed s \<and> fm_state (meta_of s f) = kFree \<and>
      unat f < length (frame_meta s) \<and> options s' = options s \<and> frame_meta s' = frame_meta s"
    then show ?thesis using g by (auto simp: bm_good_def moved_def)
  qed simp
qed

lemma good_free:
  assumes g: "good D U {f} T s"
  shows "\<exists>s'. on_allocator (FreeFrame f) s = (Inr (), s') \<and> good D U {} T s' \<and> entry_of s' = entry_of s \<and>
    meta_of s' = meta_of s \<and> content_of s' = content_of s \<and>
    moved R U U s s' \<and> page_contents D T' s' = page_contents D T' s"
  using free_frame_spec [OF goodD(1) [OF g]] g by (auto simp: bm_good_def moved_def)

lemma good_notify [simp]: "good D U X T (s\<lparr>state_changed := w\<rparr>) = good D U X T s"
  by (simp add: bm_good_def)

lemma moved_notify: "moved R U U s (s\<lparr>state_changed := {}\<rparr>)"
  by (simp add: moved_def)

text \<open>A victim is taken out of the replacer and its page becomes evicting.\<close>

lemma good_victim:
  assumes g: "good D U {} T s" and run: "SelectVictimLocked ops s = (r, s')"
  shows "r = Inr MustWait \<and> s' = s \<and> (\<exists>p. transient (entry_of s p)) \<or>
    r = Inl (runtime_error ''no frame available'') \<and> s' = s \<or>
    (\<exists>f p d e. r = Inr (MustEvict f p d e) \<and> good D U {} (add_mset (Evicting p f) T) s' \<and>
      entry_of s' = (entry_of s)(p := evicting f) \<and> entry_of s p = resident f \<and>
      (d \<or> content_of s' f = D p) \<and> moved T U U s s' \<and>
      page_contents D (add_mset (Evicting p f) T) s' = page_contents D T s)"
proof -
  note c = goodD(6) [OF g]
  from select_victim_spec [OF goodD(1) [OF g] run] show ?thesis
  proof (elim disjE conjE exE)
    fix f assume "r = Inr MustWait" "s' = s"
      and "fm_state (meta_of s f) = kFrameLoading"
    moreover from this obtain p where "entry_of s p = loading f" using coherent_frameD(2) [OF c, of f] by blast
    then have "transient (entry_of s p)" by (simp add: transient_def)
    ultimately show ?thesis by blast
  next
    fix f assume "r = Inr MustWait" "s' = s"
      and "fm_state (meta_of s f) = kFrameEvicting"
    moreover from this obtain p where "entry_of s p = evicting f" using coherent_frameD(4) [OF c, of f] by blast
    then have "transient (entry_of s p)" by (simp add: transient_def)
    ultimately show ?thesis by blast
  next
    fix f p
    let ?M = "meta_of s"
    assume a: "r = Inr (MustEvict f p (dirty (?M f)) (dirty_epoch (?M f)))"
      "fm_state (?M f) = kFrameResident" "pin_count (?M f) = 0" "fm_page_id (?M f) = Some p"
      "binv {} s'" "meta_of s' = ?M(f := (?M f)\<lparr>fm_state := kFrameEvicting\<rparr>)"
      "entry_of s' = (entry_of s)(p := evicting f)" "content_of s' = content_of s"
      "state_changed s' = state_changed s" "options s' = options s"
      "max_page_count (page_table s') = max_page_count (page_table s)"
    note tok = tok_evict [OF goodD(2) [OF g] a(2-4)]
    have e: "entry_of s p = resident f" using coherent_frameD(3) [OF c a(2)] a(4) by auto
    have "page_contents D (add_mset (Evicting p f) T) s' = page_contents D T s"
      by (auto simp: contents_def fun_eq_iff a(7,8) e creating_entry [OF goodD(2) [OF g]])
    moreover have "moved T U U s s'"
      by (rule movedI [OF a(6,7)]) (use a e in \<open>simp_all add: transient_def\<close>)
    ultimately show ?thesis using a tok e by (auto simp: bm_good_def)
  qed auto
qed

end

end
