(* ===== verification/Buffer_Sections.thy ===== *)
theory Buffer_Sections
  imports Buffer_Ownership
begin

text \<open>
  The critical sections of the buffer manager, one by one: which tokens a thread holds at each
  program point, and what a critical section does to them, to the other threads and to the
  contents of the pages.
\<close>

context replacer_contract begin

subsection \<open>Changes of one frame\<close>

lemma good_change:
  assumes g: "good D U X T s" and f: "unat f < length (frame_meta s)"
    and tok: "tok_inv D U' T' ((meta_of s)(f := m)) (page_entry (page_table s')) (content_of s)"
    and pt: "pt_inv (page_table s')"
    and r: "inv (replacer s')" "capacity (replacer s') = capacity (replacer s)"
      "tracked (replacer s') =
        (if fm_state m = kFrameResident then insert f (tracked (replacer s)) else tracked (replacer s) - {f})"
      "candidates (replacer s') = (if fm_state m = kFrameResident \<and> pin_count m = 0
        then insert f (candidates (replacer s)) else candidates (replacer s) - {f})"
    and X': "fm_state (meta_of s f) \<noteq> kFree \<or> f \<in> X" "X' = (if fm_state m = kFree then insert f X else X - {f})"
    and s': "frame_allocator s' = frame_allocator s" "frame_meta s' = (frame_meta s)[unat f := m]"
  shows "good D U' X' T' s' \<and> meta_of s' = (meta_of s)(f := m) \<and> content_of s' = content_of s"
proof -
  have M: "meta_of s' = (meta_of s)(f := m)"
    using meta_of_put [OF f, of m] meta_of_cong [of s' "put_meta f m s"] s' by (simp add: put_meta_def)
  have C: "content_of s' = content_of s" using s' by (simp add: content_of_def fun_eq_iff)
  have "binv X' ((put_meta f m s)\<lparr>page_table := page_table s', replacer := replacer s'\<rparr>)"
    by (rule frame_change [OF goodD(1) [OF g] f pt tok_invD(1) [OF tok] r]) (use X' in auto)
  then have "binv X' s'" by (subst (asm) binv_cong [of _ s']) (use s' in \<open>simp_all add: put_meta_def\<close>)
  then show ?thesis using tok M C by (simp add: bm_good_def)
qed

lemma track_frame:
  assumes "inv (replacer s)" and "unat f < capacity (replacer s)"
  shows "\<exists>r'. thenA (on_replacer (RecordAccess ops f)) (on_replacer (SetEvictable ops f b)) s =
      (Inr (), s\<lparr>replacer := r'\<rparr>) \<and> inv r' \<and> capacity r' = capacity (replacer s) \<and>
    tracked r' = insert f (tracked (replacer s)) \<and>
    candidates r' = (if b then insert f (candidates (replacer s)) else candidates (replacer s) - {f})"
proof -
  obtain r1 where r1: "RecordAccess ops f (replacer s) = (Inr (), r1)" "inv r1"
      "capacity r1 = capacity (replacer s)" "tracked r1 = insert f (tracked (replacer s))"
      "candidates r1 = candidates (replacer s)"
    using access [OF assms] by blast
  obtain r2 where r2: "SetEvictable ops f b r1 = (Inr (), r2)" "inv r2" "capacity r2 = capacity r1"
      "tracked r2 = tracked r1" "candidates r2 = (if b then insert f (candidates r1) else candidates r1 - {f})"
    using evictable [OF r1(2), of f b] r1(4) by blast
  have "on_replacer (RecordAccess ops f) s = (Inr (), s\<lparr>replacer := r1\<rparr>)"
    using r1(1) by (rule on_replacer_eval)
  moreover have "on_replacer (SetEvictable ops f b) (s\<lparr>replacer := r1\<rparr>) = (Inr (), s\<lparr>replacer := r2\<rparr>)"
    using r2(1) by (simp add: on_replacer_def zoomA_def)
  ultimately show ?thesis using r1 r2 by (intro exI [where x = r2]) (simp add: thenA_Inr)
qed

lemma track_frame_then:
  assumes "thenA (on_replacer (RecordAccess ops f)) (on_replacer (SetEvictable ops f b)) s = (Inr (), s')"
  shows "thenA (on_replacer (RecordAccess ops f)) (thenA (on_replacer (SetEvictable ops f b)) m) s = m s'"
  using assms by (auto simp: thenA_def bindA_def split: prod.splits sum.splits)

text \<open>An eviction ends: the frame is empty and in the hands of the thread.\<close>

lemma good_finish:
  assumes g: "good D U {} (add_mset (Evicting p f) T) s" and cl: "content_of s f = D p"
  shows "\<exists>s'. finish_eviction f p s = (Inr (), s') \<and> good D U {f} T s' \<and>
    entry_of s' = (entry_of s)(p := on_disk) \<and> fm_state (meta_of s' f) = kFree \<and> moved T U U s s' \<and>
    page_contents D T s' = page_contents D (add_mset (Evicting p f) T) s"
proof -
  note d = duty_frame(2) [OF goodD(2) [OF g], of p f, simplified]
  obtain t where t: "SetNonResident p (page_table s) = (Inr (), t)" "pt_inv t"
      "max_page_count t = max_page_count (page_table s)" "page_entry t = (entry_of s)(p := on_disk)"
    using SetNonResident_spec [OF goodD(3) [OF g], of p] d by auto
  let ?s' = "(put_meta f empty_meta (s\<lparr>page_table := t\<rparr>))\<lparr>state_changed := {}\<rparr>"
  have f: "unat f < length (frame_meta s)" using d by (intro meta_of_in_range) simp
  have run: "finish_eviction f p s = (Inr (), ?s')"
    by (simp add: finish_eviction_def thenA_Inr on_page_table_eval t(1))
  have r: "f \<notin> tracked (replacer s)" "f \<notin> candidates (replacer s)"
    using binv_parts(9,10) [OF goodD(1) [OF g]] d by auto
  have "good D U {f} T ?s' \<and> meta_of ?s' = (meta_of s)(f := empty_meta) \<and> content_of ?s' = content_of s"
    by (rule good_change [OF g f]) (use d t r tok_finish [OF goodD(2) [OF g]] binv_parts(3) [OF goodD(1) [OF g]]
      in \<open>simp_all add: put_meta_def\<close>)
  moreover have "moved T U U s ?s'"
    by (rule movedI [where f = f and m = empty_meta and p = p and e = on_disk])
      (use calculation t no_pin [OF goodD(2) [OF g], of f] d in auto)
  moreover have "page_contents D T ?s' = page_contents D (add_mset (Evicting p f) T) s"
    using calculation t(4) creating_entry [OF goodD(2) [OF g], of p] d cl
    by (auto simp: contents_def fun_eq_iff)
  ultimately show ?thesis using run t by auto
qed

text \<open>An eviction fails: the page is resident again, with the dirty bit it had.\<close>

lemma good_restore:
  assumes g: "good D U {} (add_mset (Evicting p f) T) s" and cl: "d \<or> content_of s f = D p"
  shows "\<exists>s'. fail_eviction ops f p d e x s = (Inl x, s') \<and> good D U {} T s' \<and>
    entry_of s' = (entry_of s)(p := resident f) \<and> moved T U U s s' \<and>
    page_contents D T s' = page_contents D (add_mset (Evicting p f) T) s \<and>
    meta_of s' = (meta_of s)(f := \<lparr>fm_page_id = Some p, pin_count = 0, dirty = d, dirty_epoch = e, fm_state = kFrameResident\<rparr>)"
proof -
  note dt = duty_frame(2) [OF goodD(2) [OF g], of p f, simplified]
  let ?m = "\<lparr>fm_page_id = Some p, pin_count = 0, dirty = d, dirty_epoch = e, fm_state = kFrameResident\<rparr>"
  obtain t1 where t1: "SetNonResident p (page_table s) = (Inr (), t1)" "pt_inv t1"
      "max_page_count t1 = max_page_count (page_table s)" "page_entry t1 = (entry_of s)(p := on_disk)"
    using SetNonResident_spec [OF goodD(3) [OF g], of p] dt by auto
  obtain t where t: "SetResident p f t1 = (Inr (), t)" "pt_inv t"
      "max_page_count t = max_page_count (page_table s)" "page_entry t = (entry_of s)(p := resident f)"
    using SetResident_spec [OF t1(2), of p f] t1(3,4) by auto
  let ?s1 = "put_meta f ?m (s\<lparr>page_table := t\<rparr>)"
  have f: "unat f < length (frame_meta s)" using dt by (intro meta_of_in_range) simp
  obtain r where r: "thenA (on_replacer (RecordAccess ops f)) (on_replacer (SetEvictable ops f True)) ?s1 =
        (Inr (), ?s1\<lparr>replacer := r\<rparr>)" "inv r" "capacity r = capacity (replacer s)"
      "tracked r = insert f (tracked (replacer s))" "candidates r = insert f (candidates (replacer s))"
    using track_frame [of ?s1 f True] f binv_parts(3,5) [OF goodD(1) [OF g]] by auto
  let ?s' = "?s1\<lparr>replacer := r, state_changed := {}\<rparr>"
  have st: "page_state p s = (Inr kEvicting, s)" using page_state_used [OF goodD(3) [OF g], of p] dt by simp
  have "RestoreEvictedFrameLocked ops f p d e s = (Inr (), ?s1\<lparr>replacer := r\<rparr>)"
    by (simp add: RestoreEvictedFrameLocked_def bindA_Inr [of "page_state p", OF st] thenA_Inr on_page_table_eval t1(1) t(1) r(1))
  then have run: "fail_eviction ops f p d e x s = (Inl x, ?s')"
    by (simp add: fail_eviction_def thenA_Inr)
  have "good D U {} T ?s' \<and> meta_of ?s' = (meta_of s)(f := ?m) \<and> content_of ?s' = content_of s"
    by (rule good_change [OF g f]) (use dt t r tok_restore [OF goodD(2) [OF g] cl refl, of e]
      in \<open>simp_all add: put_meta_def\<close>)
  moreover have "moved T U U s ?s'"
    by (rule movedI [where f = f and m = ?m and p = p and e = "resident f"])
      (use calculation t no_pin [OF goodD(2) [OF g], of f] dt in auto)
  moreover have "page_contents D T ?s' = page_contents D (add_mset (Evicting p f) T) s"
    using calculation t(4) creating_entry [OF goodD(2) [OF g], of p] dt
    by (auto simp: contents_def fun_eq_iff)
  ultimately show ?thesis using run t by auto
qed

lemma make_guard:
  "good D U X T s \<Longrightarrow> fm_state (meta_of s f) \<noteq> kFree \<Longrightarrow> MakeGuardLocked p f s =
     (Inr (Return (Some \<lparr>guard_page_id = p, guard_frame_id = f\<rparr>)), s)"
  using binv_parts(7) [OF goodD(1), of D U X T s f] page_ref_ok [OF goodD(4), of D U X T s f]
  by (simp add: MakeGuardLocked_def thenA_Inr)

text \<open>A page is read in: before the read, and after it.\<close>

lemma good_begin_load:
  assumes g: "good D U {f} T s" and e: "entry_of s p = on_disk" and cr: "Creating p \<notin># T"
  shows "\<exists>s'. FetchPage_begin_load p f s = (Inr (Unlock (Load_read p f)), s') \<and>
    good D U {} (add_mset (Loading p f) T) s' \<and> moved T U U s s' \<and>
    page_contents D (add_mset (Loading p f) T) s' = page_contents D T s"
proof -
  let ?m = "\<lparr>fm_page_id = Some p, pin_count = 1, dirty = False, dirty_epoch = 0, fm_state = kFrameLoading\<rparr>"
  have free: "fm_state (meta_of s f) = kFree" using binv_parts(8) [OF goodD(1) [OF g]] by simp
  have f: "unat f < length (frame_meta s)"
    using binv_range [OF goodD(1) [OF g], of f] binv_parts(7) [OF goodD(1) [OF g], of f] by simp
  obtain t where t: "SetLoading p f (page_table s) = (Inr (), t)" "pt_inv t"
      "max_page_count t = max_page_count (page_table s)" "page_entry t = (entry_of s)(p := loading f)"
    using SetLoading_spec [OF goodD(3) [OF g], of p f] e by auto
  let ?s' = "put_meta f ?m (s\<lparr>page_table := t\<rparr>)"
  have r: "f \<notin> tracked (replacer s)" "f \<notin> candidates (replacer s)"
    using binv_parts(9,10) [OF goodD(1) [OF g]] free by auto
  have good: "good D U {} (add_mset (Loading p f) T) ?s' \<and> meta_of ?s' = (meta_of s)(f := ?m) \<and>
      content_of ?s' = content_of s"
    by (rule good_change [OF g f]) (use t r e binv_parts(3) [OF goodD(1) [OF g]]
        tok_begin_load [OF goodD(2) [OF g] free e cr refl] in \<open>simp_all add: put_meta_def\<close>)
  have "page_ref f ?s' = (Inr (), ?s')"
    using good binv_parts(7) [OF goodD(1), of D U "{}" "add_mset (Loading p f) T" ?s' f]
    by (intro page_ref_ok) (auto dest: goodD(4))
  then have run: "FetchPage_begin_load p f s = (Inr (Unlock (Load_read p f)), ?s')"
    by (simp add: FetchPage_begin_load_def thenA_Inr on_page_table_eval t(1))
  have "moved T U U s ?s'"
    by (rule movedI [where f = f and m = ?m and p = p and e = "loading f"])
      (use good t no_pin [OF goodD(2) [OF g], of f] free e in \<open>auto simp: transient_def\<close>)
  moreover have "page_contents D (add_mset (Loading p f) T) ?s' = page_contents D T s"
    using good t(4) e by (auto simp: contents_def fun_eq_iff)
  ultimately show ?thesis using run good by blast
qed

lemma good_loaded:
  assumes g: "good D U {} (add_mset (Loading p f) T) s" and cl: "content_of s f = D p"
  shows "\<exists>s'. FetchPage_loaded ops p f s =
      (Inr (Return (Some \<lparr>guard_page_id = p, guard_frame_id = f\<rparr>)), s') \<and>
    good D U {} (add_mset (Pin p f) T) s' \<and> moved T U U s s' \<and>
    page_contents D (add_mset (Pin p f) T) s' = page_contents D (add_mset (Loading p f) T) s"
proof -
  note dt = duty_frame(1) [OF goodD(2) [OF g], of p f, simplified]
  let ?m = "(meta_of s f)\<lparr>fm_state := kFrameResident, dirty := False, dirty_epoch := 0\<rparr>"
  have f: "unat f < length (frame_meta s)" using dt by (intro meta_of_in_range) simp
  obtain t where t: "SetResident p f (page_table s) = (Inr (), t)" "pt_inv t"
      "max_page_count t = max_page_count (page_table s)" "page_entry t = (entry_of s)(p := resident f)"
    using SetResident_spec [OF goodD(3) [OF g], of p f] dt by auto
  let ?s1 = "put_meta f ?m s\<lparr>page_table := t\<rparr>"
  obtain r where r: "thenA (on_replacer (RecordAccess ops f)) (on_replacer (SetEvictable ops f False)) ?s1 =
        (Inr (), ?s1\<lparr>replacer := r\<rparr>)" "inv r" "capacity r = capacity (replacer s)"
      "tracked r = insert f (tracked (replacer s))" "candidates r = candidates (replacer s) - {f}"
    using track_frame [of ?s1 f False] f binv_parts(3,5) [OF goodD(1) [OF g]] by auto
  let ?s' = "?s1\<lparr>replacer := r, state_changed := {}\<rparr>"
  have good: "good D U {} (add_mset (Pin p f) T) ?s' \<and> meta_of ?s' = (meta_of s)(f := ?m) \<and>
      content_of ?s' = content_of s"
    by (rule good_change [OF g f]) (use dt t r tok_loaded [where C = "content_of s", OF goodD(2) [OF g] cl refl]
      in \<open>simp_all add: put_meta_def\<close>)
  then have "MakeGuardLocked p f ?s' = (Inr (Return (Some \<lparr>guard_page_id = p, guard_frame_id = f\<rparr>)), ?s')"
    by (intro make_guard [of D U "{}" "add_mset (Pin p f) T"]) auto
  then have run: "FetchPage_loaded ops p f s =
      (Inr (Return (Some \<lparr>guard_page_id = p, guard_frame_id = f\<rparr>)), ?s')"
    by (simp add: FetchPage_loaded_def get_meta_in_range [OF f] thenA_Inr on_page_table_eval t(1)
        track_frame_then [OF r(1)])
  have "moved T U U s ?s'"
    by (rule movedI [where f = f and m = ?m and p = p and e = "resident f"])
      (use good t no_pin [OF goodD(2) [OF g], of f] dt in auto)
  moreover have "page_contents D (add_mset (Pin p f) T) ?s' = page_contents D (add_mset (Loading p f) T) s"
    using good t(4) creating_entry [OF goodD(2) [OF g], of p] dt cl
    by (auto simp: contents_def fun_eq_iff)
  ultimately show ?thesis using run good by blast
qed

lemma good_load_failed:
  assumes g: "good D U {} (add_mset (Loading p f) T) s"
  shows "\<exists>s'. FetchPage_load_failed p f x s = (Inl x, s') \<and> good D U {} T s' \<and> moved T U U s s' \<and>
    page_contents D T s' = page_contents D (add_mset (Loading p f) T) s"
proof -
  note dt = duty_frame(1) [OF goodD(2) [OF g], of p f, simplified]
  let ?s1 = "put_meta f empty_meta s"
  have f: "unat f < length (frame_meta s)" using dt by (intro meta_of_in_range) simp
  have al: "f \<in> allocated (frame_allocator s)" using binv_parts(7) [OF goodD(1) [OF g]] dt by simp
  obtain a where a: "FreeFrame f (frame_allocator s) = (Inr (), a)" "fa_inv a"
      "fa_frame_count a = fa_frame_count (frame_allocator s)" "frames a = frames (frame_allocator s)"
      "allocated a = allocated (frame_allocator s) - {f}"
    using FreeFrame_spec [OF goodD(4) [OF g] al] by blast
  obtain t where t: "SetNonResident p (page_table s) = (Inr (), t)" "pt_inv t"
      "max_page_count t = max_page_count (page_table s)" "page_entry t = (entry_of s)(p := on_disk)"
    using SetNonResident_spec [OF goodD(3) [OF g], of p] dt by auto
  let ?s2 = "?s1\<lparr>page_table := t\<rparr>"
  let ?s' = "?s1\<lparr>frame_allocator := a, page_table := t, state_changed := {}\<rparr>"
  have run: "FetchPage_load_failed p f x s = (Inl x, ?s')"
    by (simp add: FetchPage_load_failed_def thenA_Inr on_allocator_eval a(1) on_page_table_eval t(1))
  have r: "f \<notin> tracked (replacer s)" "f \<notin> candidates (replacer s)"
    using binv_parts(9,10) [OF goodD(1) [OF g]] dt by auto
  have "good D U {f} T ?s2 \<and> meta_of ?s2 = (meta_of s)(f := empty_meta) \<and> content_of ?s2 = content_of s"
    by (rule good_change [OF g f]) (use dt t r tok_load_failed [OF goodD(2) [OF g]] binv_parts(3) [OF goodD(1) [OF g]]
      in \<open>simp_all add: put_meta_def\<close>)
  note s2 = this [THEN conjunct1] this [THEN conjunct2, THEN conjunct1] this [THEN conjunct2, THEN conjunct2]
  obtain s3 where s3: "on_allocator (FreeFrame f) ?s2 = (Inr (), s3)" "good D U {} T s3" "entry_of s3 = entry_of ?s2"
      "meta_of s3 = meta_of ?s2" "content_of s3 = content_of ?s2"
    using good_free [OF s2(1)] by blast
  have "on_allocator (FreeFrame f) ?s2 = (Inr (), ?s2\<lparr>frame_allocator := a\<rparr>)"
    by (rule on_allocator_eval) (simp add: a(1))
  then have "s3 = ?s1\<lparr>frame_allocator := a, page_table := t\<rparr>" using s3(1) by simp
  then have s': "good D U {} T ?s'" "entry_of ?s' = (entry_of s)(p := on_disk)"
      "meta_of ?s' = (meta_of s)(f := empty_meta)" "content_of ?s' = content_of s"
    using s3(2-5) s2(2,3) t(4) good_notify [of D U "{}" T "{}" s3] by (auto simp: content_of_def fun_eq_iff)
  have "moved T U U s ?s'"
    by (rule movedI [where f = f and m = empty_meta and p = p and e = on_disk])
      (use s' t no_pin [OF goodD(2) [OF g], of f] dt in auto)
  moreover have "page_contents D T ?s' = page_contents D (add_mset (Loading p f) T) s"
    using s' creating_entry [OF goodD(2) [OF g], of p] dt by (auto simp: contents_def fun_eq_iff)
  ultimately show ?thesis using run s' by blast
qed

text \<open>A change of the metadata of a resident frame, without a change of its page's entry.\<close>

lemma good_meta:
  assumes g: "good D U {} T s" and st: "fm_state (meta_of s f) = kFrameResident" "fm_page_id (meta_of s f) = Some p"
    and tok: "tok_inv D U' T' ((meta_of s)(f := m)) (entry_of s) (content_of s)"
    and m: "fm_state m = kFrameResident" and mv: "dirty_epoch (meta_of s f) \<le> dirty_epoch m"
      "U' = U \<or> U' = U - {p} \<and> dirty_epoch (meta_of s f) < dirty_epoch m" and sub: "\<And>q g. Pin q g \<in># R \<Longrightarrow> Pin q g \<in># T"
    and r: "inv (replacer s')" "capacity (replacer s') = capacity (replacer s)"
      "tracked (replacer s') = insert f (tracked (replacer s))"
      "candidates (replacer s') = (if pin_count m = 0
        then insert f (candidates (replacer s)) else candidates (replacer s) - {f})"
    and s': "frame_allocator s' = frame_allocator s" "page_table s' = page_table s"
      "frame_meta s' = (frame_meta s)[unat f := m]" "options s' = options s"
      "state_changed s' = {} \<or> state_changed s' = state_changed s"
    and cr: "\<And>q. Creating q \<in># T' \<longleftrightarrow> Creating q \<in># T"
  shows "good D U' {} T' s' \<and> meta_of s' = (meta_of s)(f := m) \<and> content_of s' = content_of s \<and> moved R U U' s s' \<and>
    page_contents D T' s' = page_contents D T s"
proof -
  have f: "unat f < length (frame_meta s)" using st by (intro meta_of_in_range) simp
  have good: "good D U' {} T' s' \<and> meta_of s' = (meta_of s)(f := m) \<and> content_of s' = content_of s"
    by (rule good_change [OF g f]) (use st m r s' tok goodD(3) [OF g] in simp_all)
  have only: "h = f" if "Pin p h \<in># R" for h
    using pin_resident(2) [OF goodD(2) [OF g] sub [OF that]] st coherent_unique [OF goodD(6) [OF g]] by metis
  have "moved R U U' s s'"
    unfolding moved_def
  proof (intro conjI allI impI)
    fix q g assume q: "Pin q g \<in># R"
    have "dirty_epoch (meta_of s g) \<le> dirty_epoch (meta_of s' g)" using good mv(1) by simp
    then show "dirty_epoch (meta_of s g) \<le> dirty_epoch (meta_of s' g)" .
    assume "q \<in> U - U'"
    then have "q = p" "dirty_epoch (meta_of s f) < dirty_epoch m" using mv(2) by auto
    moreover from this have "g = f" using only q by simp
    ultimately show "dirty_epoch (meta_of s g) < dirty_epoch (meta_of s' g)" using good by simp
  qed (use good s' in auto)
  moreover have "page_contents D T' s' = page_contents D T s"
    using good s' by (simp add: contents_def fun_eq_iff cr)
  ultimately show ?thesis using good by simp
qed

lemma resident_frame:
  assumes g: "good D U X T s" and e: "entry_of s p = resident f"
  shows "fm_state (meta_of s f) = kFrameResident" and "fm_page_id (meta_of s f) = Some p"
    and "unat f < length (frame_meta s)" and "get_meta f s = meta_of s f"
    and "frame_for_page p s = (Inr f, s)" and "f \<in> tracked (replacer s)" and "unat f < capacity (replacer s)"
proof -
  show st: "fm_state (meta_of s f) = kFrameResident" and "fm_page_id (meta_of s f) = Some p"
    using coherent_pageD [OF goodD(6) [OF g], of p f] e by auto
  then show f: "unat f < length (frame_meta s)" by (intro meta_of_in_range) simp
  then show "get_meta f s = meta_of s f" by (rule get_meta_in_range)
  show "frame_for_page p s = (Inr f, s)" by (rule frame_for_page_resident [OF goodD(3) [OF g] e])
  show "f \<in> tracked (replacer s)" using binv_parts(9) [OF goodD(1) [OF g]] st by simp
  show "unat f < capacity (replacer s)" using f binv_parts(5) [OF goodD(1) [OF g]] by simp
qed

lemma good_pin:
  assumes g: "good D U {} T s" and e: "entry_of s p = resident f"
  shows "PinResidentFrameLocked ops p f s = (Inl (overflow_error ''pin count overflow''), s) \<or>
    (\<exists>s'. PinResidentFrameLocked ops p f s = (Inr (), s') \<and> good D U {} (add_mset (Pin p f) T) s' \<and>
      moved T U U s s' \<and> page_contents D (add_mset (Pin p f) T) s' = page_contents D T s)"
proof (cases "pin_count (meta_of s f) = - 1")
  case True
  then show ?thesis
    using resident_frame [OF g e] by (simp add: PinResidentFrameLocked_def)
next
  case False
  note rf = resident_frame [OF g e]
  let ?m = "(meta_of s f)\<lparr>pin_count := pin_count (meta_of s f) + 1\<rparr>"
  let ?s1 = "put_meta f ?m s"
  obtain r where r: "thenA (on_replacer (RecordAccess ops f)) (on_replacer (SetEvictable ops f False)) ?s1 =
        (Inr (), ?s1\<lparr>replacer := r\<rparr>)" "inv r" "capacity r = capacity (replacer s)"
      "tracked r = insert f (tracked (replacer s))" "candidates r = candidates (replacer s) - {f}"
    using track_frame [of ?s1 f False] rf(7) binv_parts(3) [OF goodD(1) [OF g]] by auto
  have run: "PinResidentFrameLocked ops p f s = (Inr (), ?s1\<lparr>replacer := r\<rparr>)"
    using rf False r(1) by (simp add: PinResidentFrameLocked_def)
  have c: "unat (pin_count ?m) = Suc (unat (pin_count (meta_of s f)))"
    using False by (simp add: unatSuc eq_neg_iff_add_eq_0 add.commute)
  have nz: "pin_count (meta_of s f) + 1 \<noteq> 0"
    using False by (simp add: eq_neg_iff_add_eq_0)
  have "good D U {} (add_mset (Pin p f) T) (?s1\<lparr>replacer := r\<rparr>) \<and>
      meta_of (?s1\<lparr>replacer := r\<rparr>) = (meta_of s)(f := ?m) \<and>
      content_of (?s1\<lparr>replacer := r\<rparr>) = content_of s \<and> moved T U U s (?s1\<lparr>replacer := r\<rparr>) \<and>
      page_contents D (add_mset (Pin p f) T) (?s1\<lparr>replacer := r\<rparr>) = page_contents D T s"
    by (rule good_meta [OF g rf(1,2) tok_pin [OF goodD(2) [OF g] e c]])
      (use rf r nz in \<open>simp_all add: put_meta_def\<close>)
  then show ?thesis using run by blast
qed

lemma good_unpin:
  assumes g: "good D U {} (add_mset (Pin p f) T) s" and u: "p \<in> U \<Longrightarrow> \<exists>h. Pin p h \<in># T"
  shows "\<exists>s'. UnpinFrameLocked ops f s = (Inr (), s') \<and> good D U {} T s' \<and> moved T U U s s' \<and>
    page_contents D T s' = page_contents D (add_mset (Pin p f) T) s"
proof -
  note pr = pin_resident [OF goodD(2) [OF g], of p f, simplified]
  note rf = resident_frame [OF g pr(3)]
  let ?m = "(meta_of s f)\<lparr>pin_count := pin_count (meta_of s f) - 1\<rparr>"
  let ?s1 = "put_meta f ?m s"
  have u': "Pin p f \<in># T" if pu: "p \<in> U"
  proof -
    obtain h where h: "Pin p h \<in># T" using u [OF pu] by blast
    then have "entry_of s p = resident h" using pin_resident(3) [OF goodD(2) [OF g], of p h] by simp
    then show ?thesis using h pr(3) by simp
  qed
  have "\<exists>r. UnpinFrameLocked ops f s = (Inr (), ?s1\<lparr>replacer := r\<rparr>) \<and> inv r \<and> capacity r = capacity (replacer s) \<and>
    tracked r = tracked (replacer s) \<and> candidates r =
      (if pin_count ?m = 0 then insert f (candidates (replacer s)) else candidates (replacer s))"
  proof (cases "pin_count ?m = 0")
    case True
    obtain r where r: "SetEvictable ops f True (replacer s) = (Inr (), r)" "inv r" "capacity r = capacity (replacer s)"
        "tracked r = tracked (replacer s)" "candidates r = insert f (candidates (replacer s))"
      using evictable [OF binv_parts(3) [OF goodD(1) [OF g]] rf(6), of True] by auto
    have "UnpinFrameLocked ops f s = (Inr (), ?s1\<lparr>replacer := r\<rparr>)"
      using True rf pr r(1) by (simp add: UnpinFrameLocked_def on_replacer_eval)
    then show ?thesis using r True by (intro exI [where x = r]) simp
  next
    case False
    have "UnpinFrameLocked ops f s = (Inr (), ?s1)"
      using False rf pr by (simp add: UnpinFrameLocked_def)
    moreover have "?s1 = ?s1\<lparr>replacer := replacer s\<rparr>" by (simp add: put_meta_def)
    ultimately show ?thesis using False binv_parts(3) [OF goodD(1) [OF g]]
      by (intro exI [where x = "replacer s"]) simp
  qed
  then obtain r where run: "UnpinFrameLocked ops f s = (Inr (), ?s1\<lparr>replacer := r\<rparr>)"
    and r: "inv r" "capacity r = capacity (replacer s)" "tracked r = tracked (replacer s)" "candidates r =
      (if pin_count ?m = 0 then insert f (candidates (replacer s)) else candidates (replacer s))" by blast
  have nc: "f \<notin> candidates (replacer s)" using binv_parts(10) [OF goodD(1) [OF g]] pr(4) by simp
  have "good D U {} T (?s1\<lparr>replacer := r\<rparr>) \<and>
      meta_of (?s1\<lparr>replacer := r\<rparr>) = (meta_of s)(f := ?m) \<and>
      content_of (?s1\<lparr>replacer := r\<rparr>) = content_of s \<and> moved T U U s (?s1\<lparr>replacer := r\<rparr>) \<and>
      page_contents D T (?s1\<lparr>replacer := r\<rparr>) = page_contents D (add_mset (Pin p f) T) s"
    by (rule good_meta [OF g pr(1,2) tok_unpin [OF goodD(2) [OF g] u' refl]])
      (use rf r nc in \<open>simp_all add: put_meta_def insert_absorb\<close>)
  then show ?thesis using run by blast
qed

text \<open>A new page: its frame is filled with zeros before it is published.\<close>

lemma good_zero:
  assumes g: "good D U {f} T s"
  shows "\<exists>s'. on_allocator (update_page f (fill 0)) s = (Inr (), s') \<and> good D U {f} T s' \<and>
    entry_of s' = entry_of s \<and> meta_of s' = meta_of s \<and> content_of s' = (content_of s)(f := zero_page) \<and>
    moved T U U s s' \<and> page_contents D T s' = page_contents D T s"
proof -
  let ?fa = "frame_allocator s"
  have al: "f \<in> allocated ?fa" using binv_parts(7) [OF goodD(1) [OF g]] by simp
  have f: "unat f < length (frames ?fa)"
    using allocated_bound [OF al] goodD(4) [OF g] by (simp add: fa_inv_def)
  have ok: "page_ok (frames ?fa ! unat f)" using page_ok_frame [OF goodD(4) [OF g] allocated_bound [OF al]] .
  have free: "fm_state (meta_of s f) = kFree" using binv_parts(8) [OF goodD(1) [OF g]] by simp
  obtain a where a: "update_page f (fill 0) ?fa = (Inr (), a)" "fa_inv a" "fa_frame_count a = fa_frame_count ?fa"
      "frames a = (frames ?fa)[unat f := zero_page]" "allocated a = allocated ?fa"
    using update_page_spec [OF goodD(4) [OF g] al, of "fill 0"] ok by (auto simp: fill_zero)
  let ?s' = "s\<lparr>frame_allocator := a\<rparr>"
  have C: "content_of ?s' = (content_of s)(f := zero_page)"
    using f a(4) by (auto simp: content_of_def fun_eq_iff nth_list_update_if unat_eq_iff)
  have "binv {f} ?s'" using goodD(1) [OF g] a by (simp add: bm_inv_def)
  then have good: "good D U {f} T ?s'"
    using tok_content [OF goodD(2) [OF g], of f] free by (simp add: bm_good_def C)
  have "moved T U U s ?s'"
    by (rule movedI [where f = f and m = "meta_of s f" and p = 0 and e = "entry_of s 0" and c = zero_page])
      (use C free_frame_tokens(1-3) [OF goodD(2) [OF g] free] in \<open>simp_all add: fun_upd_triv\<close>)
  moreover have "page_contents D T ?s' = page_contents D T s"
    using contents_free [OF free_frame_tokens(5) [OF goodD(2) [OF g] free] goodD(5) [OF g]] by (simp add: C)
  ultimately show ?thesis using good C by (intro exI [where x = ?s']) (simp add: on_allocator_eval a(1))
qed

lemma good_install:
  assumes g: "good D U {f} (add_mset (Creating p) T) s"
  shows "\<exists>s'. NewPage_install ops p f s = (Inr (Return (Some \<lparr>guard_page_id = p, guard_frame_id = f\<rparr>)), s') \<and>
    good D U {} (add_mset (Pin p f) T) s' \<and> moved T U U s s' \<and>
    page_contents D (add_mset (Pin p f) T) s' =
      (page_contents D (add_mset (Creating p) T) s)(p := Some zero_page)"
proof -
  let ?m = "\<lparr>fm_page_id = Some p, pin_count = 1, dirty = True, dirty_epoch = 1, fm_state = kFrameResident\<rparr>"
  obtain s0 where z: "on_allocator (update_page f (fill 0)) s = (Inr (), s0)" "good D U {f} (add_mset (Creating p) T) s0"
      "entry_of s0 = entry_of s" "meta_of s0 = meta_of s" "content_of s0 = (content_of s)(f := zero_page)"
      "moved (add_mset (Creating p) T) U U s s0"
      "page_contents D (add_mset (Creating p) T) s0 = page_contents D (add_mset (Creating p) T) s"
    using good_zero [OF g] by blast
  have e: "entry_of s p = on_disk" using creating_entry [OF goodD(2) [OF g], of p] by simp
  have free: "fm_state (meta_of s0 f) = kFree" using binv_parts(8) [OF goodD(1) [OF z(2)]] by simp
  have f: "unat f < length (frame_meta s0)"
    using binv_range [OF goodD(1) [OF z(2)], of f] binv_parts(7) [OF goodD(1) [OF z(2)], of f] by simp
  obtain t where t: "SetResident p f (page_table s0) = (Inr (), t)" "pt_inv t"
      "max_page_count t = max_page_count (page_table s0)" "page_entry t = (entry_of s0)(p := resident f)"
    using SetResident_spec [OF goodD(3) [OF z(2)], of p f] e z(3) by auto
  let ?s1 = "put_meta f ?m s0\<lparr>page_table := t\<rparr>"
  obtain r where r: "thenA (on_replacer (RecordAccess ops f)) (on_replacer (SetEvictable ops f False)) ?s1 =
        (Inr (), ?s1\<lparr>replacer := r\<rparr>)" "inv r" "capacity r = capacity (replacer s0)"
      "tracked r = insert f (tracked (replacer s0))" "candidates r = candidates (replacer s0) - {f}"
    using track_frame [of ?s1 f False] f binv_parts(3,5) [OF goodD(1) [OF z(2)]] by auto
  let ?s' = "?s1\<lparr>replacer := r, state_changed := {}\<rparr>"
  have tok: "tok_inv D U (add_mset (Pin p f) T) ((meta_of s0)(f := ?m)) (page_entry t) (content_of s0)"
    using tok_install [OF goodD(2) [OF z(2)] free refl, of "content_of s0 f"] t(4) by simp
  have good: "good D U {} (add_mset (Pin p f) T) ?s' \<and> meta_of ?s' = (meta_of s0)(f := ?m) \<and>
      content_of ?s' = content_of s0"
    by (rule good_change [OF z(2) f]) (use t r tok in \<open>simp_all add: put_meta_def\<close>)
  then have "MakeGuardLocked p f ?s' = (Inr (Return (Some \<lparr>guard_page_id = p, guard_frame_id = f\<rparr>)), ?s')"
    by (intro make_guard [of D U "{}" "add_mset (Pin p f) T"]) auto
  then have run: "NewPage_install ops p f s = (Inr (Return (Some \<lparr>guard_page_id = p, guard_frame_id = f\<rparr>)), ?s')"
    by (simp add: NewPage_install_def thenA_Inr z(1) on_page_table_eval t(1) track_frame_then [OF r(1)])
  have "moved T U U s0 ?s'"
    by (rule movedI [where f = f and m = ?m and p = p and e = "resident f"])
      (use good t free_frame_tokens(1) [OF goodD(2) [OF z(2)] free] e z(3) in \<open>auto simp: transient_def\<close>)
  moreover have "moved T U U s s0" using z(6) by (simp add: moved_def)
  ultimately have mv: "moved T U U s ?s'" by (rule moved_trans [rotated])
  have "page_contents D (add_mset (Pin p f) T) ?s' =
      (page_contents D (add_mset (Creating p) T) s0)(p := Some zero_page)"
  proof -
    have np: "Creating p \<notin># T" using not_creating(2) tok_invD(4) [OF goodD(2) [OF g]] by (simp add: count_eq_zero_iff)
    show ?thesis
      using good t(4) np by (auto simp: contents_def fun_eq_iff z(5))
  qed
  then show ?thesis using run good mv z(7) by auto
qed

text \<open>The dirty bit: cleared after a flush, set by the client.\<close>

lemma good_clean:
  assumes g: "good D U {} (add_mset (Pin p f) T) s" and cl: "p \<in> U \<or> content_of s f = D p"
    and s': "s' = put_meta f ((meta_of s f)\<lparr>dirty := False\<rparr>) s"
  shows "good D U {} (add_mset (Pin p f) T) s' \<and> moved T U U s s' \<and>
    page_contents D (add_mset (Pin p f) T) s' = page_contents D (add_mset (Pin p f) T) s"
proof -
  let ?m = "(meta_of s f)\<lparr>dirty := False\<rparr>"
  note pr = pin_resident [OF goodD(2) [OF g], of p f, simplified]
  note rf = resident_frame [OF g pr(3)]
  have nc: "f \<notin> candidates (replacer s)" using binv_parts(10) [OF goodD(1) [OF g]] pr(4) by simp
  have tok: "tok_inv D U (add_mset (Pin p f) T) ((meta_of s)(f := ?m)) (entry_of s) (content_of s)"
    by (rule tok_meta [OF goodD(2) [OF g] pr(1,2)]) (use cl pr in auto)
  have "good D U {} (add_mset (Pin p f) T) s' \<and> meta_of s' = (meta_of s)(f := ?m) \<and>
      content_of s' = content_of s \<and> moved T U U s s' \<and>
      page_contents D (add_mset (Pin p f) T) s' = page_contents D (add_mset (Pin p f) T) s"
    by (rule good_meta [OF g pr(1,2) tok])
      (use rf pr nc s' binv_parts(3) [OF goodD(1) [OF g]] in \<open>simp_all add: put_meta_def insert_absorb\<close>)
  then show ?thesis by blast
qed

lemma good_mark:
  assumes g: "good D U {} (add_mset (Pin p f) T) s" and ov: "dirty_epoch (meta_of s f) \<noteq> - 1"
  shows "\<exists>s'. MarkDirty p f s = (Inr (Return None), s') \<and>
    good D (U - {p}) {} (add_mset (Pin p f) T) s' \<and> moved T U (U - {p}) s s' \<and>
    page_contents D (add_mset (Pin p f) T) s' = page_contents D (add_mset (Pin p f) T) s"
proof -
  let ?m = "(meta_of s f)\<lparr>dirty := True, dirty_epoch := dirty_epoch (meta_of s f) + 1\<rparr>"
  let ?s' = "put_meta f ?m s"
  note pr = pin_resident [OF goodD(2) [OF g], of p f, simplified]
  note rf = resident_frame [OF g pr(3)]
  have nc: "f \<notin> candidates (replacer s)" using binv_parts(10) [OF goodD(1) [OF g]] pr(4) by simp
  have tok: "tok_inv D (U - {p}) (add_mset (Pin p f) T) ((meta_of s)(f := ?m)) (entry_of s) (content_of s)"
    by (rule tok_meta [OF goodD(2) [OF g] pr(1,2)]) (use pr in auto)
  have "unat (dirty_epoch (meta_of s f) + 1) = Suc (unat (dirty_epoch (meta_of s f)))"
    using ov by (simp add: unatSuc eq_neg_iff_add_eq_0 add.commute)
  then have lt: "dirty_epoch (meta_of s f) < dirty_epoch (meta_of s f) + 1"
    by (simp add: word_less_nat_alt)
  have "good D (U - {p}) {} (add_mset (Pin p f) T) ?s' \<and> meta_of ?s' = (meta_of s)(f := ?m) \<and>
      content_of ?s' = content_of s \<and> moved T U (U - {p}) s ?s' \<and>
      page_contents D (add_mset (Pin p f) T) ?s' = page_contents D (add_mset (Pin p f) T) s"
    by (rule good_meta [OF g pr(1,2) tok])
      (use rf pr nc lt binv_parts(3) [OF goodD(1) [OF g]] in \<open>simp_all add: put_meta_def insert_absorb\<close>)
  moreover have "MarkDirty p f s = (Inr (Return None), ?s')"
    using rf pr by (simp add: MarkDirty_def)
  ultimately show ?thesis by blast
qed

text \<open>A page identifier comes and goes.\<close>

lemma good_entry:
  assumes g: "good D U {} T s" and t: "pt_inv t" "max_page_count t = max_page_count (page_table s)"
      "page_entry t = (entry_of s)(p := e)" and e: "pe_frame_id (entry_of s p) = None" "pe_frame_id e = None"
    and T': "(T' = T \<and> Creating p \<notin># T) \<or> (T' = add_mset (Creating p) T \<and> Creating p \<notin># T \<and> e = on_disk) \<or>
      T = add_mset (Creating p) T'"
  shows "good D U {} T' (s\<lparr>page_table := t\<rparr>)" and "moved R U U s (s\<lparr>page_table := t\<rparr>)"
proof -
  have "binv {} (s\<lparr>page_table := t\<rparr>)" using entry_change [OF goodD(1) [OF g] t(1,3) e] .
  then show "good D U {} T' (s\<lparr>page_table := t\<rparr>)"
    using tok_entry [OF goodD(2) [OF g] e T'] t(3) by (simp add: bm_good_def)
  have "\<not> transient (entry_of s p)"
    using goodD(5) [OF g, of p] e by (auto simp: transient_def entry_ok_def)
  then show "moved R U U s (s\<lparr>page_table := t\<rparr>)"
    using t by (auto simp: moved_def)
qed

lemma good_alloc_id:
  assumes g: "good D U {} T s" and run: "on_page_table AllocatePageId s = (r, s')"
  shows "r = Inl (runtime_error ''maximum number of pages reached'') \<and> s' = s \<or>
    (\<exists>p. r = Inr p \<and> good D U {} (add_mset (Creating p) T) s' \<and> moved R U U s s' \<and>
      page_contents D T s p = None \<and> page_contents D (add_mset (Creating p) T) s' = page_contents D T s)"
proof -
  obtain t where t: "AllocatePageId (page_table s) = (r, t)" "s' = s\<lparr>page_table := t\<rparr>"
    using run by (cases "AllocatePageId (page_table s)") (simp add: on_page_table_eval)
  note spec = AllocatePageId_spec [OF goodD(3) [OF g] t(1)]
  show ?thesis
  proof (cases r)
    case (Inl e)
    then show ?thesis using spec t by simp
  next
    case (Inr p)
    then have sp: "pt_inv t" "max_page_count t = max_page_count (page_table s)" "entry_of s p = no_entry"
        "page_entry t = (entry_of s)(p := on_disk)" using spec by auto
    have np: "Creating p \<notin># T" using creating_entry [OF goodD(2) [OF g], of p] sp(3) by (auto simp: no_entry_def)
    have "page_contents D (add_mset (Creating p) T) s' = page_contents D T s"
      using sp t(2) by (auto simp: contents_def fun_eq_iff)
    moreover have "page_contents D T s p = None" using sp(3) by (simp add: contents_def)
    ultimately show ?thesis
      using good_entry [OF g sp(1,2,4), of "add_mset (Creating p) T"] np sp(3) t(2) Inr by simp
  qed
qed

lemma good_abandon:
  assumes g: "good D U {} (add_mset (Creating p) T) s"
  shows "\<exists>s'. NewPage_catch p x s = (Inl x, s') \<and> good D U {} T s' \<and> moved T U U s s' \<and>
    page_contents D T s' = page_contents D (add_mset (Creating p) T) s"
proof -
  have e: "entry_of s p = on_disk" using creating_entry [OF goodD(2) [OF g], of p] by simp
  obtain t where t: "FreePageId p (page_table s) = (Inr (), t)" "pt_inv t"
      "max_page_count t = max_page_count (page_table s)" "page_entry t = (entry_of s)(p := no_entry)"
    using FreePageId_spec [OF goodD(3) [OF g], of p] e by auto
  note ge = good_entry [OF g t(2-4)]
  have st: "page_state p s = (Inr kNonResident, s)" using page_state_used [OF goodD(3) [OF g], of p] e by simp
  have "NewPage_catch p x s = (Inl x, s\<lparr>page_table := t, state_changed := {}\<rparr>)"
    by (simp add: NewPage_catch_def bindA_Inr [of "page_state p", OF st] thenA_Inr on_page_table_eval t(1))
  moreover have "page_contents D T (s\<lparr>page_table := t, state_changed := {}\<rparr>) = page_contents D (add_mset (Creating p) T) s"
    using t(4) by (auto simp: contents_def fun_eq_iff)
  moreover have "moved T U U s (s\<lparr>page_table := t, state_changed := {}\<rparr>)"
    using moved_trans [OF ge(2) moved_notify] e by simp
  ultimately show ?thesis using ge(1) [of T] e
    by (intro exI [where x = "s\<lparr>page_table := t, state_changed := {}\<rparr>"])
      (simp add: good_notify [of D U "{}" T "{}" "s\<lparr>page_table := t\<rparr>", simplified])
qed

lemma good_delete_nonresident:
  assumes g: "good D U {} T s" and e: "entry_of s p = on_disk" and np: "Creating p \<notin># T"
  shows "\<exists>s'. on_page_table (FreePageId p) s = (Inr (), s') \<and> good D U {} T s' \<and> moved T U U s s' \<and>
    page_contents D T s' = (page_contents D T s)(p := None)"
proof -
  obtain t where t: "FreePageId p (page_table s) = (Inr (), t)" "pt_inv t"
      "max_page_count t = max_page_count (page_table s)" "page_entry t = (entry_of s)(p := no_entry)"
    using FreePageId_spec [OF goodD(3) [OF g], of p] e by auto
  have "page_contents D T (s\<lparr>page_table := t\<rparr>) = (page_contents D T s)(p := None)"
    using t(4) by (auto simp: contents_def fun_eq_iff)
  then show ?thesis
    using good_entry [OF g t(2-4), of T] e np by (simp add: on_page_table_eval t(1))
qed

lemma good_delete_resident:
  assumes g: "good D U {} T s" and e: "entry_of s p = resident f"
  shows "DeletePage_resident ops p s = (Inl (logic_error ''cannot delete a pinned page''), s) \<and>
      pin_count (meta_of s f) \<noteq> 0 \<or>
    (\<exists>s'. DeletePage_resident ops p s = (Inr (Return None), s') \<and> good D U {} T s' \<and> moved T U U s s' \<and>
      page_contents D T s' = (page_contents D T s)(p := None))"
proof (cases "pin_count (meta_of s f) = 0")
  case False
  then show ?thesis
    using resident_frame [OF g e] by (simp add: DeletePage_resident_def bindA_Inr [of "frame_for_page p"])
next
  case True
  note rf = resident_frame [OF g e]
  obtain r where r: "Remove ops f (replacer s) = (Inr (), r)" "inv r" "capacity r = capacity (replacer s)"
      "tracked r = tracked (replacer s) - {f}" "candidates r = candidates (replacer s) - {f}"
    using remove [OF binv_parts(3) [OF goodD(1) [OF g]] rf(7)] by blast
  obtain t1 where t1: "SetNonResident p (page_table s) = (Inr (), t1)" "pt_inv t1"
      "max_page_count t1 = max_page_count (page_table s)" "page_entry t1 = (entry_of s)(p := on_disk)"
    using SetNonResident_spec [OF goodD(3) [OF g], of p] e by auto
  obtain t where t: "FreePageId p t1 = (Inr (), t)" "pt_inv t"
      "max_page_count t = max_page_count (page_table s)" "page_entry t = (entry_of s)(p := no_entry)"
    using FreePageId_spec [OF t1(2), of p] t1(3,4) by auto
  have al: "f \<in> allocated (frame_allocator s)" using binv_parts(7) [OF goodD(1) [OF g], of f] rf(1) by simp
  obtain a where a: "FreeFrame f (frame_allocator s) = (Inr (), a)"
    using FreeFrame_spec [OF goodD(4) [OF g] al] by blast
  let ?s2 = "put_meta f empty_meta (s\<lparr>replacer := r, page_table := t\<rparr>)"
  let ?s' = "put_meta f empty_meta (s\<lparr>replacer := r\<rparr>)\<lparr>frame_allocator := a, page_table := t, state_changed := {}\<rparr>"
  have run: "DeletePage_resident ops p s = (Inr (Return None), ?s')"
    by (simp add: DeletePage_resident_def bindA_Inr [of "frame_for_page p", OF rf(5)] rf(1,2,4) True thenA_Inr
        on_replacer_eval r(1) on_allocator_eval a on_page_table_eval t1(1) t(1))
  have tok: "tok_inv D U T ((meta_of s)(f := empty_meta)) (page_entry t) (content_of s)"
    unfolding t(4) using tok_delete [OF goodD(2) [OF g] e True] by (simp add: no_entry_def)
  have s2: "good D U {f} T ?s2 \<and> meta_of ?s2 = (meta_of s)(f := empty_meta) \<and> content_of ?s2 = content_of s"
    by (rule good_change [OF g rf(3)]) (use rf t r tok in \<open>simp_all add: put_meta_def\<close>)
  obtain s3 where s3: "on_allocator (FreeFrame f) ?s2 = (Inr (), s3)" "good D U {} T s3" "entry_of s3 = entry_of ?s2"
      "meta_of s3 = meta_of ?s2" "content_of s3 = content_of ?s2"
    using good_free [OF s2 [THEN conjunct1]] by blast
  have "on_allocator (FreeFrame f) ?s2 = (Inr (), ?s2\<lparr>frame_allocator := a\<rparr>)"
    by (rule on_allocator_eval) (simp add: a)
  then have s3': "?s' = s3\<lparr>state_changed := {}\<rparr>" using s3(1) by (cases s) (auto simp: put_meta_def)
  have s': "good D U {} T ?s'" "entry_of ?s' = (entry_of s)(p := no_entry)"
      "meta_of ?s' = (meta_of s)(f := empty_meta)" "content_of ?s' = content_of s"
    unfolding s3' using s3(2-5) s2 t(4) by simp_all
  have np: "\<forall>q. Pin q f \<notin># T" using no_pin [OF goodD(2) [OF g], of f] True by simp
  have "moved T U U s ?s'"
    by (rule movedI [where f = f and m = empty_meta and p = p and e = no_entry])
      (use s' t np in simp_all)
  moreover have "page_contents D T ?s' = (page_contents D T s)(p := None)"
    using s'(2,4) by (auto simp: contents_def fun_eq_iff)
  ultimately show ?thesis using run s'(1) by blast
qed

end

end
