(* ===== verification/Buffer_Threads.thy ===== *)
theory Buffer_Threads
  imports Buffer_Sections
begin

text \<open>
  Each critical section keeps its side of the bargain: from the tokens a thread holds at a
  program point to those of the next one, with the effect its operation may have on the
  contents of the pages.
\<close>

subsection \<open>What a thread holds and knows at a program point\<close>

fun claim :: "requester \<Rightarrow> token multiset" where
  "claim (ForNewPage p) = {#Creating p#}"
| "claim (ForFetchPage p) = {#}"

fun held :: "pc \<Rightarrow> token multiset" where
  "held (NewPage_retry p) = {#Creating p#}"
| "held (Evict_write for f p d e) = add_mset (Evicting p f) (claim for)"
| "held (Evict_done for f p) = add_mset (Evicting p f) (claim for)"
| "held (Evict_failed for f p d e x) = add_mset (Evicting p f) (claim for)"
| "held (Load_read p f) = {#Loading p f#}"
| "held (Load_done p f) = {#Loading p f#}"
| "held (Load_failed p f x) = {#Loading p f#}"
| "held (Flush_write p f e rest) = {#Pin p f#}"
| "held (Flush_done p f e rest) = {#Pin p f#}"
| "held (Flush_failed p f x) = {#Pin p f#}"
| "held (Drop_enter p f) = {#Pin p f#}"
| "held (MarkDirty_enter p f) = {#Pin p f#}"
| "held _ = {#}"

fun requester_ok :: "'r BufferManager \<Rightarrow> requester \<Rightarrow> bool" where
  "requester_ok s (ForNewPage p) \<longleftrightarrow> True"
| "requester_ok s (ForFetchPage p) \<longleftrightarrow> unat p < unat (max_page_count (page_table s))"

fun pc_ok :: "(PageId \<Rightarrow> Page) \<Rightarrow> PageId set \<Rightarrow> 'r BufferManager \<Rightarrow> pc \<Rightarrow> bool" where
  "pc_ok D U s (Evict_write for f p d e) \<longleftrightarrow> (d \<or> content_of s f = D p) \<and> requester_ok s for"
| "pc_ok D U s (Evict_done for f p) \<longleftrightarrow> content_of s f = D p \<and> requester_ok s for"
| "pc_ok D U s (Evict_failed for f p d e x) \<longleftrightarrow> (d \<or> content_of s f = D p) \<and> requester_ok s for"
| "pc_ok D U s (Load_done p f) \<longleftrightarrow> content_of s f = D p"
| "pc_ok D U s (Flush_write p f e rest) \<longleftrightarrow> e \<le> dirty_epoch (meta_of s f)"
| "pc_ok D U s (Flush_done p f e rest) \<longleftrightarrow> e \<le> dirty_epoch (meta_of s f) \<and>
     (e = dirty_epoch (meta_of s f) \<longrightarrow> p \<in> U \<or> content_of s f = D p)"
| "pc_ok D U s _ \<longleftrightarrow> True"

text \<open>
  What a thread relies on when a critical section starts. Clients: nobody fetches or deletes
  the page of a \<^verbatim>\<open>NewPage\<close> that has not returned, and nobody gives up the last pin of a
  page with unmarked changes. Counters: a flush does not find \<open>2 ^ 32 - 1\<close> pins, and a
  page is not marked dirty \<open>2 ^ 64 - 1\<close> times while it stays in memory.
\<close>

fun pc_pre :: "PageId set \<Rightarrow> token multiset \<Rightarrow> 'r BufferManager \<Rightarrow> pc \<Rightarrow> bool" where
  "pc_pre U R s (FetchPage_enter p) \<longleftrightarrow> Creating p \<notin># R"
| "pc_pre U R s (FetchPage_retry p) \<longleftrightarrow> Creating p \<notin># R"
| "pc_pre U R s (Evict_done (ForFetchPage p) f old) \<longleftrightarrow> Creating p \<notin># R"
| "pc_pre U R s (DeletePage_enter p) \<longleftrightarrow> Creating p \<notin># R"
| "pc_pre U R s (FlushPage_enter p rest) \<longleftrightarrow>
     (case pe_frame_id (entry_of s p) of Some f \<Rightarrow> pin_count (meta_of s f) \<noteq> - 1 | None \<Rightarrow> True)"
| "pc_pre U R s (Flush_done p f e rest) \<longleftrightarrow> (p \<in> U \<longrightarrow> (\<exists>g. Pin p g \<in># R))"
| "pc_pre U R s (Flush_failed p f x) \<longleftrightarrow> (p \<in> U \<longrightarrow> (\<exists>g. Pin p g \<in># R))"
| "pc_pre U R s (Drop_enter p f) \<longleftrightarrow> (p \<in> U \<longrightarrow> (\<exists>g. Pin p g \<in># R))"
| "pc_pre U R s (MarkDirty_enter p f) \<longleftrightarrow> dirty_epoch (meta_of s f) \<noteq> - 1"
| "pc_pre U R s _ \<longleftrightarrow> True"

text \<open>What a waiting thread waits for to end.\<close>

fun waits :: "pc \<Rightarrow> 'r BufferManager \<Rightarrow> bool" where
  "waits (FetchPage_enter p) s \<longleftrightarrow> transient (entry_of s p)"
| "waits (FlushPage_enter p rest) s \<longleftrightarrow> transient (entry_of s p)"
| "waits (DeletePage_enter p) s \<longleftrightarrow> transient (entry_of s p)"
| "waits (NewPage_retry p) s \<longleftrightarrow> (\<exists>q. transient (entry_of s q))"
| "waits (FetchPage_retry p) s \<longleftrightarrow> (\<exists>q. transient (entry_of s q))"
| "waits _ s \<longleftrightarrow> False"

subsection \<open>Operations and their effect\<close>

datatype operation =
    Op_New
  | Op_Fetch PageId
  | Op_Flush
  | Op_Delete PageId
  | Op_Drop PageId FrameId
  | Op_Mark PageId FrameId

fun requester_op :: "requester \<Rightarrow> operation" where
  "requester_op (ForNewPage p) = Op_New"
| "requester_op (ForFetchPage p) = Op_Fetch p"

fun pc_op :: "pc \<Rightarrow> operation" where
  "pc_op Idle = Op_Flush"
| "pc_op NewPage_enter = Op_New"
| "pc_op (NewPage_retry p) = Op_New"
| "pc_op (FetchPage_enter p) = Op_Fetch p"
| "pc_op (FetchPage_retry p) = Op_Fetch p"
| "pc_op (Evict_write for f p d e) = requester_op for"
| "pc_op (Evict_done for f p) = requester_op for"
| "pc_op (Evict_failed for f p d e x) = requester_op for"
| "pc_op (Load_read p f) = Op_Fetch p"
| "pc_op (Load_done p f) = Op_Fetch p"
| "pc_op (Load_failed p f x) = Op_Fetch p"
| "pc_op (FlushPage_enter p rest) = Op_Flush"
| "pc_op (Flush_write p f e rest) = Op_Flush"
| "pc_op (Flush_done p f e rest) = Op_Flush"
| "pc_op (Flush_failed p f x) = Op_Flush"
| "pc_op FlushAll_enter = Op_Flush"
| "pc_op (DeletePage_enter p) = Op_Delete p"
| "pc_op (Drop_enter p f) = Op_Drop p f"
| "pc_op (MarkDirty_enter p f) = Op_Mark p f"

fun op_returns :: "operation \<Rightarrow> PageGuard option \<Rightarrow> (PageId \<Rightarrow> Page option) \<Rightarrow> (PageId \<Rightarrow> Page option) \<Rightarrow> bool" where
  "op_returns Op_New (Some g) c c' \<longleftrightarrow>
     c (guard_page_id g) = None \<and> c' = c(guard_page_id g := Some zero_page)"
| "op_returns (Op_Fetch p) (Some g) c c' \<longleftrightarrow> guard_page_id g = p \<and> c p \<noteq> None \<and> c' = c"
| "op_returns (Op_Delete p) None c c' \<longleftrightarrow> c' = c(p := None)"
| "op_returns Op_Flush None c c' \<longleftrightarrow> c' = c"
| "op_returns (Op_Drop p f) None c c' \<longleftrightarrow> c' = c"
| "op_returns (Op_Mark p f) None c c' \<longleftrightarrow> c' = c"
| "op_returns _ _ c c' \<longleftrightarrow> False"

fun abstract_step :: "operation \<Rightarrow> exn + ending \<Rightarrow> (PageId \<Rightarrow> Page option) \<Rightarrow> (PageId \<Rightarrow> Page option) \<Rightarrow> bool" where
  "abstract_step opn (Inr (Return g)) c c' \<longleftrightarrow> op_returns opn g c c'"
| "abstract_step opn _ c c' \<longleftrightarrow> c' = c"

text \<open>The tokens when a critical section has ended; a guard passes its pin to the client.\<close>

fun kept :: "operation \<Rightarrow> token multiset" where
  "kept (Op_Mark p f) = {#Pin p f#}"
| "kept _ = {#}"

fun after :: "operation \<Rightarrow> exn + ending \<Rightarrow> token multiset" where
  "after opn (Inl e) = kept opn"
| "after opn (Inr (Return None)) = kept opn"
| "after opn (Inr (Return (Some g))) = {#Pin (guard_page_id g) (guard_frame_id g)#}"
| "after opn (Inr (Wait pc)) = held pc"
| "after opn (Inr (Unlock pc)) = held pc"

text \<open>The pages a critical section marks dirty are no longer unmarked.\<close>

fun marks :: "PageId set \<Rightarrow> pc \<Rightarrow> PageId set" where
  "marks U (MarkDirty_enter p f) = U - {p}"
| "marks U _ = U"

definition fetch_errors :: "exn set" where
  "fetch_errors = {out_of_range ''invalid page id'', logic_error ''cannot fetch an unused page'',
     overflow_error ''pin count overflow'', runtime_error ''no frame available''}"

text \<open>The exceptions a critical section may throw.\<close>

fun errors :: "pc \<Rightarrow> exn set" where
  "errors NewPage_enter = {runtime_error ''maximum number of pages reached'', runtime_error ''no frame available''}"
| "errors (NewPage_retry p) = {runtime_error ''no frame available''}"
| "errors (FetchPage_enter p) = fetch_errors"
| "errors (FetchPage_retry p) = fetch_errors"
| "errors (Evict_done (ForFetchPage p) f old) = fetch_errors"
| "errors (Evict_failed for f old d e x) = {x}"
| "errors (Load_failed p f x) = {x}"
| "errors (FlushPage_enter p rest) = {out_of_range ''invalid page id'', logic_error ''cannot flush an unused page''}"
| "errors (Flush_failed p f x) = {x}"
| "errors (DeletePage_enter p) = {out_of_range ''invalid page id'', logic_error ''cannot delete a pinned page''}"
| "errors _ = {}"

fun ending_ok :: "(PageId \<Rightarrow> Page) \<Rightarrow> PageId set \<Rightarrow> operation \<Rightarrow> exn set \<Rightarrow> exn + ending \<Rightarrow> 'r BufferManager \<Rightarrow> bool" where
  "ending_ok D U opn Es (Inl e) s \<longleftrightarrow> e \<in> Es"
| "ending_ok D U opn Es (Inr (Return g)) s \<longleftrightarrow> True"
| "ending_ok D U opn Es (Inr (Wait pc)) s \<longleftrightarrow> pc_op pc = opn \<and> waits pc s"
| "ending_ok D U opn Es (Inr (Unlock pc)) s \<longleftrightarrow> pc_op pc = opn \<and> pc_ok D U s pc \<and> pc \<noteq> Idle"

definition progress ::
  "(PageId set \<Rightarrow> token multiset \<Rightarrow> 'r BufferManager \<Rightarrow> bool) \<Rightarrow> (PageId \<Rightarrow> Page) \<Rightarrow> PageId set \<Rightarrow> PageId set \<Rightarrow>
   token multiset \<Rightarrow> token multiset \<Rightarrow> operation \<Rightarrow> exn set \<Rightarrow> 'r BufferManager \<Rightarrow> (exn + ending) \<times> 'r BufferManager \<Rightarrow> bool"
  where
  "progress G D U U' R H opn Es s res \<longleftrightarrow>
     G U' (after opn (fst res) + R) (snd res) \<and> moved R U U' s (snd res) \<and>
     abstract_step opn (fst res) (page_contents D (H + R) s)
       (page_contents D (after opn (fst res) + R) (snd res)) \<and>
     ending_ok D U' opn Es (fst res) (snd res)"

lemma progress_trans:
  "moved R U U s s1 \<Longrightarrow> page_contents D (H1 + R) s1 = page_contents D (H + R) s \<Longrightarrow>
   progress G D U U' R H1 opn Es s1 res \<Longrightarrow> progress G D U U' R H opn Es s res"
  using moved_trans [of R U s s1 U'] by (auto simp: progress_def)

lemma ending_ok_mono: "ending_ok D U opn Es r s \<Longrightarrow> Es \<subseteq> Es' \<Longrightarrow> ending_ok D U opn Es' r s"
  by (cases r; cases "projr r") auto

lemma progress_errors: "progress G D U U' R H opn Es s res \<Longrightarrow> Es \<subseteq> Es' \<Longrightarrow> progress G D U U' R H opn Es' s res"
  using ending_ok_mono by (auto simp: progress_def)

lemma moved_mono: "moved T U U' s s' \<Longrightarrow> set_mset R \<subseteq> set_mset T \<Longrightarrow> moved R U U' s s'"
  unfolding moved_def by blast

subsection \<open>Acquiring a frame\<close>

context replacer_contract begin

lemma acquire_spec:
  assumes g: "good D U {} T s" and run: "AcquireFrameLocked ops s = (r, s')"
  shows "r = Inr MustWait \<and> s' = s \<and> (\<exists>p. transient (entry_of s p)) \<or>
    r = Inl (runtime_error ''no frame available'') \<and> s' = s \<or>
    (\<exists>f. r = Inr (Acquired f) \<and> good D U {f} T s' \<and> entry_of s' = entry_of s \<and> moved T U U s s' \<and>
      page_contents D T s' = page_contents D T s) \<or>
    (\<exists>f p d e. r = Inr (MustEvict f p d e) \<and> good D U {} (add_mset (Evicting p f) T) s' \<and>
      (d \<or> content_of s' f = D p) \<and> moved T U U s s' \<and>
      page_contents D (add_mset (Evicting p f) T) s' = page_contents D T s)"
proof -
  obtain a s1 where al: "allocate_frame s = (a, s1)" by fastforce
  from good_alloc [OF g al, of T T] show ?thesis
  proof (elim disjE conjE exE)
    assume a: "a = Inr None" "s1 = s"
    then have "SelectVictimLocked ops s = (r, s')"
      using run al by (simp add: AcquireFrameLocked_def bindA_Inr)
    from good_victim [OF g this] show ?thesis by blast
  next
    fix f assume a: "a = Inr (Some f)" "good D U {f} T s1" "entry_of s1 = entry_of s" "moved T U U s s1"
      "page_contents D T s1 = page_contents D T s"
    then have "r = Inr (Acquired f)" "s' = s1"
      using run al by (simp_all add: AcquireFrameLocked_def bindA_Inr)
    then show ?thesis using a by blast
  qed
qed

subsection \<open>Fetching\<close>

text \<open>The loop of \<^verbatim>\<open>FetchPage\<close>, from a frame request on.\<close>

lemma begin_load_progress:
  assumes g: "good D U {f} R s" and e: "entry_of s p = on_disk" and np: "Creating p \<notin># R"
  shows "progress (\<lambda>U. good D U {}) D U U R {#} (Op_Fetch p) Es s (FetchPage_begin_load p f s)"
  using good_begin_load [OF g e np] by (auto simp: progress_def)

lemma nonresident_entry: "good D U X T s \<Longrightarrow> pe_state (entry_of s p) = kNonResident \<longleftrightarrow> entry_of s p = on_disk"
  using goodD(5) [of D U X T s p] by (cases "entry_of s p") (auto simp: entry_ok_def)

lemma resident_entry:
  "good D U X T s \<Longrightarrow> pe_state (entry_of s p) = kResident \<Longrightarrow> \<exists>f. entry_of s p = resident f"
  using goodD(5) [of D U X T s p] by (cases "entry_of s p"; cases "pe_frame_id (entry_of s p)") (auto simp: entry_ok_def)

lemma victim_fetch_progress:
  assumes g: "good D U {} R s" and st: "pe_state (entry_of s p) = kNonResident" and run: "SelectVictimLocked ops s = (r, s')"
  shows "(\<exists>e \<in> fetch_errors. r = Inl e \<and> s' = s) \<or>
    (\<exists>a. r = Inr a \<and> progress (\<lambda>U. good D U {}) D U U R {#} (Op_Fetch p) fetch_errors s (FetchPage_acquired p a s'))"
proof -
  consider (wait) q where "r = Inr MustWait" "s' = s" "transient (entry_of s q)"
    | (none) "r = Inl (runtime_error ''no frame available'')" "s' = s"
    | (evict) f q d e where "r = Inr (MustEvict f q d e)" "good D U {} (add_mset (Evicting q f) R) s'"
      "d \<or> content_of s' f = D q" "moved R U U s s'"
      "page_contents D (add_mset (Evicting q f) R) s' = page_contents D R s"
    using good_victim [OF g run] by blast
  then show ?thesis
  proof cases
    case wait
    then have "\<exists>q. transient (entry_of s q)" by blast
    then show ?thesis using g wait by (simp add: progress_def FetchPage_acquired_def)
  next
    case none
    then show ?thesis by (auto simp: fetch_errors_def)
  next
    case evict
    have "unat p < unat (max_page_count (page_table s))"
      using in_range_if_used [OF goodD(3) [OF g], of p] st by simp
    then have "unat p < unat (max_page_count (page_table s'))" using evict(4) by (simp add: moved_def)
    then show ?thesis using evict by (simp add: progress_def FetchPage_acquired_def)
  qed
qed

lemma acquire_fetch_progress:
  assumes g: "good D U {} R s" and st: "pe_state (entry_of s p) = kNonResident" and np: "Creating p \<notin># R"
    and run: "AcquireFrameForFetchLocked ops p s = (r, s')"
  shows "(\<exists>e \<in> fetch_errors. r = Inl e \<and> s' = s) \<or>
    (\<exists>a. r = Inr (Some a) \<and>
      progress (\<lambda>U. good D U {}) D U U R {#} (Op_Fetch p) fetch_errors s (FetchPage_acquired p a s'))"
proof -
  have ps: "page_state p s = (Inr kNonResident, s)" using page_state_used [OF goodD(3) [OF g], of p] st by simp
  obtain a s1 where al: "allocate_frame s = (a, s1)" by fastforce
  from good_alloc [OF g al, of R R] show ?thesis
  proof (elim disjE conjE exE)
    assume a: "a = Inr None" "s1 = s"
    obtain b s2 where sv: "SelectVictimLocked ops s = (b, s2)" by fastforce
    then have eq: "(r, s') = (map_sum id Some b, s2)"
      using run al a by (cases b)
        (auto simp: AcquireFrameForFetchLocked_def bindA_def ps split: prod.splits sum.splits)
    from victim_fetch_progress [OF g st sv] show ?thesis using eq by auto
  next
    fix f assume a: "a = Inr (Some f)" "good D U {f} R s1" "entry_of s1 = entry_of s" "moved R U U s s1"
      "page_contents D R s1 = page_contents D R s"
    then have r: "r = Inr (Some (Acquired f))" "s' = s1"
      using run al by (auto simp: AcquireFrameForFetchLocked_def bindA_def ps)
    have e: "entry_of s1 p = on_disk" using st nonresident_entry [OF g, of p] a(3) by simp
    have "progress (\<lambda>U. good D U {}) D U U R {#} (Op_Fetch p) fetch_errors s (FetchPage_begin_load p f s1)"
      by (rule progress_trans [OF a(4) _ begin_load_progress [OF a(2) e np]]) (simp add: a(5))
    then show ?thesis using r by (simp add: FetchPage_acquired_def)
  qed
qed

lemma fetch_resident_progress:
  assumes g: "good D U {} R s" and e: "entry_of s p = resident f"
  shows "progress (\<lambda>U. good D U {}) D U U R {#} (Op_Fetch p) fetch_errors s (FetchPage_resident ops p s)"
  using good_pin [OF g e]
proof (elim disjE conjE exE)
  assume "PinResidentFrameLocked ops p f s = (Inl (overflow_error ''pin count overflow''), s)"
  then have "FetchPage_resident ops p s = (Inl (overflow_error ''pin count overflow''), s)"
    by (simp add: FetchPage_resident_def bindA_Inr [of "frame_for_page p", OF resident_frame(5) [OF g e]] thenA_Inl)
  then show ?thesis using g by (simp add: progress_def fetch_errors_def)
next
  fix s' assume a: "PinResidentFrameLocked ops p f s = (Inr (), s')" "good D U {} (add_mset (Pin p f) R) s'"
    "moved R U U s s'" "page_contents D (add_mset (Pin p f) R) s' = page_contents D R s"
  have "fm_state (meta_of s' f) \<noteq> kFree" using pin_resident(1) [OF goodD(2) [OF a(2)], of p f] by simp
  then have "FetchPage_resident ops p s = (Inr (Return (Some \<lparr>guard_page_id = p, guard_frame_id = f\<rparr>)), s')"
    by (simp add: FetchPage_resident_def bindA_Inr [of "frame_for_page p", OF resident_frame(5) [OF g e]]
        thenA_Inr a(1) make_guard [OF a(2)])
  moreover have "page_contents D R s p \<noteq> None"
    using e creating_entry [OF goodD(2) [OF g], of p] by (auto simp: contents_def)
  ultimately show ?thesis using a by (simp add: progress_def)
qed

lemma FetchPage_progress:
  assumes g: "good D U {} R s" and np: "Creating p \<notin># R"
  shows "progress (\<lambda>U. good D U {}) D U U R {#} (Op_Fetch p) fetch_errors s (FetchPage ops p s)"
proof (cases "unat p < unat (max_page_count (page_table s))")
  case False
  then have "FetchPage ops p s = (Inl (out_of_range ''invalid page id''), s)"
    by (subst FetchPage.simps) (simp add: State_out_of_range [OF goodD(3) [OF g]])
  then show ?thesis using g by (simp add: progress_def fetch_errors_def)
next
  case True
  note st = State_eq [OF goodD(3) [OF g] True]
  show ?thesis
  proof (cases "pe_state (entry_of s p)")
    case kUnused
    then have "FetchPage ops p s = (Inl (logic_error ''cannot fetch an unused page''), s)"
      by (subst FetchPage.simps) (simp add: st)
    then show ?thesis using g by (simp add: progress_def fetch_errors_def)
  next
    case kNonResident
    obtain r s' where run: "AcquireFrameForFetchLocked ops p s = (r, s')" by fastforce
    from acquire_fetch_progress [OF g kNonResident np run] show ?thesis
    proof (elim disjE bexE exE conjE)
      fix e assume "e \<in> fetch_errors" "r = Inl e" "s' = s"
      moreover from this have "FetchPage ops p s = (Inl e, s)"
        by (subst FetchPage.simps) (simp add: st kNonResident run)
      ultimately show ?thesis using g by (simp add: progress_def)
    next
      fix a assume a: "r = Inr (Some a)"
        "progress (\<lambda>U. good D U {}) D U U R {#} (Op_Fetch p) fetch_errors s (FetchPage_acquired p a s')"
      then have "FetchPage ops p s = FetchPage_acquired p a s'"
        by (subst FetchPage.simps) (simp add: st kNonResident run)
      then show ?thesis using a(2) by simp
    qed
  next
    case kLoading
    then have "FetchPage ops p s = (Inr (Wait (FetchPage_enter p)), s)"
      by (subst FetchPage.simps) (simp add: st)
    then show ?thesis using g kLoading by (simp add: progress_def transient_def)
  next
    case kResident
    then have "FetchPage ops p s = FetchPage_resident ops p s"
      by (subst FetchPage.simps) (simp add: st)
    moreover obtain f where "entry_of s p = resident f" using resident_entry [OF g kResident] ..
    ultimately show ?thesis using fetch_resident_progress [OF g] by simp
  next
    case kEvicting
    then have "FetchPage ops p s = (Inr (Wait (FetchPage_enter p)), s)"
      by (subst FetchPage.simps) (simp add: st)
    then show ?thesis using g kEvicting by (simp add: progress_def transient_def)
  qed
qed

lemma FetchPage_retried_progress:
  assumes g: "good D U {} R s" and np: "Creating p \<notin># R"
  shows "progress (\<lambda>U. good D U {}) D U U R {#} (Op_Fetch p) fetch_errors s (FetchPage_retried ops p s)"
proof (cases "unat p < unat (max_page_count (page_table s)) \<and> pe_state (entry_of s p) = kNonResident")
  case False
  show ?thesis
  proof (cases "unat p < unat (max_page_count (page_table s))")
    case True
    then have "AcquireFrameForFetchLocked ops p s = (Inr None, s)"
      using False by (simp add: AcquireFrameForFetchLocked_def bindA_Inr page_state_eval [OF goodD(3) [OF g]])
    then have "FetchPage_retried ops p s = FetchPage ops p s"
      by (simp add: FetchPage_retried_def bindA_Inr)
    then show ?thesis using FetchPage_progress [OF g np] by simp
  next
    case oor: False
    then have "FetchPage_retried ops p s = (Inl (out_of_range ''invalid page id''), s)"
      by (simp add: FetchPage_retried_def AcquireFrameForFetchLocked_def bindA_Inl
          page_state_out_of_range [OF goodD(3) [OF g]])
    then show ?thesis using g by (simp add: progress_def fetch_errors_def)
  qed
next
  case True
  obtain r s' where run: "AcquireFrameForFetchLocked ops p s = (r, s')" by fastforce
  from acquire_fetch_progress [OF g True [THEN conjunct2] np run] show ?thesis
  proof (elim disjE bexE exE conjE)
    fix e assume "e \<in> fetch_errors" "r = Inl e" "s' = s"
    then show ?thesis using g run by (simp add: FetchPage_retried_def bindA_Inl progress_def)
  next
    fix a assume a: "r = Inr (Some a)"
      "progress (\<lambda>U. good D U {}) D U U R {#} (Op_Fetch p) fetch_errors s (FetchPage_acquired p a s')"
    then show ?thesis using run by (simp add: FetchPage_retried_def bindA_Inr)
  qed
qed

lemma FetchPage_evicted_progress:
  assumes g: "good D U {} (add_mset (Evicting old f) R) s" and cl: "content_of s f = D old"
    and np: "Creating p \<notin># R" and rng: "unat p < unat (max_page_count (page_table s))"
  shows "progress (\<lambda>U. good D U {}) D U U R {#Evicting old f#} (Op_Fetch p) fetch_errors s (FetchPage_evicted ops p f old s)"
proof -
  obtain s1 where s1: "finish_eviction f old s = (Inr (), s1)" "good D U {f} R s1" "moved R U U s s1"
      "page_contents D R s1 = page_contents D (add_mset (Evicting old f) R) s"
    using good_finish [OF g cl] by blast
  have "unat p < unat (max_page_count (page_table s1))" using s1(3) rng by (simp add: moved_def)
  note ps = page_state_eval [OF goodD(3) [OF s1(2)] this]
  show ?thesis
  proof (cases "pe_state (entry_of s1 p) = kNonResident")
    case True
    then have e: "entry_of s1 p = on_disk" using nonresident_entry [OF s1(2)] by simp
    have "FetchPage_evicted ops p f old s = FetchPage_begin_load p f s1"
      using True by (simp add: FetchPage_evicted_def AcquireFrameForFetchLocked_evicted_def bindA_def
          thenA_Inr s1(1) ps)
    then show ?thesis
      using progress_trans [OF s1(3) _ begin_load_progress [OF s1(2) e np]] s1(4) by simp
  next
    case False
    obtain s2 where s2: "on_allocator (FreeFrame f) s1 = (Inr (), s2)" "good D U {} R s2" "moved R U U s1 s2"
        "page_contents D R s2 = page_contents D R s1"
      using good_free [OF s1(2), of R R] by blast
    let ?s3 = "s2\<lparr>state_changed := {}\<rparr>"
    have "FetchPage_evicted ops p f old s = FetchPage ops p ?s3"
      using False by (simp add: FetchPage_evicted_def AcquireFrameForFetchLocked_evicted_def bindA_def
          thenA_Inr s1(1) ps s2(1))
    moreover have "moved R U U s ?s3"
      using moved_trans [OF moved_trans [OF s1(3) s2(3)] moved_notify] .
    moreover have "progress (\<lambda>U. good D U {}) D U U R {#} (Op_Fetch p) fetch_errors ?s3 (FetchPage ops p ?s3)"
      using s2(2) by (intro FetchPage_progress [OF _ np]) simp
    ultimately show ?thesis
      using progress_trans [of R U s ?s3 D "{#}" "{#Evicting old f#}"] s1(4) s2(4) by simp
  qed
qed

lemma evict_failed_fetch_progress:
  assumes g: "good D U {} (add_mset (Evicting old f) R) s" and cl: "d \<or> content_of s f = D old"
  shows "progress (\<lambda>U. good D U {}) D U U R {#Evicting old f#} (Op_Fetch p) {x} s (fail_eviction ops f old d e x s)"
proof -
  obtain s' where "(fail_eviction ops f old d e x :: ('r BufferManager, ending) act) s = (Inl x, s')"
      "good D U {} R s'" "moved R U U s s'"
      "page_contents D R s' = page_contents D (add_mset (Evicting old f) R) s"
    using good_restore [OF g cl] by blast
  then show ?thesis by (simp add: progress_def)
qed

lemma FetchPage_loaded_progress:
  assumes g: "good D U {} (add_mset (Loading p f) R) s" and cl: "content_of s f = D p"
  shows "progress (\<lambda>U. good D U {}) D U U R {#Loading p f#} (Op_Fetch p) {} s (FetchPage_loaded ops p f s)"
proof -
  have "page_contents D (add_mset (Loading p f) R) s p \<noteq> None"
    using duty_frame(1) [OF goodD(2) [OF g], of p f] creating_entry [OF goodD(2) [OF g], of p]
    by (auto simp: contents_def)
  then show ?thesis using good_loaded [OF g cl] by (auto simp: progress_def)
qed

lemma FetchPage_load_failed_progress:
  assumes "good D U {} (add_mset (Loading p f) R) s"
  shows "progress (\<lambda>U. good D U {}) D U U R {#Loading p f#} (Op_Fetch p) {x} s (FetchPage_load_failed p f x s)"
proof -
  obtain s' where "FetchPage_load_failed p f x s = (Inl x, s')" "good D U {} R s'" "moved R U U s s'"
      "page_contents D R s' = page_contents D (add_mset (Loading p f) R) s"
    using good_load_failed [OF assms] by blast
  then show ?thesis by (simp add: progress_def)
qed

subsection \<open>New pages\<close>

lemma catch_progress:
  assumes g: "good D U {} (add_mset (Creating p) R) s"
  shows "progress (\<lambda>U. good D U {}) D U U R {#Creating p#} Op_New {x} s (NewPage_catch p x s)"
proof -
  obtain s' where "(NewPage_catch p x :: ('r BufferManager, ending) act) s = (Inl x, s')" "good D U {} R s'"
      "moved R U U s s'" "page_contents D R s' = page_contents D (add_mset (Creating p) R) s"
    using good_abandon [OF g] by blast
  then show ?thesis by (simp add: progress_def)
qed

lemma install_progress:
  assumes g: "good D U {f} (add_mset (Creating p) R) s"
  shows "\<exists>g s'. NewPage_install ops p f s = (Inr g, s') \<and>
    progress (\<lambda>U. good D U {}) D U U R {#Creating p#} Op_New Es s (Inr g, s')"
proof -
  have "page_contents D (add_mset (Creating p) R) s p = None" by (simp add: contents_def)
  then show ?thesis using good_install [OF g] by (auto simp: progress_def)
qed

lemma NewPage_locked_progress:
  assumes g: "good D U {} (add_mset (Creating p) R) s"
  shows "progress (\<lambda>U. good D U {}) D U U R {#Creating p#} Op_New {runtime_error ''no frame available''} s
    (NewPage_locked ops p s)"
proof -
  obtain r s' where run: "AcquireFrameLocked ops s = (r, s')" by fastforce
  consider (wait) q where "r = Inr MustWait" "s' = s" "transient (entry_of s q)"
    | (none) "r = Inl (runtime_error ''no frame available'')" "s' = s"
    | (free) f where "r = Inr (Acquired f)" "good D U {f} (add_mset (Creating p) R) s'" 
      "moved (add_mset (Creating p) R) U U s s'"
      "page_contents D (add_mset (Creating p) R) s' = page_contents D (add_mset (Creating p) R) s"
    | (evict) f q d e where "r = Inr (MustEvict f q d e)"
      "good D U {} (add_mset (Evicting q f) (add_mset (Creating p) R)) s'"
      "d \<or> content_of s' f = D q" "moved (add_mset (Creating p) R) U U s s'"
      "page_contents D (add_mset (Evicting q f) (add_mset (Creating p) R)) s' =
        page_contents D (add_mset (Creating p) R) s"
    using acquire_spec [OF g run] by blast
  then show ?thesis
  proof cases
    case wait
    then have "\<exists>q. transient (entry_of s q)" by blast
    then show ?thesis using g wait run
      by (simp add: NewPage_locked_def NewPage_acquired_def catchA_def bindA_Inr progress_def)
  next
    case none
    then have "NewPage_locked ops p s = NewPage_catch p (runtime_error ''no frame available'') s"
      using run by (simp add: NewPage_locked_def bindA_Inl catchA_Inl)
    then show ?thesis using catch_progress [OF g] by simp
  next
    case free
    obtain g s'' where i: "NewPage_install ops p f s' = (Inr g, s'')"
        "progress (\<lambda>U. good D U {}) D U U R {#Creating p#} Op_New {runtime_error ''no frame available''} s' (Inr g, s'')"
      using install_progress [OF free(2)] by blast
    have "NewPage_locked ops p s = (Inr g, s'')"
      using run free(1) i(1) by (simp add: NewPage_locked_def NewPage_acquired_def bindA_Inr catchA_Inr)
    then show ?thesis
      using progress_trans [OF moved_mono [OF free(3)] _ i(2), where H = "{#Creating p#}"] free(4) by auto
  next
    case evict
    then have "NewPage_locked ops p s = (Inr (Unlock (Evict_write (ForNewPage p) f q d e)), s')"
      using run by (simp add: NewPage_locked_def NewPage_acquired_def bindA_Inr catchA_Inr)
    moreover have "moved R U U s s'" using moved_mono [OF evict(4)] by auto
    ultimately show ?thesis using evict by (simp add: progress_def)
  qed
qed

lemma NewPage_progress:
  assumes g: "good D U {} R s"
  shows "progress (\<lambda>U. good D U {}) D U U R {#} Op_New (errors NewPage_enter) s (NewPage ops s)"
proof -
  obtain r s' where run: "on_page_table AllocatePageId s = (r, s')" by fastforce
  from good_alloc_id [OF g run, of R] show ?thesis
  proof (elim disjE conjE exE)
    assume "r = Inl (runtime_error ''maximum number of pages reached'')" "s' = s"
    then show ?thesis using g run by (simp add: NewPage_def bindA_Inl progress_def)
  next
    fix p assume a: "r = Inr p" "good D U {} (add_mset (Creating p) R) s'" "moved R U U s s'"
      "page_contents D (add_mset (Creating p) R) s' = page_contents D R s"
    then have "NewPage ops s = NewPage_locked ops p s'"
      using run by (simp add: NewPage_def bindA_Inr)
    then show ?thesis
      using progress_trans [OF a(3) _ progress_errors [OF NewPage_locked_progress [OF a(2)]]] a(4) by simp
  qed
qed

lemma NewPage_evicted_progress:
  assumes g: "good D U {} (add_mset (Evicting old f) (add_mset (Creating p) R)) s" and cl: "content_of s f = D old"
  shows "progress (\<lambda>U. good D U {}) D U U R {#Evicting old f, Creating p#} Op_New {} s (NewPage_evicted ops p f old s)"
proof -
  obtain s1 where s1: "finish_eviction f old s = (Inr (), s1)" "good D U {f} (add_mset (Creating p) R) s1"
      "moved (add_mset (Creating p) R) U U s s1" "page_contents D (add_mset (Creating p) R) s1 =
        page_contents D (add_mset (Evicting old f) (add_mset (Creating p) R)) s"
    using good_finish [OF g cl] by blast
  obtain g s2 where i: "NewPage_install ops p f s1 = (Inr g, s2)"
      "progress (\<lambda>U. good D U {}) D U U R {#Creating p#} Op_New {} s1 (Inr g, s2)"
    using install_progress [OF s1(2)] by blast
  have "NewPage_evicted ops p f old s = (Inr g, s2)"
    by (simp add: NewPage_evicted_def AcquireFrameLocked_evicted_def catchA_def bindA_def thenA_Inr s1(1) i(1))
  then show ?thesis
    using progress_trans [OF moved_mono [OF s1(3)] _ i(2), where H = "{#Evicting old f, Creating p#}"] s1(4) by auto
qed

lemma NewPage_evict_failed_progress:
  assumes g: "good D U {} (add_mset (Evicting old f) (add_mset (Creating p) R)) s" and cl: "d \<or> content_of s f = D old"
  shows "progress (\<lambda>U. good D U {}) D U U R {#Evicting old f, Creating p#} Op_New {x} s
    (NewPage_evict_failed ops p f old d e x s)"
proof -
  obtain s1 where s1: "(fail_eviction ops f old d e x :: ('r BufferManager, ending) act) s = (Inl x, s1)"
      "good D U {} (add_mset (Creating p) R) s1"
      "moved (add_mset (Creating p) R) U U s s1" "page_contents D (add_mset (Creating p) R) s1 =
        page_contents D (add_mset (Evicting old f) (add_mset (Creating p) R)) s"
    using good_restore [OF g cl] by blast
  have "NewPage_evict_failed ops p f old d e x s = NewPage_catch p x s1"
    by (simp add: NewPage_evict_failed_def catchA_Inl s1(1))
  then show ?thesis
    using progress_trans [OF moved_mono [OF s1(3)] _ catch_progress [OF s1(2)], where H = "{#Evicting old f, Creating p#}"]
      s1(4) by auto
qed

subsection \<open>Flushing\<close>

lemma flush_next_progress:
  assumes "good D U {} R s'" and "moved R U U s s'" and "page_contents D R s' = page_contents D (H + R) s"
  shows "progress (\<lambda>U. good D U {}) D U U R H Op_Flush Es s (Inr (flush_next rest), s')"
  using assms by (cases rest) (simp_all add: progress_def flush_next_def)

lemma FlushPage_resident_progress:
  assumes g: "good D U {} R s" and e: "entry_of s p = resident f" and ov: "pin_count (meta_of s f) \<noteq> - 1"
  shows "progress (\<lambda>U. good D U {}) D U U R {#} Op_Flush Es s (FlushPage_resident ops p rest s)"
proof (cases "dirty (meta_of s f)")
  case False
  then have "FlushPage_resident ops p rest s = (Inr (flush_next rest), s)"
    using resident_frame [OF g e] by (simp add: FlushPage_resident_def bindA_Inr [of "frame_for_page p"])
  then show ?thesis using flush_next_progress [OF g, of s "{#}"] by simp
next
  case True
  note rf = resident_frame [OF g e]
  let ?m = "(meta_of s f)\<lparr>pin_count := pin_count (meta_of s f) + 1\<rparr>"
  let ?s1 = "put_meta f ?m s"
  obtain r where r: "SetEvictable ops f False (replacer s) = (Inr (), r)" "inv r" "capacity r = capacity (replacer s)"
      "tracked r = tracked (replacer s)" "candidates r = candidates (replacer s) - {f}"
    using evictable [OF binv_parts(3) [OF goodD(1) [OF g]] rf(6), of False] by auto
  let ?s' = "?s1\<lparr>replacer := r\<rparr>"
  have c: "unat (pin_count ?m) = Suc (unat (pin_count (meta_of s f)))"
    using ov by (simp add: unatSuc eq_neg_iff_add_eq_0 add.commute)
  have nz: "pin_count (meta_of s f) + 1 \<noteq> 0" using ov by (simp add: eq_neg_iff_add_eq_0)
  have s': "good D U {} (add_mset (Pin p f) R) ?s' \<and> meta_of ?s' = (meta_of s)(f := ?m) \<and>
      content_of ?s' = content_of s \<and> moved R U U s ?s' \<and>
      page_contents D (add_mset (Pin p f) R) ?s' = page_contents D R s"
    by (rule good_meta [OF g rf(1,2) tok_pin [OF goodD(2) [OF g] e c]])
      (use rf r nz in \<open>simp_all add: put_meta_def insert_absorb\<close>)
  then have "f \<in> allocated (frame_allocator ?s')"
    using binv_parts(7) [OF goodD(1), of D U "{}" "add_mset (Pin p f) R" ?s' f] rf(1) by simp
  then have ref: "page_ref f ?s' = (Inr (), ?s')" using s' by (intro page_ref_ok) (auto dest: goodD(4))
  have "on_replacer (SetEvictable ops f False) ?s1 = (Inr (), ?s')" using r(1) by (simp add: on_replacer_eval)
  then have "FlushPage_resident ops p rest s = (Inr (Unlock (Flush_write p f (dirty_epoch (meta_of s f)) rest)), ?s')"
    using rf True by (simp add: FlushPage_resident_def bindA_Inr [of "frame_for_page p"] thenA_Inr ref)
  then show ?thesis using s' by (simp add: progress_def)
qed

lemma FlushPage_progress:
  assumes g: "good D U {} R s" and ov: "\<forall>f. entry_of s p = resident f \<longrightarrow> pin_count (meta_of s f) \<noteq> - 1"
  shows "progress (\<lambda>U. good D U {}) D U U R {#} Op_Flush (errors (FlushPage_enter p rest)) s (FlushPage ops p rest s)"
proof (cases "unat p < unat (max_page_count (page_table s))")
  case False
  then have "FlushPage ops p rest s = (Inl (out_of_range ''invalid page id''), s)"
    by (simp add: FlushPage_def bindA_Inl page_state_out_of_range [OF goodD(3) [OF g]])
  then show ?thesis using g by (simp add: progress_def)
next
  case True
  note fl = FlushPage_def bindA_Inr page_state_eval [OF goodD(3) [OF g] True]
  show ?thesis
  proof (cases "pe_state (entry_of s p)")
    case kResident
    obtain f where e: "entry_of s p = resident f" using resident_entry [OF g kResident] ..
    have "FlushPage ops p rest s = FlushPage_resident ops p rest s" by (simp add: fl kResident)
    then show ?thesis using FlushPage_resident_progress [OF g e] ov e by simp
  next
    case kNonResident
    then have "FlushPage ops p rest s = (Inr (flush_next rest), s)" by (simp add: fl)
    then show ?thesis using flush_next_progress [OF g, of s "{#}"] by simp
  qed (use g in \<open>simp_all add: fl progress_def transient_def\<close>)
qed

lemma FlushPage_written_progress:
  assumes g: "good D U {} (add_mset (Pin p f) R) s" and u: "p \<in> U \<Longrightarrow> \<exists>h. Pin p h \<in># R"
    and cl: "e = dirty_epoch (meta_of s f) \<Longrightarrow> p \<in> U \<or> content_of s f = D p"
  shows "progress (\<lambda>U. good D U {}) D U U R {#Pin p f#} Op_Flush {} s (FlushPage_written ops p f e rest s)"
proof -
  let ?T = "add_mset (Pin p f) R"
  note pr = pin_resident [OF goodD(2) [OF g], of p f, simplified]
  note rf = resident_frame [OF g pr(3)]
  let ?s1 = "if dirty_epoch (meta_of s f) = e then put_meta f ((meta_of s f)\<lparr>dirty := False\<rparr>) s else s"
  have s1: "good D U {} ?T ?s1 \<and> moved R U U s ?s1 \<and> page_contents D ?T ?s1 = page_contents D ?T s"
    using good_clean [OF g cl refl] g by simp
  obtain s2 where s2: "UnpinFrameLocked ops f ?s1 = (Inr (), s2)" "good D U {} R s2" "moved R U U ?s1 s2"
      "page_contents D R s2 = page_contents D ?T ?s1"
    using good_unpin [OF s1 [THEN conjunct1] u] by blast
  let ?s' = "s2\<lparr>state_changed := {}\<rparr>"
  have run: "FlushPage_written ops p f e rest s = (Inr (flush_next rest), ?s')"
    using rf pr s2(1) by (auto simp: FlushPage_written_def thenA_Inr)
  have "moved R U U s ?s'"
    using moved_trans [OF moved_trans [OF _ s2(3)] moved_notify] s1 by blast
  then show ?thesis
    unfolding run using s1 s2 by (intro flush_next_progress) simp_all
qed

lemma FlushPage_write_failed_progress:
  assumes g: "good D U {} (add_mset (Pin p f) R) s" and u: "p \<in> U \<Longrightarrow> \<exists>h. Pin p h \<in># R"
  shows "progress (\<lambda>U. good D U {}) D U U R {#Pin p f#} Op_Flush {x} s (FlushPage_write_failed ops f x s)"
proof -
  obtain s2 where s2: "UnpinFrameLocked ops f s = (Inr (), s2)" "good D U {} R s2" "moved R U U s s2"
      "page_contents D R s2 = page_contents D (add_mset (Pin p f) R) s"
    using good_unpin [OF g u] by blast
  have "FlushPage_write_failed ops f x s = (Inl x, s2\<lparr>state_changed := {}\<rparr>)"
    by (simp add: FlushPage_write_failed_def thenA_Inr s2(1))
  then show ?thesis using s2 moved_trans [OF s2(3) moved_notify] by (simp add: progress_def)
qed

subsection \<open>Deleting, dropping and marking\<close>

lemma DeletePage_progress:
  assumes g: "good D U {} R s" and np: "Creating p \<notin># R"
  shows "progress (\<lambda>U. good D U {}) D U U R {#} (Op_Delete p) (errors (DeletePage_enter p)) s (DeletePage ops p s)"
proof (cases "unat p < unat (max_page_count (page_table s))")
  case False
  then have "DeletePage ops p s = (Inl (out_of_range ''invalid page id''), s)"
    by (simp add: DeletePage_def bindA_Inl page_state_out_of_range [OF goodD(3) [OF g]])
  then show ?thesis using g by (simp add: progress_def)
next
  case True
  note dl = DeletePage_def bindA_Inr page_state_eval [OF goodD(3) [OF g] True]
  show ?thesis
  proof (cases "pe_state (entry_of s p)")
    case kUnused
    then have "page_contents D R s = (page_contents D R s)(p := None)" by (auto simp: contents_def fun_eq_iff)
    then show ?thesis using g kUnused by (simp add: dl progress_def)
  next
    case kResident
    obtain f where e: "entry_of s p = resident f" using resident_entry [OF g kResident] ..
    have run: "DeletePage ops p s = DeletePage_resident ops p s" by (simp add: dl kResident)
    from good_delete_resident [OF g e] show ?thesis
    proof (elim disjE conjE exE)
      assume "DeletePage_resident ops p s = (Inl (logic_error ''cannot delete a pinned page''), s)"
      then show ?thesis using g run by (simp add: progress_def)
    next
      fix s' assume "DeletePage_resident ops p s = (Inr (Return None), s')" "good D U {} R s'" "moved R U U s s'"
        "page_contents D R s' = (page_contents D R s)(p := None)"
      then show ?thesis using run by (simp add: progress_def)
    qed
  next
    case kNonResident
    then have e: "entry_of s p = on_disk" using nonresident_entry [OF g] by simp
    obtain s1 where s1: "on_page_table (FreePageId p) s = (Inr (), s1)" "good D U {} R s1" "moved R U U s s1"
        "page_contents D R s1 = (page_contents D R s)(p := None)"
      using good_delete_nonresident [OF g e np] by blast
    have "DeletePage ops p s = (Inr (Return None), s1\<lparr>state_changed := {}\<rparr>)"
      by (simp add: dl kNonResident thenA_Inr s1(1))
    then show ?thesis using s1 moved_trans [OF s1(3) moved_notify] by (simp add: progress_def)
  qed (use g in \<open>simp_all add: dl progress_def transient_def\<close>)
qed

lemma DropPageGuard_progress:
  assumes g: "good D U {} (add_mset (Pin p f) R) s" and u: "p \<in> U \<Longrightarrow> \<exists>h. Pin p h \<in># R"
  shows "progress (\<lambda>U. good D U {}) D U U R {#Pin p f#} (Op_Drop p f) {} s (DropPageGuard ops p f s)"
proof -
  note pr = pin_resident [OF goodD(2) [OF g], of p f, simplified]
  note rf = resident_frame [OF g pr(3)]
  obtain s2 where s2: "UnpinFrameLocked ops f s = (Inr (), s2)" "good D U {} R s2" "moved R U U s s2"
      "page_contents D R s2 = page_contents D (add_mset (Pin p f) R) s"
    using good_unpin [OF g u] by blast
  have "DropPageGuard ops p f s = (Inr (Return None), s2\<lparr>state_changed := {}\<rparr>)"
    using rf by (simp add: DropPageGuard_def thenA_Inr s2(1))
  then show ?thesis using s2 moved_trans [OF s2(3) moved_notify] by (simp add: progress_def)
qed

lemma MarkDirty_progress:
  assumes g: "good D U {} (add_mset (Pin p f) R) s" and ov: "dirty_epoch (meta_of s f) \<noteq> - 1"
  shows "progress (\<lambda>U. good D U {}) D U (U - {p}) R {#Pin p f#} (Op_Mark p f) {} s (MarkDirty p f s)"
  using good_mark [OF g ov] by (auto simp: progress_def)

subsection \<open>All critical sections\<close>

theorem section_progress:
  assumes sect: "critical_section ops pc = Some m"
    and g: "good D U {} (held pc + R) s" and ok: "pc_ok D U s pc" and pre: "pc_pre U R s pc"
  shows "progress (\<lambda>U. good D U {}) D U (marks U pc) R (held pc) (pc_op pc) (errors pc) s (m s)"
proof (cases pc)
  case NewPage_enter
  then show ?thesis using assms NewPage_progress by auto
next
  case (NewPage_retry p)
  then show ?thesis using assms NewPage_locked_progress by auto
next
  case (FetchPage_enter p)
  then show ?thesis using assms FetchPage_progress by auto
next
  case (FetchPage_retry p)
  then show ?thesis using assms FetchPage_retried_progress by auto
next
  case (Evict_done who f old)
  show ?thesis
  proof (cases who)
    case (ForNewPage p)
    then show ?thesis using assms Evict_done NewPage_evicted_progress by auto
  next
    case (ForFetchPage p)
    then show ?thesis using assms Evict_done FetchPage_evicted_progress by auto
  qed
next
  case (Evict_failed who f old d e x)
  show ?thesis
  proof (cases who)
    case (ForNewPage p)
    then show ?thesis using assms Evict_failed NewPage_evict_failed_progress by auto
  next
    case (ForFetchPage p)
    then show ?thesis using assms Evict_failed evict_failed_fetch_progress by auto
  qed
next
  case (Load_done p f)
  then show ?thesis using assms FetchPage_loaded_progress by auto
next
  case (Load_failed p f x)
  then show ?thesis using assms FetchPage_load_failed_progress by auto
next
  case (FlushPage_enter p rest)
  then have "\<forall>f. entry_of s p = resident f \<longrightarrow> pin_count (meta_of s f) \<noteq> - 1" using pre by auto
  then show ?thesis using assms FlushPage_enter FlushPage_progress [of D U R s p rest] by auto
next
  case (Flush_done p f e rest)
  then show ?thesis using assms FlushPage_written_progress [of D U p f R s e rest] by auto
next
  case (Flush_failed p f x)
  then show ?thesis using assms FlushPage_write_failed_progress [of D U p f R s x] by auto
next
  case FlushAll_enter
  have "FlushAllPages s = (Inr (flush_next (dirty_pages s)), s)" by (simp add: FlushAllPages_def)
  then show ?thesis using assms FlushAll_enter flush_next_progress [of D U R s s "{#}"] by auto
next
  case (DeletePage_enter p)
  then show ?thesis using assms DeletePage_progress by auto
next
  case (Drop_enter p f)
  then show ?thesis using assms DropPageGuard_progress [of D U p f R s] by auto
next
  case (MarkDirty_enter p f)
  then show ?thesis using assms MarkDirty_progress by auto
qed (use sect in simp_all)

end

end
