(* ===== verification/Buffer_System.thy ===== *)
theory Buffer_System
  imports Buffer_Threads
begin

text \<open>
  Threads, the database file and the clients' guards around a buffer manager: a transition
  system whose steps are the critical sections, the page reads and writes between them, and
  what the clients do.
\<close>

subsection \<open>The system\<close>

text \<open>
  The file is seen page by page. \<open>unmarked\<close> is not in the program: it remembers which
  pages were written through a guard since they were last marked dirty.
\<close>

record 'r system =
  sys_bm :: "'r BufferManager"
  disk :: "PageId \<Rightarrow> Page"
  threads :: "pc list"
  guards :: "PageGuard multiset"
  unmarked :: "PageId set"

text \<open>
  The steps: a thread starts an operation, or drops a guard or marks its page dirty; a thread
  runs one critical section; a page read or write succeeds, or fails after it transferred a part
  of the page; a waiting thread wakes up spuriously; a client writes to a page it has a guard of.
\<close>

datatype label =
    Start nat pc
  | Start_drop nat PageGuard
  | Start_mark nat PageGuard
  | Run nat
  | Io_ok nat
  | Io_fail nat exn nat Page
  | Wakeup nat
  | Client_write PageGuard Page

fun entry_point :: "pc \<Rightarrow> bool" where
  "entry_point NewPage_enter \<longleftrightarrow> True"
| "entry_point (FetchPage_enter p) \<longleftrightarrow> True"
| "entry_point (FlushPage_enter p rest) \<longleftrightarrow> rest = []"
| "entry_point FlushAll_enter \<longleftrightarrow> True"
| "entry_point (DeletePage_enter p) \<longleftrightarrow> True"
| "entry_point _ \<longleftrightarrow> False"

definition set_pc :: "nat \<Rightarrow> pc \<Rightarrow> 'r system \<Rightarrow> 'r system" where
  "set_pc i pc S = S\<lparr>threads := (threads S)[i := pc]\<rparr>"

definition write_page :: "PageId \<Rightarrow> FrameId \<Rightarrow> 'r system \<Rightarrow> 'r system" where
  "write_page p f S = S\<lparr>disk := (disk S)(p := content_of (sys_bm S) f)\<rparr>"

definition write_torn :: "nat \<Rightarrow> PageId \<Rightarrow> FrameId \<Rightarrow> 'r system \<Rightarrow> 'r system" where
  "write_torn k p f S = S\<lparr>disk := (disk S)(p := torn_page k (content_of (sys_bm S) f) (disk S p))\<rparr>"

text \<open>The contents of one frame change: a page read, or a client's write.\<close>

definition put_content :: "FrameId \<Rightarrow> Page \<Rightarrow> 'r BufferManager \<Rightarrow> 'r BufferManager" where
  "put_content f c s =
     s\<lparr>frame_allocator := (frame_allocator s)\<lparr>frames := (frames (frame_allocator s))[unat f := c]\<rparr>\<rparr>"

definition fill_frame :: "FrameId \<Rightarrow> Page \<Rightarrow> 'r system \<Rightarrow> 'r system" where
  "fill_frame f c S = S\<lparr>sys_bm := put_content f c (sys_bm S)\<rparr>"

fun io_ok :: "nat \<Rightarrow> pc \<Rightarrow> 'r system \<Rightarrow> 'r system option" where
  "io_ok i (Evict_write who f p d e) S =
     Some (set_pc i (Evict_done who f p) (if d then write_page p f S else S))"
| "io_ok i (Load_read p f) S = Some (set_pc i (Load_done p f) (fill_frame f (disk S p) S))"
| "io_ok i (Flush_write p f e rest) S = Some (set_pc i (Flush_done p f e rest) (write_page p f S))"
| "io_ok i _ S = None"

fun io_fail :: "nat \<Rightarrow> pc \<Rightarrow> exn \<Rightarrow> nat \<Rightarrow> Page \<Rightarrow> 'r system \<Rightarrow> 'r system option" where
  "io_fail i (Evict_write who f p d e) x k c S =
     (if d then Some (set_pc i (Evict_failed who f p d e x) (write_torn k p f S)) else None)"
| "io_fail i (Load_read p f) x k c S =
     (if page_ok c then Some (set_pc i (Load_failed p f x) (fill_frame f c S)) else None)"
| "io_fail i (Flush_write p f e rest) x k c S = Some (set_pc i (Flush_failed p f x) (write_torn k p f S))"
| "io_fail i _ x k c S = None"

text \<open>The guards a critical section hands to the client.\<close>

fun handed :: "pc \<Rightarrow> exn + ending \<Rightarrow> PageGuard multiset" where
  "handed pc (Inr (Wait pc')) = {#}"
| "handed pc (Inr (Unlock pc')) = {#}"
| "handed (MarkDirty_enter p f) r = {#\<lparr>guard_page_id = p, guard_frame_id = f\<rparr>#}"
| "handed pc (Inr (Return (Some g))) = {#g#}"
| "handed pc r = {#}"

fun next_pc :: "exn + ending \<Rightarrow> pc" where
  "next_pc (Inr (Wait pc)) = pc"
| "next_pc (Inr (Unlock pc)) = pc"
| "next_pc _ = Idle"

definition block :: "nat \<Rightarrow> exn + ending \<Rightarrow> 'r BufferManager \<Rightarrow> 'r BufferManager" where
  "block i r s = (case r of Inr (Wait pc) \<Rightarrow> s\<lparr>state_changed := insert i (state_changed s)\<rparr> | _ \<Rightarrow> s)"

definition run_section :: "'r Replacer \<Rightarrow> nat \<Rightarrow> 'r system \<Rightarrow> 'r system option" where
  "run_section R i S =
     (let pc = threads S ! i in
      if i \<in> state_changed (sys_bm S) then None
      else case critical_section R pc of
        None \<Rightarrow> None
      | Some m \<Rightarrow>
          (case m (sys_bm S) of (r, bm) \<Rightarrow>
             Some (set_pc i (next_pc r)
               (S\<lparr>sys_bm := block i r bm, guards := guards S + handed pc r, unmarked := marks (unmarked S) pc\<rparr>))))"

fun step :: "'r Replacer \<Rightarrow> label \<Rightarrow> 'r system \<Rightarrow> 'r system option" where
  "step R (Start i pc) S =
     (if i < length (threads S) \<and> threads S ! i = Idle \<and> entry_point pc then Some (set_pc i pc S) else None)"
| "step R (Start_drop i g) S =
     (if i < length (threads S) \<and> threads S ! i = Idle \<and> g \<in># guards S
      then Some (set_pc i (Drop_enter (guard_page_id g) (guard_frame_id g)) (S\<lparr>guards := guards S - {#g#}\<rparr>))
      else None)"
| "step R (Start_mark i g) S =
     (if i < length (threads S) \<and> threads S ! i = Idle \<and> g \<in># guards S
      then Some (set_pc i (MarkDirty_enter (guard_page_id g) (guard_frame_id g)) (S\<lparr>guards := guards S - {#g#}\<rparr>))
      else None)"
| "step R (Run i) S = (if i < length (threads S) then run_section R i S else None)"
| "step R (Io_ok i) S = (if i < length (threads S) then io_ok i (threads S ! i) S else None)"
| "step R (Io_fail i x k c) S = (if i < length (threads S) then io_fail i (threads S ! i) x k c S else None)"
| "step R (Wakeup i) S =
     Some (S\<lparr>sys_bm := (sys_bm S)\<lparr>state_changed := state_changed (sys_bm S) - {i}\<rparr>\<rparr>)"
| "step R (Client_write g c) S =
     (if g \<in># guards S \<and> page_ok c
      then Some ((fill_frame (guard_frame_id g) c S)\<lparr>unmarked := insert (guard_page_id g) (unmarked S)\<rparr>)
      else None)"

subsection \<open>Tokens of the system\<close>

definition guard_token :: "PageGuard \<Rightarrow> token" where
  "guard_token g = Pin (guard_page_id g) (guard_frame_id g)"

definition thread_tokens :: "pc list \<Rightarrow> token multiset" where
  "thread_tokens ts = sum_list (map held ts)"

definition all_tokens :: "'r system \<Rightarrow> token multiset" where
  "all_tokens S = thread_tokens (threads S) + image_mset guard_token (guards S)"

text \<open>The tokens that are not with thread \<open>i\<close>.\<close>

definition other_tokens :: "nat \<Rightarrow> 'r system \<Rightarrow> token multiset" where
  "other_tokens i S = thread_tokens ((threads S)[i := Idle]) + image_mset guard_token (guards S)"

lemma thread_tokens_update:
  assumes "i < length ts"
  shows "thread_tokens (ts[i := pc]) = held pc + thread_tokens (ts[i := Idle])"
  using assms
proof (induction ts arbitrary: i)
  case (Cons t ts)
  then show ?case by (cases i) (simp_all add: thread_tokens_def ac_simps)
qed simp

lemma all_tokens_other:
  assumes "i < length (threads S)"
  shows "all_tokens S = held (threads S ! i) + other_tokens i S"
  using thread_tokens_update [OF assms, of "threads S ! i"]
  by (simp add: all_tokens_def other_tokens_def ac_simps)

lemma all_tokens_set_pc:
  assumes "i < length (threads S)"
  shows "all_tokens (set_pc i pc S) = held pc + other_tokens i S"
  using thread_tokens_update [OF assms, of pc] by (simp add: all_tokens_def other_tokens_def set_pc_def ac_simps)

lemma thread_tokens_mem: "t \<in># thread_tokens ts \<longleftrightarrow> (\<exists>pc \<in> set ts. t \<in># held pc)"
  by (induction ts) (auto simp: thread_tokens_def)

subsection \<open>What the clients are trusted with\<close>

text \<open>
  Nobody fetches or deletes the page of a \<^verbatim>\<open>NewPage\<close> that has not returned its guard, the
  last guard of a page is not dropped while changes made through it are unmarked, and the
  counters do not overflow.
\<close>

fun client_ok :: "'r system \<Rightarrow> label \<Rightarrow> bool" where
  "client_ok S (Start_drop i g) \<longleftrightarrow>
     (guard_page_id g \<in> unmarked S \<longrightarrow> (\<exists>h \<in># guards S - {#g#}. guard_page_id h = guard_page_id g))"
| "client_ok S (Run i) \<longleftrightarrow>
     (case threads S ! i of
        Drop_enter p f \<Rightarrow> True
      | Flush_done p f e rest \<Rightarrow> True
      | Flush_failed p f x \<Rightarrow> True
      | pc \<Rightarrow> pc_pre (unmarked S) (other_tokens i S) (sys_bm S) pc)"
| "client_ok S _ \<longleftrightarrow> True"

subsection \<open>The invariant of the system\<close>

definition unmarked_guarded :: "PageId set \<Rightarrow> PageGuard multiset \<Rightarrow> pc list \<Rightarrow> bool" where
  "unmarked_guarded U G ts \<longleftrightarrow>
     (\<forall>p \<in> U. (\<exists>g \<in># G. guard_page_id g = p) \<or> (\<exists>f. MarkDirty_enter p f \<in> set ts))"

definition threads_ok :: "'r system \<Rightarrow> bool" where
  "threads_ok S \<longleftrightarrow>
     (\<forall>pc \<in> set (threads S). pc_ok (disk S) (unmarked S) (sys_bm S) pc) \<and>
     (\<forall>i \<in> state_changed (sys_bm S). i < length (threads S) \<and> waits (threads S ! i) (sys_bm S)) \<and>
     unmarked_guarded (unmarked S) (guards S) (threads S) \<and>
     (\<forall>p. page_ok (disk S p))"

definition system_inv ::
  "('r \<Rightarrow> bool) \<Rightarrow> ('r \<Rightarrow> nat) \<Rightarrow> ('r \<Rightarrow> FrameId set) \<Rightarrow> ('r \<Rightarrow> FrameId set) \<Rightarrow> 'r system \<Rightarrow> bool" where
  "system_inv rinv capacity tracked candidates S \<longleftrightarrow>
     bm_good rinv capacity tracked candidates (disk S) (unmarked S) {} (all_tokens S) (sys_bm S) \<and> threads_ok S"

definition system_contents :: "'r system \<Rightarrow> PageId \<Rightarrow> Page option" where
  "system_contents S = page_contents (disk S) (all_tokens S) (sys_bm S)"

text \<open>What a step does to the contents of the pages.\<close>

fun label_effect :: "'r Replacer \<Rightarrow> 'r system \<Rightarrow> label \<Rightarrow> (PageId \<Rightarrow> Page option) \<Rightarrow> (PageId \<Rightarrow> Page option) \<Rightarrow> bool" where
  "label_effect R S (Run i) c c' \<longleftrightarrow>
     (\<exists>m. critical_section R (threads S ! i) = Some m \<and>
        abstract_step (pc_op (threads S ! i)) (fst (m (sys_bm S))) c c')"
| "label_effect R S (Client_write g pg) c c' \<longleftrightarrow> c (guard_page_id g) \<noteq> None \<and> c' = c(guard_page_id g := Some pg)"
| "label_effect R S _ c c' \<longleftrightarrow> c' = c"

subsection \<open>What a thread knows stays true\<close>

lemma held_thread: "i < length (threads S) \<Longrightarrow> j < length (threads S) \<Longrightarrow> j \<noteq> i \<Longrightarrow> t \<in># held (threads S ! j) \<Longrightarrow>
   t \<in># other_tokens i S"
  by (auto simp: other_tokens_def thread_tokens_mem in_set_conv_nth intro!: disjI1 bexI [where x = "threads S ! j"] exI [where x = j])

lemma pc_ok_moved:
  assumes ok: "pc_ok D U s pc" and mv: "moved R U U' s s'" and sub: "\<And>t. t \<in># held pc \<Longrightarrow> t \<in># R"
    and U: "U' \<subseteq> U"
  shows "pc_ok D U' s' pc"
proof -
  have c: "content_of s' f = content_of s f" if "Pin p f \<in># held pc \<or> Loading p f \<in># held pc \<or> Evicting p f \<in># held pc" for p f
    using mv that sub unfolding moved_def by blast
  have rq: "requester_ok s' w = requester_ok s w" for w
    using mv by (cases w) (simp_all add: moved_def)
  have ep: "dirty_epoch (meta_of s f) \<le> dirty_epoch (meta_of s' f) \<and>
      (p \<in> U - U' \<longrightarrow> dirty_epoch (meta_of s f) < dirty_epoch (meta_of s' f))" if "Pin p f \<in># held pc" for p f
    using mv that sub unfolding moved_def by blast
  show ?thesis
  proof (cases pc)
    case (Evict_write w f p d e)
    then show ?thesis using ok c [of p f] rq by simp
  next
    case (Evict_done w f p)
    then show ?thesis using ok c [of p f] rq by simp
  next
    case (Evict_failed w f p d e x)
    then show ?thesis using ok c [of p f] rq by simp
  next
    case (Load_done p f)
    then show ?thesis using ok c [of p f] by simp
  next
    case (Flush_write p f e rest)
    then show ?thesis using ok ep [of p f] by auto
  next
    case (Flush_done p f e rest)
    then have k: "e \<le> dirty_epoch (meta_of s f)" "e = dirty_epoch (meta_of s f) \<Longrightarrow> p \<in> U \<or> content_of s f = D p"
      and m: "dirty_epoch (meta_of s f) \<le> dirty_epoch (meta_of s' f)"
        "p \<in> U - U' \<longrightarrow> dirty_epoch (meta_of s f) < dirty_epoch (meta_of s' f)"
      using ok ep [of p f] by auto
    have "p \<in> U' \<or> content_of s' f = D p" if "e = dirty_epoch (meta_of s' f)"
    proof -
      have "e = dirty_epoch (meta_of s f)" using k(1) m(1) that by simp
      then show ?thesis using k(2) m(2) that c [of p f] Flush_done by auto
    qed
    then show ?thesis using Flush_done k m by auto
  qed simp_all
qed

lemma pc_ok_cong:
  assumes "meta_of s' = meta_of s" and "content_of s' = content_of s"
    and "max_page_count (page_table s') = max_page_count (page_table s)"
  shows "pc_ok D U s' pc = pc_ok D U s pc"
proof -
  have rq: "requester_ok s' w = requester_ok s w" for w using assms(3) by (cases w) simp_all
  show ?thesis by (cases pc) (simp_all only: pc_ok.simps assms rq)
qed

lemma waits_cong: "entry_of s' = entry_of s \<Longrightarrow> waits pc s' = waits pc s"
  by (cases pc) simp_all

lemma kept_requester [simp]: "kept (requester_op w) = {#}"
  by (cases w) simp_all

lemma block_views [simp]:
  "meta_of (block i r s) = meta_of s" "page_table (block i r s) = page_table s" "content_of (block i r s) = content_of s"
  "waits pc (block i r s) = waits pc s" "pc_ok D U (block i r s) pc = pc_ok D U s pc"
proof -
  have b: "block i r s = s \<or> block i r s = s\<lparr>state_changed := insert i (state_changed s)\<rparr>"
    by (simp add: block_def split: sum.splits ending.splits)
  then show v: "meta_of (block i r s) = meta_of s" "page_table (block i r s) = page_table s"
    "content_of (block i r s) = content_of s" by auto
  then show "waits pc (block i r s) = waits pc s" "pc_ok D U (block i r s) pc = pc_ok D U s pc"
    by - (rule waits_cong pc_ok_cong; simp)+
qed

lemma waits_moved:
  assumes "waits pc s" and "\<And>p. transient (entry_of s p) \<Longrightarrow> entry_of s' p = entry_of s p"
  shows "waits pc s'"
  using assms by (cases pc) (auto, metis+)

lemma pc_ok_disk:
  assumes ok: "pc_ok D U s pc" and tok: "tok_inv D U T (meta_of s) (entry_of s) (content_of s)"
    and sub: "\<And>t. t \<in># held pc \<Longrightarrow> t \<in># T"
    and e: "entry_of s p = resident f \<or> entry_of s p = evicting f" and w: "content_of s f = D p \<Longrightarrow> w = content_of s f"
  shows "pc_ok (D(p := w)) U s pc"
proof (cases pc)
  case (Evict_write r g q d x)
  then have "entry_of s q = evicting g" using duty_frame(2) [OF tok] sub by simp
  then show ?thesis using ok Evict_write e w by auto
next
  case (Evict_done r g q)
  then have "entry_of s q = evicting g" using duty_frame(2) [OF tok] sub by simp
  then show ?thesis using ok Evict_done e w by auto
next
  case (Evict_failed r g q d x y)
  then have "entry_of s q = evicting g" using duty_frame(2) [OF tok] sub by simp
  then show ?thesis using ok Evict_failed e w by auto
next
  case (Load_done q g)
  then have "entry_of s q = loading g" using duty_frame(1) [OF tok] sub by simp
  then show ?thesis using ok Load_done e w by auto
next
  case (Flush_done q g x rest)
  then have "entry_of s q = resident g" using pin_resident(3) [OF tok] sub by simp
  then show ?thesis using ok Flush_done e w by auto
qed (use ok in simp_all)

lemma tok_disk:
  assumes tok: "tok_inv D U T M E C" and e: "E p = resident f \<or> E p = evicting f" and w: "C f = D p \<Longrightarrow> w = C f"
  shows "tok_inv (D(p := w)) U T M E C"
proof -
  note i = tok_invD [OF tok]
  have "C g = (D(p := w)) q" if r: "fm_state (M g) = kFrameResident" "fm_page_id (M g) = Some q" "\<not> dirty (M g)" "q \<notin> U" for g q
  proof -
    have "E q = resident g" using coherent_frameD(3) [OF i(1) r(1)] r(2) by auto
    moreover have "C g = D q" using i(5) r by (simp add: clean_on_disk_def)
    ultimately show ?thesis using e w by auto
  qed
  then show ?thesis using i by (simp add: tok_inv_def clean_on_disk_def)
qed

lemma contents_disk:
  "E p = resident f \<or> E p = evicting f \<Longrightarrow> contents (D(p := w)) T E C = contents D T E C"
  by (auto simp: contents_def fun_eq_iff)

lemma torn_same: "c = old \<Longrightarrow> torn_page k c old = c"
  by (simp add: torn_page_def)

lemma page_ok_torn: "page_ok c \<Longrightarrow> page_ok old \<Longrightarrow> page_ok (torn_page k c old)"
  by (simp add: torn_page_def page_ok_def)

lemma contents_frame:
  assumes "\<And>q. E q \<noteq> resident f \<and> E q \<noteq> evicting f" and "\<And>q. entry_ok (E q)"
  shows "contents D T E (C(f := c)) = contents D T E C"
proof
  fix q
  show "contents D T E (C(f := c)) q = contents D T E C q"
    using assms(1,2) [of q]
    by (cases "E q"; cases "pe_frame_id (E q)") (auto simp: contents_def entry_ok_def)
qed

subsection \<open>The system under any replacer that keeps the contract\<close>

context replacer_contract begin

abbreviation sinv :: "'r system \<Rightarrow> bool" where
  "sinv S \<equiv> system_inv inv capacity tracked candidates S"

lemma put_content_views:
  assumes "fa_inv (frame_allocator s)" and "unat f < unat (fa_frame_count (frame_allocator s))"
  shows "meta_of (put_content f c s) = meta_of s" and "entry_of (put_content f c s) = entry_of s"
    and "content_of (put_content f c s) = (content_of s)(f := c)"
    and "state_changed (put_content f c s) = state_changed s"
    and "page_table (put_content f c s) = page_table s" and "options (put_content f c s) = options s"
  using assms by (auto simp: put_content_def content_of_def fun_eq_iff nth_list_update_if unat_eq_iff fa_inv_def)

lemma binv_put_content:
  assumes b: "binv X s" and f: "unat f < unat (fa_frame_count (frame_allocator s))" and c: "page_ok c"
  shows "binv X (put_content f c s)"
proof -
  let ?fa = "frame_allocator s" and ?fa' = "frame_allocator (put_content f c s)"
  have al: "allocated ?fa' = allocated ?fa" by (simp add: put_content_def allocated_def)
  have "\<forall>pg \<in> set ((frames ?fa)[unat f := c]). page_ok pg"
    using binv_parts(1) [OF b] c set_update_subset_insert [of "frames ?fa" "unat f"] by (auto simp: fa_inv_def)
  then have "fa_inv ?fa'" using binv_parts(1) [OF b] al by (simp add: put_content_def fa_inv_def)
  then show ?thesis using b al by (simp add: bm_inv_def put_content_def)
qed

lemma frame_bound:
  assumes "good D U X T s" and "fm_state (meta_of s f) \<noteq> kFree"
  shows "unat f < unat (fa_frame_count (frame_allocator s))"
  using meta_of_in_range [OF assms(2)] binv_parts(4) [OF goodD(1) [OF assms(1)]] by simp

lemma content_ok: "good D U X T s \<Longrightarrow> fm_state (meta_of s f) \<noteq> kFree \<Longrightarrow> page_ok (content_of s f)"
  using page_ok_frame [OF goodD(4) frame_bound] by (simp add: content_of_def)

text \<open>The thread that owns a load fills the frame.\<close>

lemma good_fill:
  assumes g: "good D U {} (add_mset (Loading p f) R) s" and c: "page_ok c"
  shows "good D U {} (add_mset (Loading p f) R) (put_content f c s)" and "moved R U U s (put_content f c s)"
    and "content_of (put_content f c s) f = c"
    and "page_contents D (add_mset (Loading p f) R) (put_content f c s) = page_contents D (add_mset (Loading p f) R) s"
proof -
  note d = duty_frame(1) [OF goodD(2) [OF g], of p f, simplified]
  have f: "unat f < unat (fa_frame_count (frame_allocator s))" using frame_bound [OF g, of f] d by simp
  note v = put_content_views [OF goodD(4) [OF g] f]
  show "good D U {} (add_mset (Loading p f) R) (put_content f c s)"
    using binv_put_content [OF goodD(1) [OF g] f c] tok_content [OF goodD(2) [OF g], of f] d
    by (simp add: bm_good_def v)
  show "content_of (put_content f c s) f = c" by (simp add: v)
  have n: "Pin q f \<notin># R" "Loading q f \<notin># R" "Evicting q f \<notin># R" for q
    using no_pin [OF goodD(2) [OF g], of f q] d one_duty(1) [OF tok_invD(3) [OF goodD(2) [OF g]], of q]
    by (auto simp: count_eq_zero_iff)
  then show "moved R U U s (put_content f c s)"
    unfolding moved_def by (auto simp: v)
  have "entry_of s q \<noteq> resident f \<and> entry_of s q \<noteq> evicting f" for q
    using coherent_pageD(2) [OF goodD(6) [OF g], of q f] d by auto
  then show "page_contents D (add_mset (Loading p f) R) (put_content f c s) = page_contents D (add_mset (Loading p f) R) s"
    using contents_frame goodD(5) [OF g] by (simp add: v)
qed

text \<open>A client writes to a page it has pinned.\<close>

lemma good_write:
  assumes g: "good D U {} T s" and p: "Pin p f \<in># T" and c: "page_ok c"
  shows "good D (insert p U) {} T (put_content f c s)"
    and "page_contents D T (put_content f c s) = (page_contents D T s)(p := Some c)"
    and "page_contents D T s p \<noteq> None"
    and "pc_ok D U s pc \<Longrightarrow> (\<And>t. t \<in># held pc \<Longrightarrow> t \<in># T) \<Longrightarrow> pc_ok D (insert p U) (put_content f c s) pc"
proof -
  note pr = pin_resident [OF goodD(2) [OF g] p]
  have f: "unat f < unat (fa_frame_count (frame_allocator s))" using frame_bound [OF g, of f] pr by simp
  note v = put_content_views [OF goodD(4) [OF g] f]
  note i = tok_invD [OF goodD(2) [OF g]]
  have "tok_inv D (insert p U) T (meta_of s) (entry_of s) ((content_of s)(f := c))"
    using i p pr(2) by (auto simp: tok_inv_def clean_on_disk_def unmarked_pinned_def)
  then show "good D (insert p U) {} T (put_content f c s)"
    using binv_put_content [OF goodD(1) [OF g] f c] by (simp add: bm_good_def v)
  have np: "Creating p \<notin># T" using creating_entry [OF goodD(2) [OF g], of p] pr(3) by auto
  show "page_contents D T s p \<noteq> None" using np pr(3) by (simp add: contents_def)
  have other: "((content_of s)(f := c)) h = content_of s h" if "q \<noteq> p" "entry_of s q = resident h \<or> entry_of s q = evicting h" for q h
    using that pr coherent_pageD(1) [OF goodD(6) [OF g], of q h] by auto
  have "page_contents D T (put_content f c s) =
      contents D T ((entry_of s)(p := entry_of s p)) ((content_of s)(f := c))"
    by (simp add: v)
  also have "\<dots> = (page_contents D T s)
      (p := contents D T ((entry_of s)(p := entry_of s p)) ((content_of s)(f := c)) p)"
    by (rule contents_change) (use other goodD(5) [OF g] in auto)
  also have "contents D T ((entry_of s)(p := entry_of s p)) ((content_of s)(f := c)) p = Some c"
    using np pr(3) by (simp add: contents_def)
  finally show "page_contents D T (put_content f c s) = (page_contents D T s)(p := Some c)" .
  show "pc_ok D (insert p U) (put_content f c s) pc"
    if ok: "pc_ok D U s pc" and sub: "\<And>t. t \<in># held pc \<Longrightarrow> t \<in># T"
  proof -
    have rq: "requester_ok (put_content f c s) w = requester_ok s w" for w by (cases w) (simp_all add: v)
    have e: "g \<noteq> f" if "Evicting q g \<in># held pc" for q g
      using duty_frame(2) [OF goodD(2) [OF g] sub [OF that]] pr(1) by auto
    have l: "g \<noteq> f" if "Loading q g \<in># held pc" for q g
      using duty_frame(1) [OF goodD(2) [OF g] sub [OF that]] pr(1) by auto
    have n: "q = p" if "Pin q f \<in># held pc" for q
      using pin_resident(2) [OF goodD(2) [OF g] sub [OF that]] pr(2) by simp
    show ?thesis using ok e l n by (cases pc) (auto simp: v rq)
  qed
qed

subsection \<open>The steps keep the invariant\<close>

lemma sinvD:
  assumes "sinv S"
  shows "good (disk S) (unmarked S) {} (all_tokens S) (sys_bm S)"
    and "pc \<in> set (threads S) \<Longrightarrow> pc_ok (disk S) (unmarked S) (sys_bm S) pc"
    and "i \<in> state_changed (sys_bm S) \<Longrightarrow> i < length (threads S) \<and> waits (threads S ! i) (sys_bm S)"
    and "unmarked_guarded (unmarked S) (guards S) (threads S)" and "page_ok (disk S p)"
  using assms by (auto simp: system_inv_def threads_ok_def)

lemma thread_held: "pc \<in> set (threads S) \<Longrightarrow> t \<in># held pc \<Longrightarrow> t \<in># all_tokens S"
  by (auto simp: all_tokens_def thread_tokens_mem)

text \<open>Replacing the program point of a thread, with everything it needs.\<close>

lemma sinv_set_pc:
  assumes i: "i < length (threads S)"
    and g: "good (disk T) (unmarked T) {} (held pc + other_tokens i T) (sys_bm T)"
    and th: "threads T = threads S"
    and others: "\<And>j. j < length (threads S) \<Longrightarrow> j \<noteq> i \<Longrightarrow> pc_ok (disk T) (unmarked T) (sys_bm T) (threads S ! j)"
    and me: "pc_ok (disk T) (unmarked T) (sys_bm T) pc"
    and w: "\<And>j. j \<in> state_changed (sys_bm T) \<Longrightarrow> j < length (threads S) \<and>
      (if j = i then waits pc (sys_bm T) else waits (threads S ! j) (sys_bm T))"
    and u: "unmarked_guarded (unmarked T) (guards T) ((threads S)[i := pc])" and d: "\<And>p. page_ok (disk T p)"
  shows "sinv (set_pc i pc T)"
proof -
  have "all_tokens (set_pc i pc T) = held pc + other_tokens i T"
    using i th by (simp add: all_tokens_set_pc)
  moreover have "threads (set_pc i pc T) = (threads S)[i := pc]" "sys_bm (set_pc i pc T) = sys_bm T"
    "disk (set_pc i pc T) = disk T" "unmarked (set_pc i pc T) = unmarked T" "guards (set_pc i pc T) = guards T"
    by (simp_all add: set_pc_def th)
  moreover have "pc_ok (disk T) (unmarked T) (sys_bm T) q" if "q \<in> set ((threads S)[i := pc])" for q
    using that others me i by (auto simp: in_set_conv_nth nth_list_update_if)
  moreover have "j < length (threads S) \<and> waits ((threads S)[i := pc] ! j) (sys_bm T)"
    if "j \<in> state_changed (sys_bm T)" for j
    using w [OF that] i by (auto simp: nth_list_update_if split: if_splits)
  ultimately show ?thesis using g u d by (simp add: system_inv_def threads_ok_def)
qed

lemma unmarked_guarded_upd:
  assumes "unmarked_guarded U G ts" and "i < length ts"
    and "\<And>p f. ts ! i = MarkDirty_enter p f \<Longrightarrow> p \<in> U' \<Longrightarrow> (\<exists>g \<in># G'. guard_page_id g = p) \<or> pc = MarkDirty_enter p f"
    and "\<And>p g. g \<in># G \<Longrightarrow> guard_page_id g = p \<Longrightarrow> p \<in> U' \<Longrightarrow>
      (\<exists>g \<in># G'. guard_page_id g = p) \<or> (\<exists>f. pc = MarkDirty_enter p f)"
    and "U' \<subseteq> U"
  shows "unmarked_guarded U' G' (ts[i := pc])"
  unfolding unmarked_guarded_def
proof
  fix p assume p: "p \<in> U'"
  have upd: "pc \<in> set (ts[i := pc])" using assms(2) by (rule set_update_memI)
  have "(\<exists>g \<in># G. guard_page_id g = p) \<or> (\<exists>f. MarkDirty_enter p f \<in> set ts)"
    using assms(1,5) p by (auto simp: unmarked_guarded_def)
  then show "(\<exists>g \<in># G'. guard_page_id g = p) \<or> (\<exists>f. MarkDirty_enter p f \<in> set (ts[i := pc]))"
  proof
    assume "\<exists>g \<in># G. guard_page_id g = p"
    then show ?thesis using assms(4) p upd by blast
  next
    assume "\<exists>f. MarkDirty_enter p f \<in> set ts"
    then obtain f j where j: "j < length ts" "ts ! j = MarkDirty_enter p f" by (auto simp: in_set_conv_nth)
    show ?thesis
    proof (cases "j = i")
      case True
      then show ?thesis using assms(3) j p upd by blast
    next
      case False
      then have "(ts[i := pc]) ! j = MarkDirty_enter p f" using j by simp
      then have "MarkDirty_enter p f \<in> set (ts[i := pc])" using j(1) by (metis length_list_update nth_mem)
      then show ?thesis by blast
    qed
  qed
qed

lemma other_tokens_simps [simp]:
  "other_tokens i (S\<lparr>sys_bm := b\<rparr>) = other_tokens i S"
  "other_tokens i (S\<lparr>disk := d\<rparr>) = other_tokens i S"
  "other_tokens i (S\<lparr>unmarked := u\<rparr>) = other_tokens i S"
  "other_tokens i (S\<lparr>guards := G\<rparr>) = thread_tokens ((threads S)[i := Idle]) + image_mset guard_token G"
  by (simp_all add: other_tokens_def)

lemma not_blocked:
  "sinv S \<Longrightarrow> \<not> waits (threads S ! i) (sys_bm S) \<Longrightarrow> i \<notin> state_changed (sys_bm S)"
  using sinvD(3) by blast

lemma step_start:
  assumes inv: "sinv S" and i: "i < length (threads S)" "threads S ! i = Idle"
    and h: "held pc + image_mset guard_token G = image_mset guard_token (guards S)"
    and ok: "\<And>D U (s :: 'r BufferManager). pc_ok D U s pc"
    and u: "\<And>p g. g \<in># guards S \<Longrightarrow> guard_page_id g = p \<Longrightarrow> p \<in> unmarked S \<Longrightarrow>
      (\<exists>g \<in># G. guard_page_id g = p) \<or> (\<exists>f. pc = MarkDirty_enter p f)"
  shows "sinv (set_pc i pc (S\<lparr>guards := G\<rparr>)) \<and> system_contents (set_pc i pc (S\<lparr>guards := G\<rparr>)) = system_contents S"
proof -
  let ?T = "S\<lparr>guards := G\<rparr>"
  have tok: "held pc + other_tokens i ?T = all_tokens S"
    using all_tokens_other [OF i(1)] i(2) h by (simp add: other_tokens_def ac_simps)
  have "sinv (set_pc i pc ?T)"
  proof (rule sinv_set_pc [OF i(1)])
    show "good (disk ?T) (unmarked ?T) {} (held pc + other_tokens i ?T) (sys_bm ?T)"
      unfolding tok using sinvD(1) [OF inv] by simp
    show "j < length (threads S) \<and> (if j = i then waits pc (sys_bm ?T) else waits (threads S ! j) (sys_bm ?T))"
      if "j \<in> state_changed (sys_bm ?T)" for j
      using sinvD(3) [OF inv] that i(2) by fastforce
    show "unmarked_guarded (unmarked ?T) (guards ?T) ((threads S)[i := pc])"
      by (rule unmarked_guarded_upd [OF sinvD(4) [OF inv] i(1)]) (use i(2) u in auto)
  qed (use sinvD(2,5) [OF inv] ok in auto)
  moreover have "system_contents (set_pc i pc ?T) = system_contents S"
    using tok i(1) by (simp add: system_contents_def all_tokens_set_pc) (simp add: set_pc_def)
  ultimately show ?thesis ..
qed

lemma section_tokens:
  assumes "pc_op pc = opn" and "abstract_step opn r c c'" and "ending_ok D U opn Es r s"
  shows "after opn r = held (next_pc r) + image_mset guard_token (handed pc r)"
proof (cases r)
  case (Inl e)
  then show ?thesis using assms(1) by (cases pc) (auto simp: guard_token_def elim: requester_op.elims)
next
  case (Inr b)
  show ?thesis
  proof (cases b)
    case (Return g)
    show ?thesis
    proof (cases g)
      case None
      then show ?thesis using Inr Return assms(1) by (cases pc) (auto simp: guard_token_def elim: requester_op.elims)
    next
      case (Some h)
      then have "\<And>p f. pc \<noteq> MarkDirty_enter p f" using Inr Return assms(1,2) by auto
      then show ?thesis using Some Inr Return by (cases pc) (auto simp: guard_token_def)
    qed
  qed (simp_all add: Inr)
qed

lemma step_run:
  assumes inv: "sinv S" and ok: "client_ok S (Run i)" and i: "i < length (threads S)"
    and run: "run_section ops i S = Some S'"
  shows "sinv S' \<and> label_effect ops S (Run i) (system_contents S) (system_contents S') \<and>
    (\<exists>m. critical_section ops (threads S ! i) = Some m \<and>
       ending_ok (disk S) (marks (unmarked S) (threads S ! i)) (pc_op (threads S ! i)) (errors (threads S ! i))
         (fst (m (sys_bm S))) (snd (m (sys_bm S))))"
proof -
  let ?pc = "threads S ! i" and ?R = "other_tokens i S" and ?s = "sys_bm S"
  let ?U = "marks (unmarked S) ?pc"
  have mem: "?pc \<in> set (threads S)" using i by simp
  obtain m where m: "critical_section ops ?pc = Some m" and nb: "i \<notin> state_changed ?s"
    using run by (auto simp: run_section_def Let_def split: if_splits option.splits)
  obtain r s' where rs: "m ?s = (r, s')" by fastforce
  have S': "S' = set_pc i (next_pc r) (S\<lparr>sys_bm := block i r s', guards := guards S + handed ?pc r, unmarked := ?U\<rparr>)"
    using run m nb rs by (simp add: run_section_def Let_def)
  have g: "good (disk S) (unmarked S) {} (held ?pc + ?R) ?s"
    using sinvD(1) [OF inv] all_tokens_other [OF i] by simp
  have ug: "\<exists>h. Pin p h \<in># ?R" if "p \<in> unmarked S" "\<not> (\<exists>f. ?pc = MarkDirty_enter p f)" for p
  proof -
    have "(\<exists>g \<in># guards S. guard_page_id g = p) \<or> (\<exists>f. MarkDirty_enter p f \<in> set (threads S))"
      using sinvD(4) [OF inv] that(1) by (simp add: unmarked_guarded_def)
    then show ?thesis
    proof
      assume "\<exists>g \<in># guards S. guard_page_id g = p"
      then obtain g where "g \<in># guards S" "guard_page_id g = p" by blast
      then have "Pin p (guard_frame_id g) \<in># ?R" by (auto simp: other_tokens_def guard_token_def)
      then show ?thesis ..
    next
      assume "\<exists>f. MarkDirty_enter p f \<in> set (threads S)"
      then obtain f j where j: "j < length (threads S)" "threads S ! j = MarkDirty_enter p f" by (auto simp: in_set_conv_nth)
      then have "j \<noteq> i" using that(2) by auto
      then have "Pin p f \<in># ?R" using held_thread [OF i j(1)] j(2) by simp
      then show ?thesis ..
    qed
  qed
  have pre: "pc_pre (unmarked S) ?R ?s ?pc"
    using ok ug by (cases ?pc) auto
  have ok': "pc_ok (disk S) (unmarked S) ?s ?pc" using sinvD(2) [OF inv mem] .
  note P = section_progress [OF m g ok' pre, unfolded rs progress_def fst_conv snd_conv]
  have tok: "after (pc_op ?pc) r = held (next_pc r) + image_mset guard_token (handed ?pc r)"
    using section_tokens [OF refl] P by blast
  let ?T = "S\<lparr>sys_bm := block i r s', guards := guards S + handed ?pc r, unmarked := ?U\<rparr>"
  have tokT: "held (next_pc r) + other_tokens i ?T = after (pc_op ?pc) r + ?R"
    by (simp add: tok other_tokens_def ac_simps)
  have gb: "good D U X T (block i r s') = good D U X T s'" for D U X T
    by (simp add: block_def split: sum.splits ending.splits)
  have U: "?U \<subseteq> unmarked S" by (cases ?pc) auto
  have sc: "j \<in> state_changed (block i r s') \<longleftrightarrow> (j = i \<and> (\<exists>pc. r = Inr (Wait pc))) \<or> j \<in> state_changed s'" for j
    by (auto simp: block_def split: sum.splits ending.splits)
  have mv: "state_changed s' = {} \<or> state_changed s' = state_changed ?s \<and>
      (\<forall>p. transient (entry_of ?s p) \<longrightarrow> entry_of s' p = entry_of ?s p)" using P unfolding moved_def by blast
  have "sinv S'"
    unfolding S'
  proof (rule sinv_set_pc [OF i])
    show "good (disk ?T) (unmarked ?T) {} (held (next_pc r) + other_tokens i ?T) (sys_bm ?T)"
      unfolding tokT using P by (simp add: gb)
    show "threads ?T = threads S" by simp
    show "pc_ok (disk ?T) (unmarked ?T) (sys_bm ?T) (threads S ! j)" if j: "j < length (threads S)" "j \<noteq> i" for j
      using pc_ok_moved [OF sinvD(2) [OF inv] _ held_thread [OF i j] U] P j(1) by simp
    show "pc_ok (disk ?T) (unmarked ?T) (sys_bm ?T) (next_pc r)"
      using P by (cases r; cases "projr r") (auto elim: waits.elims)
    show "j < length (threads S) \<and> (if j = i then waits (next_pc r) (sys_bm ?T) else waits (threads S ! j) (sys_bm ?T))"
      if j: "j \<in> state_changed (sys_bm ?T)" for j
    proof (cases "j = i")
      case True
      then have "\<exists>pc. r = Inr (Wait pc)" using j nb mv sc [of i] by auto
      then show ?thesis using P True i by auto
    next
      case False
      then have "state_changed s' = state_changed ?s" "j \<in> state_changed ?s"
        and tr: "\<And>p. transient (entry_of ?s p) \<Longrightarrow> entry_of s' p = entry_of ?s p"
        using j mv sc [of j] by auto
      then show ?thesis using sinvD(3) [OF inv, of j] waits_moved [OF _ tr] False by simp
    qed
    show "unmarked_guarded (unmarked ?T) (guards ?T) ((threads S)[i := next_pc r])"
    proof (rule unmarked_guarded_upd [OF sinvD(4) [OF inv] i])
      fix p f assume "?pc = MarkDirty_enter p f" "p \<in> unmarked ?T"
      then show "(\<exists>g \<in># guards ?T. guard_page_id g = p) \<or> next_pc r = MarkDirty_enter p f" by simp
    qed (use U in auto)
    show "page_ok (disk ?T p)" for p using sinvD(5) [OF inv] by simp
  qed
  moreover have "system_contents S = page_contents (disk S) (held ?pc + ?R) ?s"
    by (simp add: system_contents_def all_tokens_other [OF i])
  moreover have "system_contents S' = page_contents (disk S) (after (pc_op ?pc) r + ?R) s'"
    unfolding S' system_contents_def using i tokT by (simp add: all_tokens_set_pc) (simp add: set_pc_def)
  ultimately show ?thesis using P m rs by auto
qed

text \<open>A page write, complete or torn, by the thread that holds the page's frame.\<close>

lemma step_write:
  assumes inv: "sinv S" and i: "i < length (threads S)"
    and e: "entry_of (sys_bm S) p = resident f \<or> entry_of (sys_bm S) p = evicting f"
    and w: "content_of (sys_bm S) f = disk S p \<Longrightarrow> w = content_of (sys_bm S) f" and ok: "page_ok w"
    and pc: "held pc = held (threads S ! i)" "pc_ok ((disk S)(p := w)) (unmarked S) (sys_bm S) pc"
    and nw: "\<not> waits (threads S ! i) (sys_bm S)" "\<And>q g. threads S ! i \<noteq> MarkDirty_enter q g"
  shows "sinv (set_pc i pc (S\<lparr>disk := (disk S)(p := w)\<rparr>)) \<and>
    system_contents (set_pc i pc (S\<lparr>disk := (disk S)(p := w)\<rparr>)) = system_contents S"
proof -
  let ?T = "S\<lparr>disk := (disk S)(p := w)\<rparr>" and ?s = "sys_bm S"
  note g = sinvD(1) [OF inv]
  note tok = goodD(2) [OF g]
  have tk: "held pc + other_tokens i ?T = all_tokens S" using all_tokens_other [OF i] pc(1) by simp
  have "sinv (set_pc i pc ?T)"
  proof (rule sinv_set_pc [OF i])
    show "good (disk ?T) (unmarked ?T) {} (held pc + other_tokens i ?T) (sys_bm ?T)"
      unfolding tk using goodD(1) [OF g] tok_disk [OF tok e w] by (simp add: bm_good_def)
    show "threads ?T = threads S" by simp
    show "pc_ok (disk ?T) (unmarked ?T) (sys_bm ?T) (threads S ! j)" if "j < length (threads S)" "j \<noteq> i" for j
    proof -
      have "threads S ! j \<in> set (threads S)" using that(1) by simp
      from pc_ok_disk [OF sinvD(2) [OF inv this] tok thread_held [OF this] e w] show ?thesis by simp
    qed
    show "pc_ok (disk ?T) (unmarked ?T) (sys_bm ?T) pc" using pc(2) by simp
    show "j < length (threads S) \<and> (if j = i then waits pc (sys_bm ?T) else waits (threads S ! j) (sys_bm ?T))"
      if "j \<in> state_changed (sys_bm ?T)" for j
      using sinvD(3) [OF inv, of j] that nw(1) by auto
    show "unmarked_guarded (unmarked ?T) (guards ?T) ((threads S)[i := pc])"
      by (rule unmarked_guarded_upd [OF sinvD(4) [OF inv] i]) (use nw(2) in auto)
    show "page_ok (disk ?T q)" for q using sinvD(5) [OF inv] ok by simp
  qed
  moreover have "system_contents (set_pc i pc ?T) = system_contents S"
    using tk i contents_disk [of "entry_of ?s" p f "disk S" w, OF e]
    by (simp add: system_contents_def all_tokens_set_pc) (simp add: set_pc_def)
  ultimately show ?thesis ..
qed

text \<open>A page read, complete or not, by the thread that owns the load.\<close>

lemma step_read:
  assumes inv: "sinv S" and i: "i < length (threads S)" and p: "threads S ! i = Load_read p f" and c: "page_ok c"
    and pc: "pc = Load_done p f \<and> c = disk S p \<or> pc = Load_failed p f x"
  shows "sinv (set_pc i pc (fill_frame f c S)) \<and> system_contents (set_pc i pc (fill_frame f c S)) = system_contents S"
proof -
  let ?T = "fill_frame f c S" and ?s = "sys_bm S"
  have h: "held pc = {#Loading p f#}" using pc by auto
  have tk: "held pc + other_tokens i S = all_tokens S" using all_tokens_other [OF i] p h by simp
  have g: "good (disk S) (unmarked S) {} (add_mset (Loading p f) (other_tokens i S)) ?s"
    using sinvD(1) [OF inv] tk h by simp
  note gf = good_fill [OF g c]
  have f: "unat f < unat (fa_frame_count (frame_allocator ?s))"
    using frame_bound [OF g, of f] duty_frame(1) [OF goodD(2) [OF g], of p f] by simp
  note v = put_content_views [OF goodD(4) [OF g] f, of c]
  have "sinv (set_pc i pc ?T)"
  proof (rule sinv_set_pc [OF i])
    show "good (disk ?T) (unmarked ?T) {} (held pc + other_tokens i ?T) (sys_bm ?T)"
      using gf(1) h by (simp add: fill_frame_def)
    show "threads ?T = threads S" by (simp add: fill_frame_def)
    show "pc_ok (disk ?T) (unmarked ?T) (sys_bm ?T) (threads S ! j)" if "j < length (threads S)" "j \<noteq> i" for j
      using pc_ok_moved [OF sinvD(2) [OF inv] gf(2) held_thread [OF i that] order_refl] that(1)
      by (simp add: fill_frame_def)
    show "pc_ok (disk ?T) (unmarked ?T) (sys_bm ?T) pc" using pc gf(3) by (auto simp: fill_frame_def)
    show "j < length (threads S) \<and> (if j = i then waits pc (sys_bm ?T) else waits (threads S ! j) (sys_bm ?T))"
      if "j \<in> state_changed (sys_bm ?T)" for j
      using sinvD(3) [OF inv, of j] that p waits_cong [of "put_content f c ?s" ?s] v by (auto simp: fill_frame_def)
    show "unmarked_guarded (unmarked ?T) (guards ?T) ((threads S)[i := pc])"
      by (rule unmarked_guarded_upd [OF sinvD(4) [OF inv] i]) (use p in \<open>auto simp: fill_frame_def\<close>)
    show "page_ok (disk ?T q)" for q using sinvD(5) [OF inv] by (simp add: fill_frame_def)
  qed
  moreover have "system_contents (set_pc i pc ?T) = system_contents S"
    using gf(4) i h all_tokens_other [OF i] p
    by (simp add: system_contents_def all_tokens_set_pc fill_frame_def) (simp add: set_pc_def)
  ultimately show ?thesis ..
qed

lemma step_client_write:
  assumes inv: "sinv S" and g: "h \<in># guards S" and c: "page_ok c"
    and T: "T = (fill_frame (guard_frame_id h) c S)\<lparr>unmarked := insert (guard_page_id h) (unmarked S)\<rparr>"
  shows "sinv T \<and> system_contents S (guard_page_id h) \<noteq> None \<and>
    system_contents T = (system_contents S)(guard_page_id h := Some c)"
proof -
  let ?p = "guard_page_id h" and ?f = "guard_frame_id h" and ?s = "sys_bm S"
  note gd = sinvD(1) [OF inv]
  have t: "Pin ?p ?f \<in># all_tokens S" using g by (auto simp: all_tokens_def guard_token_def)
  note gw = good_write [OF gd t c]
  have f: "unat ?f < unat (fa_frame_count (frame_allocator ?s))"
    using frame_bound [OF gd, of ?f] pin_resident(1) [OF goodD(2) [OF gd] t] by simp
  note v = put_content_views [OF goodD(4) [OF gd] f, of c]
  have tk: "all_tokens T = all_tokens S" by (simp add: T all_tokens_def fill_frame_def)
  have "unmarked_guarded (insert ?p (unmarked S)) (guards S) (threads S)"
    using sinvD(4) [OF inv] g by (auto simp: unmarked_guarded_def)
  moreover have "waits (threads S ! j) (put_content ?f c ?s)" if "j \<in> state_changed ?s" for j
    using sinvD(3) [OF inv that] waits_cong [OF v(2)] by simp
  moreover have "pc_ok (disk S) (insert ?p (unmarked S)) (put_content ?f c ?s) pc" if "pc \<in> set (threads S)" for pc
    using gw(4) [OF sinvD(2) [OF inv that] thread_held [OF that]] .
  ultimately have "sinv T"
    using gw(1) sinvD(3,5) [OF inv] unfolding system_inv_def threads_ok_def tk
    by (simp add: T fill_frame_def v(4))
  moreover have "system_contents T = (system_contents S)(?p := Some c)"
    using gw(2) unfolding system_contents_def tk by (simp add: T fill_frame_def)
  ultimately show ?thesis using gw(3) by (simp add: system_contents_def)
qed

lemma step_io_ok:
  assumes inv: "sinv S" and i: "i < length (threads S)" and io: "io_ok i (threads S ! i) S = Some S'"
  shows "sinv S' \<and> system_contents S' = system_contents S"
proof -
  let ?pc = "threads S ! i" and ?s = "sys_bm S"
  have mem: "?pc \<in> set (threads S)" using i by simp
  note ok = sinvD(2) [OF inv mem]
  note gd = sinvD(1) [OF inv] and tok = goodD(2) [OF sinvD(1) [OF inv]]
  note held = thread_held [OF mem]
  consider (evict) who f p d e where "?pc = Evict_write who f p d e" | (load) p f where "?pc = Load_read p f"
    | (flush) p f e rest where "?pc = Flush_write p f e rest"
    using io by (cases ?pc) auto
  then show ?thesis
  proof cases
    case evict
    then have dt: "fm_state (meta_of ?s f) = kFrameEvicting" "entry_of ?s p = evicting f"
      using duty_frame(2) [OF tok held, of p f] by auto
    define w where "w = (if d then content_of ?s f else disk S p)"
    have D: "(disk S)(p := w) = (if d then (disk S)(p := content_of ?s f) else disk S)" by (simp add: w_def)
    have wf: "w = content_of ?s f" using ok evict by (auto simp: w_def)
    then have "page_ok w" using content_ok [OF gd, of f] dt by simp
    then have "sinv (set_pc i (Evict_done who f p) (S\<lparr>disk := (disk S)(p := w)\<rparr>)) \<and>
        system_contents (set_pc i (Evict_done who f p) (S\<lparr>disk := (disk S)(p := w)\<rparr>)) = system_contents S"
      by (intro step_write [OF inv i]) (use dt evict ok wf in auto)
    moreover have "S' = set_pc i (Evict_done who f p) (S\<lparr>disk := (disk S)(p := w)\<rparr>)"
      using io evict by (auto simp: D write_page_def split: if_splits)
    ultimately show ?thesis by simp
  next
    case load
    then show ?thesis
      using io step_read [OF inv i load sinvD(5) [OF inv], of "Load_done p f" p] by simp
  next
    case flush
    note pr = pin_resident [OF tok held, of p f]
    have "page_ok (content_of ?s f)" using content_ok [OF gd, of f] pr(1) flush by simp
    then have "sinv (set_pc i (Flush_done p f e rest) (S\<lparr>disk := (disk S)(p := content_of ?s f)\<rparr>)) \<and>
        system_contents (set_pc i (Flush_done p f e rest) (S\<lparr>disk := (disk S)(p := content_of ?s f)\<rparr>)) = system_contents S"
      by (intro step_write [OF inv i]) (use pr(3) flush ok in auto)
    then show ?thesis using io flush by (simp add: write_page_def)
  qed
qed

lemma step_io_fail:
  assumes inv: "sinv S" and i: "i < length (threads S)" and io: "io_fail i (threads S ! i) x k c S = Some S'"
  shows "sinv S' \<and> system_contents S' = system_contents S"
proof -
  let ?pc = "threads S ! i" and ?s = "sys_bm S"
  have mem: "?pc \<in> set (threads S)" using i by simp
  note ok = sinvD(2) [OF inv mem]
  note gd = sinvD(1) [OF inv] and tok = goodD(2) [OF sinvD(1) [OF inv]]
  note held = thread_held [OF mem]
  consider (evict) who f p e where "?pc = Evict_write who f p True e" | (load) p f where "?pc = Load_read p f" "page_ok c"
    | (flush) p f e rest where "?pc = Flush_write p f e rest"
    using io by (cases ?pc) (auto split: if_splits)
  then show ?thesis
  proof cases
    case evict
    then have dt: "fm_state (meta_of ?s f) = kFrameEvicting" "entry_of ?s p = evicting f"
      using duty_frame(2) [OF tok held, of p f] by auto
    let ?w = "torn_page k (content_of ?s f) (disk S p)"
    have "page_ok ?w" using content_ok [OF gd, of f] dt sinvD(5) [OF inv] by (simp add: page_ok_torn)
    then have "sinv (set_pc i (Evict_failed who f p True e x) (S\<lparr>disk := (disk S)(p := ?w)\<rparr>)) \<and>
        system_contents (set_pc i (Evict_failed who f p True e x) (S\<lparr>disk := (disk S)(p := ?w)\<rparr>)) = system_contents S"
      by (intro step_write [OF inv i]) (use dt evict ok torn_same in auto)
    then show ?thesis using io evict by (simp add: write_torn_def)
  next
    case load
    then show ?thesis
      using io step_read [OF inv i load, of "Load_failed p f x" x] by simp
  next
    case flush
    note pr = pin_resident [OF tok held, of p f]
    let ?w = "torn_page k (content_of ?s f) (disk S p)"
    have "page_ok ?w" using content_ok [OF gd, of f] pr(1) flush sinvD(5) [OF inv] by (simp add: page_ok_torn)
    then have "sinv (set_pc i (Flush_failed p f x) (S\<lparr>disk := (disk S)(p := ?w)\<rparr>)) \<and>
        system_contents (set_pc i (Flush_failed p f x) (S\<lparr>disk := (disk S)(p := ?w)\<rparr>)) = system_contents S"
      by (intro step_write [OF inv i]) (use pr(3) flush ok torn_same in auto)
    then show ?thesis using io flush by (simp add: write_torn_def)
  qed
qed

theorem step_progress:
  assumes inv: "sinv S" and ok: "client_ok S l" and st: "step ops l S = Some S'"
  shows "sinv S' \<and> label_effect ops S l (system_contents S) (system_contents S')"
proof (cases l)
  case (Start i pc)
  then have a: "i < length (threads S)" "threads S ! i = Idle" "entry_point pc" "S' = set_pc i pc (S\<lparr>guards := guards S\<rparr>)"
    using st by (auto split: if_splits)
  have "held pc = {#}" "pc_ok D U s pc" for D U and s :: "'r BufferManager"
    using a(3) by (cases pc; simp)+
  then show ?thesis
    using step_start [OF inv a(1,2), of pc "guards S"] Start a(4) by auto
next
  case (Start_drop i g)
  let ?pc = "Drop_enter (guard_page_id g) (guard_frame_id g)"
  have a: "i < length (threads S)" "threads S ! i = Idle" "g \<in># guards S" "S' = set_pc i ?pc (S\<lparr>guards := guards S - {#g#}\<rparr>)"
    using st Start_drop by (auto split: if_splits)
  obtain G where G: "guards S = add_mset g G" using a(3) by (metis multi_member_split)
  have "sinv S' \<and> system_contents S' = system_contents S"
    unfolding a(4)
  proof (rule step_start [OF inv a(1,2)])
    show "held ?pc + image_mset guard_token (guards S - {#g#}) = image_mset guard_token (guards S)"
      by (simp add: G guard_token_def)
    show "(\<exists>h \<in># guards S - {#g#}. guard_page_id h = p) \<or> (\<exists>f. ?pc = MarkDirty_enter p f)"
      if "h \<in># guards S" "guard_page_id h = p" "p \<in> unmarked S" for p h
      using that ok Start_drop by (cases "h = g") (auto simp: G)
  qed simp
  then show ?thesis using Start_drop by simp
next
  case (Start_mark i g)
  let ?pc = "MarkDirty_enter (guard_page_id g) (guard_frame_id g)"
  have a: "i < length (threads S)" "threads S ! i = Idle" "g \<in># guards S" "S' = set_pc i ?pc (S\<lparr>guards := guards S - {#g#}\<rparr>)"
    using st Start_mark by (auto split: if_splits)
  obtain G where G: "guards S = add_mset g G" using a(3) by (metis multi_member_split)
  have "sinv S' \<and> system_contents S' = system_contents S"
    unfolding a(4)
  proof (rule step_start [OF inv a(1,2)])
    show "held ?pc + image_mset guard_token (guards S - {#g#}) = image_mset guard_token (guards S)"
      by (simp add: G guard_token_def)
    show "(\<exists>h \<in># guards S - {#g#}. guard_page_id h = p) \<or> (\<exists>f. ?pc = MarkDirty_enter p f)"
      if "h \<in># guards S" "guard_page_id h = p" "p \<in> unmarked S" for p h
      using that by (cases "h = g") (auto simp: G)
  qed simp
  then show ?thesis using Start_mark by simp
next
  case (Run i)
  then have "i < length (threads S)" "run_section ops i S = Some S'" using st by (auto split: if_splits)
  then show ?thesis using step_run [OF inv, of i] ok Run by blast
next
  case (Io_ok i)
  then show ?thesis using st step_io_ok [OF inv, of i S'] by (auto split: if_splits)
next
  case (Io_fail i x k c)
  then show ?thesis using st step_io_fail [OF inv, of i x k c S'] by (auto split: if_splits)
next
  case (Wakeup i)
  let ?s = "(sys_bm S)\<lparr>state_changed := state_changed (sys_bm S) - {i}\<rparr>"
  have S': "S' = S\<lparr>sys_bm := ?s\<rparr>" using st Wakeup by simp
  have tk: "all_tokens S' = all_tokens S" by (simp add: S' all_tokens_def)
  have "pc_ok D U ?s pc = pc_ok D U (sys_bm S) pc" "waits pc ?s = waits pc (sys_bm S)" for D U pc
    by (rule pc_ok_cong waits_cong; simp)+
  then have "threads_ok S'" using inv by (simp add: S' system_inv_def threads_ok_def)
  then have "sinv S'" using sinvD(1) [OF inv] unfolding system_inv_def tk by (simp add: S')
  moreover have "system_contents S' = system_contents S" unfolding system_contents_def tk by (simp add: S')
  ultimately show ?thesis using Wakeup by simp
next
  case (Client_write g c)
  then have a: "g \<in># guards S" "page_ok c"
      "S' = (fill_frame (guard_frame_id g) c S)\<lparr>unmarked := insert (guard_page_id g) (unmarked S)\<rparr>"
    using st by (auto split: if_splits)
  then show ?thesis using step_client_write [OF inv a] Client_write by simp
qed

end

end
