(* ===== verification/Buffer_Correctness.thy ===== *)
theory Buffer_Correctness
  imports Buffer_System
begin

text \<open>
  What holds in every state a buffer manager with a clock replacer can get into.
\<close>

subsection \<open>Reachable states\<close>

inductive reachable :: "'r Replacer \<Rightarrow> 'r system \<Rightarrow> 'r system \<Rightarrow> bool" for R S0 where
  start: "reachable R S0 S0"
| step: "reachable R S0 S \<Longrightarrow> client_ok S l \<Longrightarrow> step R l S = Some S' \<Longrightarrow> reachable R S0 S'"

definition initial_system :: "'r BufferManager \<Rightarrow> nat \<Rightarrow> (PageId \<Rightarrow> Page) \<Rightarrow> 'r system" where
  "initial_system bm n D =
     \<lparr>sys_bm = bm, disk = D, threads = replicate n Idle, guards = {#}, unmarked = {}\<rparr>"

lemma thread_tokens_idle [simp]: "thread_tokens (replicate n Idle) = {#}"
  by (induction n) (simp_all add: thread_tokens_def)

lemma all_tokens_quiet:
  assumes "\<forall>pc \<in> set (threads S). pc = Idle" and "guards S = {#}"
  shows "all_tokens S = {#}"
proof -
  have "threads S = replicate (length (threads S)) Idle" using assms(1) by (simp add: map_replicate_const [symmetric] map_idI list_eq_iff_nth_eq)
  then show ?thesis using assms(2) thread_tokens_idle by (metis add.right_neutral all_tokens_def image_mset_empty)
qed

lemma loading_iff:
  assumes "coherent M E"
  shows "fm_state (M f) = kFrameLoading \<and> fm_page_id (M f) = Some p \<longleftrightarrow> E p = loading f"
proof
  assume a: "fm_state (M f) = kFrameLoading \<and> fm_page_id (M f) = Some p"
  then obtain q where "fm_page_id (M f) = Some q" "E q = loading f" using coherent_frameD(2) [OF assms] by blast
  then show "E p = loading f" using a by simp
next
  assume e: "E p = loading f"
  then have fr: "pe_frame_id (E p) = Some f" by simp
  show "fm_state (M f) = kFrameLoading \<and> fm_page_id (M f) = Some p"
    using coherent_pageD [OF assms fr] e by simp
qed

lemma evicting_iff:
  assumes "coherent M E"
  shows "fm_state (M f) = kFrameEvicting \<and> fm_page_id (M f) = Some p \<longleftrightarrow> E p = evicting f"
proof
  assume a: "fm_state (M f) = kFrameEvicting \<and> fm_page_id (M f) = Some p"
  then obtain q where "fm_page_id (M f) = Some q" "E q = evicting f" using coherent_frameD(4) [OF assms] by blast
  then show "E p = evicting f" using a by simp
next
  assume e: "E p = evicting f"
  then have fr: "pe_frame_id (E p) = Some f" by simp
  show "fm_state (M f) = kFrameEvicting \<and> fm_page_id (M f) = Some p"
    using coherent_pageD [OF assms fr] e by simp
qed

lemma Unpin_views:
  assumes "UnpinFrameLocked R f s = (Inr (), s')" and "unat f < length (frame_meta s)"
  shows "meta_of s' f = (meta_of s f)\<lparr>pin_count := pin_count (meta_of s f) - 1\<rparr> \<and> entry_of s' = entry_of s \<and>
    content_of s' = content_of s"
proof -
  let ?s1 = "put_meta f ((meta_of s f)\<lparr>pin_count := pin_count (meta_of s f) - 1\<rparr>) s"
  have "\<exists>r. s' = ?s1\<lparr>replacer := r\<rparr>"
    using assms
    by (auto simp: UnpinFrameLocked_def get_meta_in_range on_replacer_def zoomA_def put_meta_def
        split: if_splits prod.splits intro: exI [where x = "replacer s"])
  then show ?thesis using assms(2) by auto
qed

lemma Unpin_meta:
  assumes "UnpinFrameLocked R f s = (Inr (), s')" and "unat f < length (frame_meta s)"
  shows "pin_count (meta_of s f) \<noteq> 0 \<and>
    meta_of s' = (meta_of s)(f := (meta_of s f)\<lparr>pin_count := pin_count (meta_of s f) - 1\<rparr>)"
proof -
  let ?s1 = "put_meta f ((meta_of s f)\<lparr>pin_count := pin_count (meta_of s f) - 1\<rparr>) s"
  have "pin_count (meta_of s f) \<noteq> 0 \<and> (\<exists>r. s' = ?s1\<lparr>replacer := r\<rparr>)"
    using assms
    by (auto simp: UnpinFrameLocked_def get_meta_in_range on_replacer_def zoomA_def put_meta_def
        split: if_splits prod.splits intro: exI [where x = "replacer s"])
  then show ?thesis using assms(2) by auto
qed

text \<open>
  The pages a blocked thread waits for: the page of its operation while it is loading or being
  evicted, or, when it needs a frame, any such page.
\<close>

fun awaits :: "pc \<Rightarrow> PageId \<Rightarrow> bool" where
  "awaits (FetchPage_enter p) q \<longleftrightarrow> q = p"
| "awaits (FlushPage_enter p rest) q \<longleftrightarrow> q = p"
| "awaits (DeletePage_enter p) q \<longleftrightarrow> q = p"
| "awaits (NewPage_retry p) q \<longleftrightarrow> True"
| "awaits (FetchPage_retry p) q \<longleftrightarrow> True"
| "awaits _ q \<longleftrightarrow> False"

lemma waits_awaits: "waits pc s \<Longrightarrow> \<exists>q. awaits pc q \<and> transient (entry_of s q)"
  by (cases pc) auto

subsection \<open>Under any replacer that keeps the contract\<close>

context replacer_contract begin

lemma initial_inv:
  assumes fa: "fa_inv fa" "allocated fa = {}" and pt: "pt_inv pt" "page_entry pt = (\<lambda>_. no_entry)"
    and r: "inv r" "capacity r = unat (fa_frame_count fa)" "tracked r = {}"
    and bm: "bm = \<lparr>options = opts, frame_allocator = fa, page_table = pt, replacer = r,
       frame_meta = replicate (unat (fa_frame_count fa)) empty_meta, state_changed = {}\<rparr>"
    and D: "\<forall>p. page_ok (D p)"
  shows "sinv (initial_system bm n D)"
proof -
  have M: "meta_of bm = (\<lambda>_. empty_meta)" by (auto simp: bm meta_of_def fun_eq_iff)
  have E: "entry_of bm = (\<lambda>_. no_entry)" by (simp add: bm pt(2))
  have ca: "candidates r = {}" using subset [OF r(1)] r(3) by auto
  have coh: "coherent (meta_of bm) (entry_of bm)"
    by (simp add: coherent_def M E frame_coherent_def)
  have b: "binv {} bm"
    unfolding bm_inv_def using coh fa pt r ca by (simp add: M E) (simp add: bm)
  have tok: "tok_inv D {} {#} (meta_of bm) (entry_of bm) (content_of bm)"
    using coh by (simp add: tok_inv_def tok_defs M E)
  have T: "all_tokens (initial_system bm n D) = {#}" by (simp add: all_tokens_def initial_system_def)
  show ?thesis
    unfolding system_inv_def T bm_good_def
    using b tok D by (simp add: initial_system_def threads_ok_def unmarked_guarded_def) (simp add: bm)
qed

lemma reachable_inv: "reachable ops S0 S \<Longrightarrow> sinv S0 \<Longrightarrow> sinv S"
  by (induction rule: reachable.induct) (use step_progress in blast)+

subsection \<open>Guards\<close>

lemma guard_valid:
  assumes inv: "sinv S" and g: "g \<in># guards S"
  shows "entry_of (sys_bm S) (guard_page_id g) = resident (guard_frame_id g)"
    and "system_contents S (guard_page_id g) = Some (content_of (sys_bm S) (guard_frame_id g))"
    and "guard_frame_id g \<notin> candidates (replacer (sys_bm S))"
    and "unat (pin_count (meta_of (sys_bm S) (guard_frame_id g))) = pins (all_tokens S) (guard_frame_id g)"
    and "guard_frame_id g \<in> allocated (frame_allocator (sys_bm S))"
proof -
  let ?p = "guard_page_id g" and ?f = "guard_frame_id g" and ?s = "sys_bm S"
  note gd = sinvD(1) [OF inv]
  have t: "Pin ?p ?f \<in># all_tokens S" using g by (auto simp: all_tokens_def guard_token_def)
  note pr = pin_resident [OF goodD(2) [OF gd] t]
  show e: "entry_of ?s ?p = resident ?f" by (rule pr)
  show "unat (pin_count (meta_of ?s ?f)) = pins (all_tokens S) ?f" by (rule pr)
  have "Creating ?p \<notin># all_tokens S" using creating_entry [OF goodD(2) [OF gd], of ?p] e by auto
  then show "system_contents S ?p = Some (content_of ?s ?f)" using e by (simp add: system_contents_def contents_def)
  show "?f \<notin> candidates (replacer ?s)" using binv_parts(10) [OF goodD(1) [OF gd]] pr(4) by simp
  show "?f \<in> allocated (frame_allocator ?s)" using binv_parts(7) [OF goodD(1) [OF gd]] pr(1) by simp
qed

subsection \<open>No deadlock\<close>

lemma token_owner:
  assumes "t \<in># all_tokens S" and "\<And>p f. t \<noteq> Pin p f"
  shows "\<exists>j < length (threads S). t \<in># held (threads S ! j)"
proof -
  have "t \<notin># image_mset guard_token (guards S)" using assms(2) by (auto simp: guard_token_def)
  then have "t \<in># thread_tokens (threads S)" using assms(1) by (simp add: all_tokens_def)
  then show ?thesis by (auto simp: thread_tokens_mem in_set_conv_nth)
qed

lemma transient_owner:
  assumes inv: "sinv S" and tr: "transient (entry_of (sys_bm S) p)"
  shows "\<exists>f j. j < length (threads S) \<and> (Loading p f \<in># held (threads S ! j) \<or> Evicting p f \<in># held (threads S ! j))"
proof -
  let ?s = "sys_bm S"
  note gd = sinvD(1) [OF inv]
  note tok = tok_invD(1,3) [OF goodD(2) [OF gd]]
  have "pe_frame_id (entry_of ?s p) \<noteq> None"
    using goodD(5) [OF gd, of p] tr by (auto simp: transient_def entry_ok_def)
  then obtain f where f: "pe_frame_id (entry_of ?s p) = Some f" by blast
  note cp = coherent_pageD [OF tok(1) f]
  have "fm_state (meta_of ?s f) = kFrameLoading \<or> fm_state (meta_of ?s f) = kFrameEvicting"
    using cp(2) tr by (auto simp: transient_def)
  then have "0 < count (all_tokens S) (Loading p f) \<or> 0 < count (all_tokens S) (Evicting p f)"
    using tok(2) cp(1) by (auto simp: duties_agree_def)
  then have "Loading p f \<in># all_tokens S \<or> Evicting p f \<in># all_tokens S"
    by (simp only: count_greater_zero_iff)
  then show ?thesis using token_owner [of _ S] by blast
qed

text \<open>The owner of a load or an eviction is never blocked: it can take a step.\<close>

lemma owner_can_step:
  assumes inv: "sinv S" and j: "j < length (threads S)"
    and own: "Loading p f \<in># held (threads S ! j) \<or> Evicting p f \<in># held (threads S ! j)"
  shows "j \<notin> state_changed (sys_bm S)" and "\<exists>S'. step ops (Run j) S = Some S' \<or> step ops (Io_ok j) S = Some S'"
proof -
  let ?pc = "threads S ! j"
  have nw: "\<not> waits ?pc (sys_bm S)" using own by (cases ?pc) (auto elim: claim.elims)
  then show nb: "j \<notin> state_changed (sys_bm S)" using not_blocked [OF inv] by simp
  consider (io) S' where "io_ok j ?pc S = Some S'" | (cs) m where "critical_section ops ?pc = Some m"
  proof (cases ?pc)
    case (Evict_done who f' p')
    then show ?thesis using cs by (cases who) auto
  next
    case (Evict_failed who f' p' d e x)
    then show ?thesis using cs by (cases who) auto
  qed (use own io cs in auto)
  then show "\<exists>S'. step ops (Run j) S = Some S' \<or> step ops (Io_ok j) S = Some S'"
  proof cases
    case cs
    then have "\<exists>S'. run_section ops j S = Some S'"
      using nb by (simp add: run_section_def Let_def split: prod.splits)
    then show ?thesis using j by auto
  qed (use j in auto)
qed

lemma transient_owner_steps:
  assumes inv: "sinv S" and tr: "transient (entry_of (sys_bm S) p)"
  shows "\<exists>j f S'. j < length (threads S) \<and> j \<notin> state_changed (sys_bm S) \<and>
    (Loading p f \<in># held (threads S ! j) \<and> entry_of (sys_bm S) p = loading f \<or>
     Evicting p f \<in># held (threads S ! j) \<and> entry_of (sys_bm S) p = evicting f) \<and>
    (step ops (Run j) S = Some S' \<or> step ops (Io_ok j) S = Some S')"
proof -
  obtain f j where j: "j < length (threads S)"
      "Loading p f \<in># held (threads S ! j) \<or> Evicting p f \<in># held (threads S ! j)"
    using transient_owner [OF inv tr] by blast
  have "threads S ! j \<in> set (threads S)" using j(1) by simp
  note h = thread_held [OF this] and tok = goodD(2) [OF sinvD(1) [OF inv]]
  have "Loading p f \<in># held (threads S ! j) \<and> entry_of (sys_bm S) p = loading f \<or>
      Evicting p f \<in># held (threads S ! j) \<and> entry_of (sys_bm S) p = evicting f"
    using j(2) duty_frame(1) [OF tok h, of p f] duty_frame(2) [OF tok h, of p f] by blast
  then show ?thesis using owner_can_step [OF inv j] j(1) by blast
qed

subsection \<open>Quiet states\<close>

lemma quiet_state:
  assumes inv: "sinv S" and q: "\<forall>pc \<in> set (threads S). pc = Idle" "guards S = {#}"
  shows "state_changed (sys_bm S) = {}" and "unmarked S = {}"
    and "candidates (replacer (sys_bm S)) = allocated (frame_allocator (sys_bm S))"
    and "f \<in> allocated (frame_allocator (sys_bm S)) \<longleftrightarrow> (\<exists>p. entry_of (sys_bm S) p = resident f)"
    and "pe_state (entry_of (sys_bm S) p) \<in> {kUnused, kNonResident, kResident}"
proof -
  let ?s = "sys_bm S"
  have T: "all_tokens S = {#}" by (rule all_tokens_quiet [OF q])
  note gd = sinvD(1) [OF inv, unfolded T]
  note tok = tok_invD [OF goodD(2) [OF gd]]
  show "state_changed ?s = {}"
  proof (rule equals0I)
    fix i assume "i \<in> state_changed ?s"
    then have "i < length (threads S)" "waits (threads S ! i) ?s" using sinvD(3) [OF inv] by auto
    moreover from this have "threads S ! i = Idle" using q(1) nth_mem by blast
    ultimately show False by simp
  qed
  show "unmarked S = {}" using tok(6) by (auto simp: unmarked_pinned_def)
  have st: "fm_state (meta_of ?s h) = kFree \<or> fm_state (meta_of ?s h) = kFrameResident \<and> pin_count (meta_of ?s h) = 0" for h
  proof (cases "fm_state (meta_of ?s h)")
    case kFrameLoading
    then obtain q where "fm_page_id (meta_of ?s h) = Some q" using coherent_frameD(2) [OF tok(1)] by blast
    with kFrameLoading tok(3) show ?thesis unfolding duties_agree_def by (metis count_empty zero_neq_one)
  next
    case kFrameEvicting
    then obtain q where "fm_page_id (meta_of ?s h) = Some q" using coherent_frameD(4) [OF tok(1)] by blast
    with kFrameEvicting tok(3) show ?thesis unfolding duties_agree_def by (metis count_empty zero_neq_one)
  next
    case kFrameResident
    then have "unat (pin_count (meta_of ?s h)) = 0" using tok(2) by (simp add: pins_agree_def)
    then show ?thesis using kFrameResident by (simp add: unat_eq_0)
  qed simp
  have al: "h \<in> allocated (frame_allocator ?s) \<longleftrightarrow> fm_state (meta_of ?s h) = kFrameResident" for h
    using binv_parts(7) [OF goodD(1) [OF gd], of h] st [of h] by auto
  show "candidates (replacer ?s) = allocated (frame_allocator ?s)"
    using al st binv_parts(10) [OF goodD(1) [OF gd]] by (metis FrameState.distinct(3) set_eqI)
  have "fm_state (meta_of ?s f) = kFrameResident" if "entry_of ?s q = resident f" for q
    using coherent_pageD(2) [OF tok(1), of q f] that by auto
  then show "f \<in> allocated (frame_allocator ?s) \<longleftrightarrow> (\<exists>p. entry_of ?s p = resident f)"
    using al [of f] coherent_frameD(3) [OF tok(1), of f] by blast
  show "pe_state (entry_of ?s p) \<in> {kUnused, kNonResident, kResident}"
  proof (cases "pe_frame_id (entry_of ?s p)")
    case None
    then show ?thesis using goodD(5) [OF gd, of p] by (auto simp: entry_ok_def)
  next
    case (Some h)
    then show ?thesis using coherent_pageD(2) [OF tok(1) Some] st [of h] by auto
  qed
qed

subsection \<open>Durability\<close>

lemma clean_page_on_disk:
  assumes inv: "sinv S" and c: "system_contents S p = Some c"
    and cl: "\<And>f. entry_of (sys_bm S) p = resident f \<Longrightarrow> \<not> dirty (meta_of (sys_bm S) f) \<and> p \<notin> unmarked S"
    and ne: "\<And>f. entry_of (sys_bm S) p \<noteq> evicting f"
  shows "disk S p = c"
proof -
  let ?s = "sys_bm S"
  note gd = sinvD(1) [OF inv]
  note tok = tok_invD [OF goodD(2) [OF gd]]
  show ?thesis
  proof (cases "pe_state (entry_of ?s p) = kResident")
    case True
    then obtain f where f: "entry_of ?s p = resident f" using resident_entry [OF gd] by blast
    then have "fm_state (meta_of ?s f) = kFrameResident" "fm_page_id (meta_of ?s f) = Some p"
      using coherent_pageD [OF tok(1), of p f] by auto
    then have "content_of ?s f = disk S p" using tok(5) cl [OF f] by (simp add: clean_on_disk_def)
    then show ?thesis using c f by (auto simp: system_contents_def contents_def split: if_splits)
  next
    case False
    have "pe_state (entry_of ?s p) \<noteq> kEvicting"
    proof
      assume e: "pe_state (entry_of ?s p) = kEvicting"
      then have "\<exists>f. pe_frame_id (entry_of ?s p) = Some f" using goodD(5) [OF gd, of p] by (auto simp: entry_ok_def)
      then show False using ne e by (metis (full_types) PageEntry.surjective unit.exhaust)
    qed
    then show ?thesis using c False by (auto simp: system_contents_def contents_def split: if_splits)
  qed
qed

lemma flush_written_effect:
  assumes g: "good D U {} (add_mset (Pin p f) R) s" and u: "p \<in> U \<Longrightarrow> \<exists>h. Pin p h \<in># R"
    and cl: "content_of s f = D p" and e: "dirty_epoch (meta_of s f) = e"
  shows "\<exists>s'. FlushPage_written ops p f e rest s = (Inr (flush_next rest), s') \<and>
    meta_of s' f = (meta_of s f)\<lparr>dirty := False, pin_count := pin_count (meta_of s f) - 1\<rparr> \<and>
    entry_of s' = entry_of s \<and> content_of s' = content_of s"
proof -
  let ?T = "add_mset (Pin p f) R" and ?s1 = "put_meta f ((meta_of s f)\<lparr>dirty := False\<rparr>) s"
  note pr = pin_resident [OF goodD(2) [OF g], of p f, simplified]
  note rf = resident_frame [OF g pr(3)]
  have g1: "good D U {} ?T ?s1" using good_clean [OF g _ refl] cl by blast
  obtain s2 where s2: "UnpinFrameLocked ops f ?s1 = (Inr (), s2)" using good_unpin [OF g1 u] by blast
  have v: "meta_of s2 f = (meta_of s f)\<lparr>dirty := False, pin_count := pin_count (meta_of s f) - 1\<rparr> \<and>
      entry_of s2 = entry_of s \<and> content_of s2 = content_of s"
    using Unpin_views [OF s2] rf(3) by simp
  have "FlushPage_written ops p f e rest s = (Inr (flush_next rest), s2\<lparr>state_changed := {}\<rparr>)"
    using rf pr e s2 by (simp add: FlushPage_written_def thenA_Inr)
  then show ?thesis using v by simp
qed

end

subsection \<open>A buffer manager with a clock replacer\<close>

definition clock_system_inv :: "ClockReplacer system \<Rightarrow> bool" where
  "clock_system_inv = system_inv clock_inv frame_count_clock tracked_frames evictable_frames"

text \<open>A freshly constructed buffer manager, \<open>n\<close> threads and a file with the pages \<open>D\<close>.\<close>

definition clock_start :: "BufferManagerOptions \<Rightarrow> nat \<Rightarrow> (PageId \<Rightarrow> Page) \<Rightarrow> exn + ClockReplacer system" where
  "clock_start opts n D =
     bindE (new_BufferManager opts (Inr ()) None new_ClockReplacer)
       (\<lambda>(_, bm, ex :: unit AsyncExecutor). Inr (initial_system bm n D))"

definition clock_reachable :: "BufferManagerOptions \<Rightarrow> nat \<Rightarrow> (PageId \<Rightarrow> Page) \<Rightarrow> ClockReplacer system \<Rightarrow> bool" where
  "clock_reachable opts n D S \<longleftrightarrow>
     (\<forall>p. page_ok (D p)) \<and> (\<exists>S0. clock_start opts n D = Inr S0 \<and> reachable clock_replacer S0 S)"

lemma clock_start_inv:
  assumes st: "clock_start opts n D = Inr S0" and D: "\<forall>p. page_ok (D p)"
  shows "clock_system_inv S0"
proof -
  obtain fa pt r where new: "new_FrameAllocator (frame_count opts) = Inr fa"
      "new_PageTable (disk_max_page_count (disk_options opts)) = Inr pt" "new_ClockReplacer (frame_count opts) = Inr r"
    and S0: "S0 = initial_system \<lparr>options = opts, frame_allocator = fa, page_table = pt, replacer = r,
       frame_meta = replicate (unat (frame_count opts)) empty_meta, state_changed = {}\<rparr> n D"
    using st by (auto simp: clock_start_def new_BufferManager_def bindE_Inr_iff)
  have fa: "fa_inv fa" "allocated fa = {}" "fa_frame_count fa = frame_count opts"
    using new_FrameAllocator_spec [of "frame_count opts"] new(1) by auto
  have pt: "pt_inv pt" "page_entry pt = (\<lambda>_. no_entry)"
    using new_PageTable_spec [of "disk_max_page_count (disk_options opts)"] new(2) by auto
  have r: "clock_inv r" "frame_count_clock r = unat (fa_frame_count fa)" "tracked_frames r = {}"
    using new_ClockReplacer_spec [of "frame_count opts"] new(3) fa(3) by (auto simp: frame_count_clock_def)
  show ?thesis
    unfolding clock_system_inv_def S0
    by (rule clock.initial_inv [OF fa(1,2) pt r _ D]) (simp add: fa(3))
qed

lemma clock_reachable_inv: "clock_reachable opts n D S \<Longrightarrow> clock_system_inv S"
  using clock.reachable_inv clock_start_inv unfolding clock_reachable_def clock_system_inv_def by blast

lemma clock_reachable_step:
  "clock_reachable opts n D S \<Longrightarrow> client_ok S l \<Longrightarrow> step clock_replacer l S = Some S' \<Longrightarrow> clock_reachable opts n D S'"
  using reachable.step unfolding clock_reachable_def by blast

end
