(* ===== verification/Disk_Correctness.thy ===== *)
theory Disk_Correctness
  imports Disk_Manager
begin

text \<open>
  What the disk manager guarantees on a file that behaves as documented: the checked arithmetic is
  exact, the header survives its encoding, the loops return and transfer everything or a prefix, and
  the file is an array of pages that \<^verbatim>\<open>WritePage\<close> updates and \<^verbatim>\<open>ReadPage\<close> reads.
\<close>

subsection \<open>Checked arithmetic\<close>

lemma unat_max_64: "unat (- 1 :: 64 word) = 18446744073709551615"
  by (simp add: unsigned_minus_1_eq_mask mask_eq_exp_minus_1)

lemma CheckedAdd_eq:
  "CheckedAdd a b =
     (if unat a + unat b < 18446744073709551616 then Inr (a + b) else Inl (overflow_error ''uint64 addition overflow''))"
proof -
  have "unat (- 1 - b) = 18446744073709551615 - unat b"
    using unat_sub [of b "- 1"] unat_64_less [of b] by (simp add: unat_max_64 word_le_nat_alt del: unat_minus_one)
  then have "a > - 1 - b \<longleftrightarrow> \<not> unat a + unat b < 18446744073709551616"
    using unat_64_less [of b] by (auto simp: word_less_nat_alt)
  then show ?thesis by (simp add: CheckedAdd_def)
qed

lemma CheckedMul_eq:
  "CheckedMul a b =
     (if unat a * unat b < 18446744073709551616 then Inr (a * b)
      else Inl (overflow_error ''uint64 multiplication overflow''))"
proof (cases "a = 0")
  case False
  then have pos: "0 < unat a" by (simp add: unat_gt_0)
  have "b > (- 1) div a \<longleftrightarrow> 18446744073709551615 div unat a < unat b"
    by (simp add: word_less_nat_alt unat_div unat_max_64)
  also have "\<dots> \<longleftrightarrow> \<not> unat a * unat b < 18446744073709551616"
    using pos by (auto simp: div_less_iff_less_mult mult.commute not_less)
  finally show ?thesis using False by (simp add: CheckedMul_def)
qed (simp add: CheckedMul_def)

lemma unat_add_64: "unat a + unat b < 18446744073709551616 \<Longrightarrow> unat (a + b :: 64 word) = unat a + unat b"
  by (simp add: unat_word_ariths)

lemma unat_mult_64: "unat a * unat b < 18446744073709551616 \<Longrightarrow> unat (a * b :: 64 word) = unat a * unat b"
  by (simp add: unat_word_ariths)

lemma unat_max_offset: "unat max_offset = 9223372036854775807"
  by (simp add: max_offset_def)

lemma io_offset_Inr: "io_offset off t = Inr o' \<Longrightarrow> unat o' = unat off + unat t"
  by (auto simp: io_offset_def CheckedAdd_eq CheckedOffset_def unat_add_64 split: if_splits)

subsection \<open>The loops\<close>

text \<open>A chunk moves the counter on without wrapping around.\<close>

lemma counter_step:
  assumes "unat t < unat (n :: size_t)" and "k \<le> unat (n - t)"
  shows "unat (t + of_nat k) = unat t + k" and "unat t + k \<le> unat n" and "unat (n - t) = unat n - unat t"
proof -
  show d: "unat (n - t) = unat n - unat t"
    using assms(1) by (simp add: unat_sub word_le_nat_alt)
  then show b: "unat t + k \<le> unat n" using assms by simp
  have "k < 18446744073709551616" "unat t + k < 18446744073709551616"
    using b unat_64_less [of n] by simp_all
  then show "unat (t + of_nat k) = unat t + k"
    by (simp add: unat_add_64 unat_of_nat_64)
qed

lemma ReadAtMost_loop_returns:
  assumes "interrupts_end P pending"
  shows "unat t \<le> unat n \<Longrightarrow> \<exists>r. ReadAtMost_loop P fd n off t out os = Some r"
proof (induction "unat n - unat t" arbitrary: t out os rule: less_induct)
  case outer: less
  show ?case
  proof (induction "pending os" arbitrary: os rule: less_induct)
    case inner: less
    show ?case
    proof (cases "t < n \<and> (\<exists>o'. io_offset off t = Inr o')")
      case True
      then obtain o' where o': "io_offset off t = Inr o'" and lt: "unat t < unat n"
        by (auto simp: word_less_nat_alt)
      obtain r os' where call: "sys_pread P fd (n - t) o' os = (r, os')" by fastforce
      consider (eintr) "r = Inl EINTR" | (fails) e where "r = Inl e" "e \<noteq> EINTR"
        | (eof) "r = Inr []" | (chunk) bs where "r = Inr bs" "bs \<noteq> []"
        by (cases r) auto
      then show ?thesis
      proof cases
        case eintr
        then have "pending os' < pending os" using assms call by (simp add: interrupts_end_def)
        then show ?thesis
          using inner eintr call o' True by (subst ReadAtMost_loop.simps) simp
      next
        case (chunk bs)
        then have "length bs \<le> unat (n - t)" using assms call unfolding interrupts_end_def by blast
        note step = counter_step [OF lt this]
        have "0 < length bs" using chunk(2) by simp
        then have "unat n - unat (t + of_nat (length bs)) < unat n - unat t" "unat (t + of_nat (length bs)) \<le> unat n"
          using step lt by linarith+
        note outer(1) [OF this, of "put_bytes out (unat t) bs" os']
        then show ?thesis using chunk call o' True by (subst ReadAtMost_loop.simps) simp
      qed (use call o' True in \<open>subst ReadAtMost_loop.simps, simp\<close>)+
    next
      case False
      then show ?thesis by (subst ReadAtMost_loop.simps) (auto split: sum.split)
    qed
  qed
qed

lemma WriteFully_loop_returns:
  assumes "interrupts_end P pending" and len: "length buf = unat n"
  shows "unat t \<le> unat n \<Longrightarrow> \<exists>r. WriteFully_loop P fd buf n off t os = Some r"
proof (induction "unat n - unat t" arbitrary: t os rule: less_induct)
  case outer: less
  show ?case
  proof (induction "pending os" arbitrary: os rule: less_induct)
    case inner: less
    show ?case
    proof (cases "t < n \<and> (\<exists>o'. io_offset off t = Inr o')")
      case True
      then obtain o' where o': "io_offset off t = Inr o'" and lt: "unat t < unat n"
        by (auto simp: word_less_nat_alt)
      let ?bs = "take (unat (n - t)) (drop (unat t) buf)"
      obtain r os' where call: "sys_pwrite P fd ?bs o' os = (r, os')" by fastforce
      consider (eintr) "r = Inl EINTR" | (fails) e where "r = Inl e" "e \<noteq> EINTR"
        | (none) "r = Inr 0" | (chunk) k where "r = Inr k" "0 < k"
        by (cases r) auto
      then show ?thesis
      proof cases
        case eintr
        then have "pending os' < pending os" using assms(1) call unfolding interrupts_end_def by blast
        then show ?thesis
          using inner eintr call o' True by (subst WriteFully_loop.simps) simp
      next
        case (chunk k)
        then have "k \<le> length ?bs" using assms(1) call unfolding interrupts_end_def by blast
        then have "k \<le> unat (n - t)" by simp
        note step = counter_step [OF lt this]
        have "unat n - unat (t + of_nat k) < unat n - unat t" "unat (t + of_nat k) \<le> unat n"
          using step lt chunk(2) by simp_all
        note outer(1) [OF this, of os']
        then show ?thesis using chunk call o' True by (subst WriteFully_loop.simps) simp
      qed (use call o' True in \<open>subst WriteFully_loop.simps, simp\<close>)+
    next
      case False
      then show ?thesis by (subst WriteFully_loop.simps) (auto split: sum.split)
    qed
  qed
qed

lemma length_put_bytes: "t + length bs \<le> length out \<Longrightarrow> length (put_bytes out t bs) = length out"
  by (simp add: put_bytes_def)

lemma nth_put_bytes:
  "t + length bs \<le> length out \<Longrightarrow> i < length out \<Longrightarrow>
     put_bytes out t bs ! i = (if t \<le> i \<and> i < t + length bs then bs ! (i - t) else out ! i)"
  by (auto simp: put_bytes_def nth_append min_def)

text \<open>\<open>read_upto c off t out\<close>: the buffer has the first \<open>t\<close> bytes and zeros behind them.\<close>

definition read_upto :: "byte list \<Rightarrow> nat \<Rightarrow> nat \<Rightarrow> byte list \<Rightarrow> bool" where
  "read_upto c off t out \<longleftrightarrow> (\<forall>i < length out. out ! i = (if i < t then byte_at c (off + i) else 0))"

lemma read_upto_0: "read_upto c off 0 (replicate n 0)"
  by (simp add: read_upto_def)

lemma read_upto_full: "read_upto c off (length out) out \<Longrightarrow> out = bytes_at c off (length out)"
  by (rule nth_equalityI) (simp_all add: read_upto_def)

lemma read_upto_eof:
  assumes "read_upto c off t out" and "length c \<le> off + t"
  shows "out = bytes_at c off (length out)"
  by (rule nth_equalityI) (use assms in \<open>auto simp: read_upto_def byte_at_def\<close>)

lemma read_upto_more:
  assumes "read_upto c off t out" and "t + length bs \<le> length out"
    and "\<And>i. i < length bs \<Longrightarrow> bs ! i = byte_at c (off + t + i)"
  shows "read_upto c off (t + length bs) (put_bytes out t bs)"
  using assms(1,2) assms(3) [of "i - t" for i]
  by (auto simp: read_upto_def length_put_bytes nth_put_bytes)

lemma ReadAtMost_loop_sound:
  assumes run: "ReadAtMost_loop P fd n off t out os = Some (r, out', os')"
    and P: "posix_file P V" and "open_on V os fd p c"
    and "length out = unat n" "unat t \<le> unat n" "read_upto c (unat off) (unat t) out"
  shows "open_on V os' fd p c \<and> length out' = unat n \<and> (\<forall>u. r = Inr u \<longrightarrow> out' = bytes_at c (unat off) (unat n))"
proof -
  define Q where "Q = (\<lambda>((((((P, fd), n :: size_t), off :: 64 word), t :: size_t), out), os) (r, out', os').
    posix_file P V \<and> open_on V os fd p c \<and> length out = unat n \<and> unat t \<le> unat n \<and> read_upto c (unat off) (unat t) out \<longrightarrow>
    open_on V os' fd p c \<and> length out' = unat n \<and> (\<forall>u::unit. r = (Inr u :: exn + unit) \<longrightarrow> out' = bytes_at c (unat off) (unat n)))"
  have "Q ((((((P, fd), n), off), t), out), os) (r, out', os')"
  proof (rule ReadAtMost_loop.raw_induct [where Pa = Q, OF _ run])
    fix f P fd n off t out os y
    assume IH: "\<And>P fd n off t out os y. f P fd n off t out os = Some y \<Longrightarrow> Q ((((((P, fd), n), off), t), out), os) y"
      and body: "(if t < n
      then case io_offset off t of Inl e \<Rightarrow> Some (Inl e, out, os)
           | Inr o' \<Rightarrow>
               case sys_pread P fd (n - t) o' os of
               (Inl errno, os') \<Rightarrow>
                 if errno = EINTR then f P fd n off t out os'
                 else Some (Inl (SystemError ''pread failed'' errno), out, os')
               | (Inr bs, os') \<Rightarrow>
                   if bs = [] then Some (Inr (), out, os')
                   else f P fd n off (t + word_of_nat (length bs)) (put_bytes out (unat t) bs) os'
      else Some (Inr (), out, os)) = Some y"
    show "Q ((((((P, fd), n), off), t), out), os) y"
    proof (cases y)
      fix r out' os' assume y: "y = (r, out', os')"
      have "open_on V os' fd p c \<and> length out' = unat n \<and> (\<forall>u::unit. r = (Inr u :: exn + unit) \<longrightarrow> out' = bytes_at c (unat off) (unat n))"
        if P: "posix_file P V" and op: "open_on V os fd p c" and out: "length out = unat n" "unat t \<le> unat n"
          "read_upto c (unat off) (unat t) out"
      proof (cases "t < n \<and> (\<exists>o'. io_offset off t = Inr o')")
        case True
        then obtain o' where o': "io_offset off t = Inr o'" and lt: "unat t < unat n"
          by (auto simp: word_less_nat_alt)
        obtain q os1 where call: "sys_pread P fd (n - t) o' os = (q, os1)" by fastforce
        note D = preadD [OF P call op]
        show ?thesis
        proof (cases q)
          case (Inl e)
          then show ?thesis
            using IH [of P fd n off t out os1 y] body True o' call D(1) P out y by (auto simp: Q_def split: if_splits)
        next
          case (Inr bs)
          note step = counter_step [OF lt D(2) [OF Inr]]
          show ?thesis
          proof (cases "bs = []")
            case True
            have "n - t \<noteq> 0" using step(3) lt by auto
            then have "length c \<le> unat off + unat t"
              using D(4) Inr True io_offset_Inr [OF o'] by simp
            then show ?thesis
              using body Inr True \<open>t < n \<and> _\<close> o' call D(1) y out read_upto_eof [OF out(3)] by auto
          next
            case False
            have "read_upto c (unat off) (unat t + length bs) (put_bytes out (unat t) bs)"
              by (rule read_upto_more [OF out(3)])
                (use step out D(3) [OF Inr] io_offset_Inr [OF o'] in simp_all)
            then show ?thesis
              using IH [of P fd n off "t + of_nat (length bs)" "put_bytes out (unat t) bs" os1 y] body False Inr
                \<open>t < n \<and> _\<close> o' call D(1) P out y step by (simp add: Q_def length_put_bytes)
          qed
        qed
      next
        case False
        then show ?thesis
        proof (cases "t < n")
          case True
          then show ?thesis using False body op out y by (auto split: sum.splits)
        next
          case False
          then have "unat t = length out" using out by (simp add: word_less_nat_alt)
          then show ?thesis using False body op out y read_upto_full [of c "unat off" out] by auto
        qed
      qed
      then show ?thesis by (simp add: Q_def y)
    qed
  qed
  then show ?thesis using assms by (simp add: Q_def)
qed


lemma WriteFully_loop_sound:
  assumes run: "WriteFully_loop P fd buf n off t os = Some (r, os')"
    and P: "posix_file P V" and "open_on V os fd p c1"
    and "length buf = unat n" "unat t \<le> m" "m \<le> unat n" "written c buf (unat off) m c1"
  shows "\<exists>c' k. open_on V os' fd p c' \<and> k \<le> unat n \<and> written c buf (unat off) k c' \<and> (\<forall>u. r = Inr u \<longrightarrow> k = unat n)"
proof -
  define Q where "Q = (\<lambda>((((((P, fd), buf), n :: size_t), off :: 64 word), t :: size_t), os) (r, os').
    \<forall>c1 m. posix_file P V \<and> open_on V os fd p c1 \<and> length buf = unat n \<and> unat t \<le> m \<and> m \<le> unat n \<and>
      written c buf (unat off) m c1 \<longrightarrow>
    (\<exists>c' k. open_on V os' fd p c' \<and> k \<le> unat n \<and> written c buf (unat off) k c' \<and>
      (\<forall>u::unit. r = (Inr u :: exn + unit) \<longrightarrow> k = unat n)))"
  have "Q ((((((P, fd), buf), n), off), t), os) (r, os')"
  proof (rule WriteFully_loop.raw_induct [where Pa = Q, OF _ run])
    fix f P fd buf n off t os y
    assume IH: "\<And>P fd buf n off t os y. f P fd buf n off t os = Some y \<Longrightarrow> Q ((((((P, fd), buf), n), off), t), os) y"
      and body: "(if t < n
      then case io_offset off t of Inl e \<Rightarrow> Some (Inl e, os)
           | Inr o' \<Rightarrow>
               case sys_pwrite P fd (take (unat (n - t)) (drop (unat t) buf)) o' os of
               (Inl errno, os') \<Rightarrow>
                 if errno = EINTR then f P fd buf n off t os'
                 else Some (Inl (SystemError ''pwrite failed'' errno), os')
               | (Inr k, os') \<Rightarrow>
                   if k = 0 then Some (Inl (runtime_error ''pwrite wrote zero bytes''), os')
                   else f P fd buf n off (t + word_of_nat k) os'
      else Some (Inr (), os)) = Some y"
    show "Q ((((((P, fd), buf), n), off), t), os) y"
    proof (cases y)
      fix r os' assume y: "y = (r, os')"
      have "\<exists>c' k. open_on V os' fd p c' \<and> k \<le> unat n \<and> written c buf (unat off) k c' \<and>
          (\<forall>u::unit. r = (Inr u :: exn + unit) \<longrightarrow> k = unat n)"
        if P: "posix_file P V" and op: "open_on V os fd p c1" and buf: "length buf = unat n" "unat t \<le> m" "m \<le> unat n"
          "written c buf (unat off) m c1" for c1 m
      proof (cases "t < n \<and> (\<exists>o'. io_offset off t = Inr o')")
        case True
        then obtain o' where o': "io_offset off t = Inr o'" and lt: "unat t < unat n"
          by (auto simp: word_less_nat_alt)
        let ?bs = "take (unat (n - t)) (drop (unat t) buf)"
        obtain q os1 where call: "sys_pwrite P fd ?bs o' os = (q, os1)" by fastforce
        note D = pwriteD [OF P call op]
        have more: "written c buf (unat off) (max m (unat t + k)) (write_at c1 (unat o') (take k ?bs))"
          if "k \<le> length ?bs" for k
        proof -
          have k: "k \<le> unat (n - t)" "k \<le> unat n - unat t" using that buf(1) by simp_all
          then have "unat t + k \<le> length buf" using lt buf(1) by linarith
          then show ?thesis
            using written_more [OF buf(4,2), of k] k io_offset_Inr [OF o'] by (simp add: min_absorb1)
        qed
        have bound: "k \<le> unat (n - t)" if "k \<le> length ?bs" for k using that by simp
        show ?thesis
        proof (cases q)
          case (Inl e)
          then obtain k where k: "k \<le> length ?bs" "open_on V os1 fd p (write_at c1 (unat o') (take k ?bs))"
            using D(2) by blast
          note step = counter_step [OF lt bound [OF k(1)]]
          show ?thesis
          proof (cases "e = EINTR")
            case True
            then have "f P fd buf n off t os1 = Some y"
              using body Inl \<open>t < n \<and> _\<close> o' call by simp
            note IH [OF this, unfolded Q_def y prod.case, rule_format,
                of "write_at c1 (unat o') (take k ?bs)" "max m (unat t + k)"]
            then show ?thesis
              using P k(2) buf step(2) more [OF k(1)] by (simp add: le_max_iff_disj)
          next
            case False
            then have "r = Inl (SystemError ''pwrite failed'' e)" "os' = os1"
              using body \<open>t < n \<and> _\<close> o' call Inl y by auto
            then show ?thesis using k(2) more [OF k(1)] step(2) buf(3) by (metis Inl_Inr_False max.boundedI)
          qed
        next
          case (Inr k)
          note k = D(1) [OF Inr]
          note step = counter_step [OF lt bound [OF conjunct1 [OF k]]]
          show ?thesis
          proof (cases "k = 0")
            case True
            then have "r = Inl (runtime_error ''pwrite wrote zero bytes'')" "os' = os1"
              using body \<open>t < n \<and> _\<close> o' call Inr y by auto
            then show ?thesis using k more [of k] step(2) buf(3) by (metis Inl_Inr_False max.boundedI)
          next
            case False
            have "f P fd buf n off (t + of_nat k) os1 = Some y"
              using body False Inr \<open>t < n \<and> _\<close> o' call by simp
            note IH [OF this, unfolded Q_def y prod.case, rule_format,
                of "write_at c1 (unat o') (take k ?bs)" "max m (unat t + k)"]
            then show ?thesis
              using P k buf step(1,2) more [of k] by (simp del: take_take)
          qed
        qed
      next
        case False
        then show ?thesis
        proof (cases "t < n")
          case True
          then show ?thesis using False body op buf y by (auto split: sum.splits)
        next
          case False
          then have "m = unat n" using buf by (simp add: word_less_nat_alt)
          then show ?thesis using False body op buf y by auto
        qed
      qed
      then show ?thesis unfolding Q_def y prod.case by blast
    qed
  qed
  then show ?thesis using assms unfolding Q_def prod.case by blast
qed

end
