(* ===== verification/Disk_Pages.thy ===== *)
theory Disk_Pages
  imports Disk_Correctness
begin

text \<open>
  The file as an array of pages behind a header: the layout, and what reading and writing a page do
  to it.
\<close>

subsection \<open>The layout\<close>

definition page_offset :: "DiskManagerOptions \<Rightarrow> PageId \<Rightarrow> nat" where
  "page_offset opts p = unat (header_size opts) + unat p * 4096"

definition file_page :: "DiskManagerOptions \<Rightarrow> byte list \<Rightarrow> PageId \<Rightarrow> Page" where
  "file_page opts c p = \<lparr>data = bytes_at c (page_offset opts p) 4096\<rparr>"

lemma page_ok_file_page [simp]: "page_ok (file_page opts c p)"
  by (simp add: page_ok_def file_page_def)

lemma ExpectedFileSize_eq:
  "ExpectedFileSize opts = Inr n \<Longrightarrow>
     unat n = unat (header_size opts) + unat (disk_max_page_count opts) * 4096"
  by (auto simp: ExpectedFileSize_def bindE_Inr_iff CheckedMul_eq CheckedAdd_eq unat_add_64 unat_mult_64 split: if_splits)

lemma valid_optionsD:
  assumes "Disk_ValidateOptions opts = Inr ()"
  shows "path opts \<noteq> []" and "0 < unat (disk_max_page_count opts)"
    and "4096 \<le> unat (header_size opts)" and "unat (header_size opts) mod 4096 = 0"
    and "unat (header_size opts) + unat (disk_max_page_count opts) * 4096 < 18446744073709551616"
proof -
  have v: "path opts \<noteq> []" "disk_max_page_count opts \<noteq> 0" "\<not> header_size opts < of_nat sizeof_DiskFileHeader"
    "header_size opts mod kPageSize = 0" "\<exists>n. ExpectedFileSize opts = Inr n"
    using assms by (auto simp: Disk_ValidateOptions_def bindE_Inr_iff split: if_splits)
  then show "path opts \<noteq> []" "0 < unat (disk_max_page_count opts)" by (simp_all add: unat_gt_0)
  have "unat (header_size opts mod kPageSize) = 0" using v(4) by simp
  then show m: "unat (header_size opts) mod 4096 = 0" by (simp add: unat_mod)
  have "32 \<le> unat (header_size opts)"
    using v(3) by (simp add: word_less_nat_alt sizeof_DiskFileHeader_def)
  then show "4096 \<le> unat (header_size opts)" using m by (cases "unat (header_size opts) < 4096") auto
  obtain n where "ExpectedFileSize opts = Inr n" using v(5) by blast
  then show "unat (header_size opts) + unat (disk_max_page_count opts) * 4096 < 18446744073709551616"
    using ExpectedFileSize_eq [of opts n] unat_64_less [of n] by simp
qed

lemma OffsetForPage_bad:
  "disk_max_page_count opts \<le> p \<Longrightarrow> OffsetForPage opts p = Inl (out_of_range ''page id is out of range'')"
  by (simp add: OffsetForPage_def Disk_ValidatePageId_def)

lemma page_fits:
  assumes "Disk_ValidateOptions opts = Inr ()" and "p < disk_max_page_count opts"
  shows "page_offset opts p + 4096 \<le> unat (header_size opts) + unat (disk_max_page_count opts) * 4096"
proof -
  have "Suc (unat p) * 4096 \<le> unat (disk_max_page_count opts) * 4096"
    using assms(2) by (intro mult_le_mono1) (simp add: word_less_nat_alt)
  then show ?thesis by (simp add: page_offset_def)
qed

lemma OffsetForPage_ok:
  assumes "Disk_ValidateOptions opts = Inr ()" and "p < disk_max_page_count opts"
  shows "\<exists>off. OffsetForPage opts p = Inr off \<and> unat off = page_offset opts p"
proof -
  note fit = page_fits [OF assms] valid_optionsD(5) [OF assms(1)]
  then have lt: "unat p * 4096 < 18446744073709551616" "unat (header_size opts) + unat p * 4096 < 18446744073709551616"
    by (simp_all add: page_offset_def)
  then have "unat (p * kPageSize) = unat p * 4096" by (simp add: unat_mult_64)
  then show ?thesis
    using lt assms(2)
    by (simp add: OffsetForPage_def Disk_ValidatePageId_def CheckedMul_eq CheckedAdd_eq unat_add_64 page_offset_def not_le)
qed

lemma page_offset_disjoint:
  assumes "p \<noteq> q"
  shows "page_offset opts p + 4096 \<le> page_offset opts q \<or> page_offset opts q + 4096 \<le> page_offset opts p"
proof -
  have "unat p \<noteq> unat q" using assms by (simp add: unat_eq_iff)
  then have "unat p < unat q \<or> unat q < unat p" by linarith
  then have "Suc (unat p) * 4096 \<le> unat q * 4096 \<or> Suc (unat q) * 4096 \<le> unat p * 4096"
    by (metis Suc_leI mult_le_mono1)
  then show ?thesis by (auto simp: page_offset_def)
qed

subsection \<open>Pages\<close>

text \<open>A write of \<open>k\<close> bytes at the place of page \<open>p\<close> is a torn write of that page.\<close>

lemma written_page:
  assumes "written c (data pg) (page_offset opts p) k c'" and "k \<le> 4096" and "page_ok pg"
  shows "file_page opts c' q = (if q = p then torn_page k pg (file_page opts c p) else file_page opts c q)"
proof (cases "q = p")
  case True
  then show ?thesis
    using written_bytes_at [OF assms(1)] assms(2,3) by (simp add: file_page_def torn_page_def page_ok_def)
next
  case False
  then show ?thesis
    using written_elsewhere [OF assms(1,2)] page_offset_disjoint [OF False, of opts] by (auto simp: file_page_def)
qed

lemma written_header:
  assumes "written c bs (page_offset opts p) k c'" and "n \<le> unat (header_size opts)"
  shows "bytes_at c' 0 n = bytes_at c 0 n"
  by (rule written_elsewhere [OF assms(1) order_refl]) (use assms(2) in \<open>simp add: page_offset_def\<close>)

lemma WritePage_cases:
  assumes "WritePage P dm p address page os = Some (r, os')"
  obtains (rejected) e where "r = Inl e" "os' = os" | (transfer) off where "OffsetForPage (dm_options dm) p = Inr off"
    "WriteFully P (dm_fd dm) (data page) kPageSize off os = Some (r, os')"
  using assms by (auto simp: WritePage_def bindO_def checkO_def dest!: sym [where s = "Inl e" for e] split: sum.splits)

lemma WritePage_effect:
  assumes P: "posix_file P V" and op: "open_on V os (dm_fd dm) f c" and valid: "Disk_ValidateOptions (dm_options dm) = Inr ()"
    and pg: "page_ok page" and run: "WritePage P dm p address page os = Some (r, os')"
  shows "\<exists>c' k. open_on V os' (dm_fd dm) f c' \<and>
    (\<forall>q. file_page (dm_options dm) c' q =
       (if q = p then torn_page k page (file_page (dm_options dm) c p) else file_page (dm_options dm) c q)) \<and>
    (\<forall>n \<le> unat (header_size (dm_options dm)). bytes_at c' 0 n = bytes_at c 0 n) \<and>
    (\<forall>u. r = Inr u \<longrightarrow> file_page (dm_options dm) c' p = page)"
  using run
proof (cases rule: WritePage_cases)
  case (rejected e)
  then show ?thesis using op by (intro exI [where x = c] exI [where x = 0]) simp
next
  case (transfer off)
  have "p < disk_max_page_count (dm_options dm)"
    using transfer(1) OffsetForPage_bad [of "dm_options dm" p] by (cases "p < disk_max_page_count (dm_options dm)") (auto simp: not_less)
  then have off: "unat off = page_offset (dm_options dm) p"
    using OffsetForPage_ok [OF valid] transfer(1) by fastforce
  have "length (data page) = unat kPageSize" using pg by (simp add: page_ok_def)
  from WriteFully_loop_sound [OF transfer(2) [unfolded WriteFully_def] P op this _ _ written_0]
  obtain c' k where w: "open_on V os' (dm_fd dm) f c'" "k \<le> 4096"
    "written c (data page) (page_offset (dm_options dm) p) k c'" "\<forall>u. r = Inr u \<longrightarrow> k = 4096"
    by (auto simp: off)
  note page = written_page [OF w(3,2) pg] and header = written_header [OF w(3)]
  have "file_page (dm_options dm) c' p = page" if "k = 4096"
    using page [of p] that pg by (simp add: torn_page_full page_ok_def file_page_def)
  then show ?thesis using w(1,4) page header by (intro exI [where x = c'] exI [where x = k]) simp
qed

lemma ReadPage_cases:
  assumes "ReadPage P dm p address (pg, os) = Some (r, pg', os')"
  obtains (rejected) e where "r = Inl e" "os' = os" "pg' = pg \<or> pg' = fill 0 pg"
  | (transfer) off where "address \<noteq> 0" "OffsetForPage (dm_options dm) p = Inr off"
    "ReadAtMost P (dm_fd dm) kPageSize off (data (fill 0 pg), os) = Some (r, data pg', os')"
proof -
  let ?check = "bindE (if address = 0 then Inl (invalid_argument ''page must not be null'') else Inr ()) (\<lambda>_.
          bindE (Disk_ValidatePageId (dm_options dm) p) (\<lambda>_. ValidatePageAlignment address))"
  show thesis
  proof (cases ?check)
    case (Inl e)
    then show thesis using assms by (intro rejected [of e]) (auto simp: ReadPage_def)
  next
    case (Inr u)
    then have "address \<noteq> 0" by (auto simp: bindE_def split: if_splits)
    show thesis
    proof (cases "OffsetForPage (dm_options dm) p")
      case (Inl e)
      then show thesis using assms Inr by (intro rejected [of e]) (auto simp: ReadPage_def Let_def)
    next
      case (Inr off)
      then show thesis
        using assms \<open>?check = Inr u\<close> \<open>address \<noteq> 0\<close>
        by (intro transfer [of off]) (auto simp: ReadPage_def Let_def split: option.splits)
    qed
  qed
qed

lemma ReadPage_effect:
  assumes P: "posix_file P V" and op: "open_on V os (dm_fd dm) f c" and valid: "Disk_ValidateOptions (dm_options dm) = Inr ()"
    and pg: "page_ok pg" and run: "ReadPage P dm p address (pg, os) = Some (r, pg', os')"
  shows "open_on V os' (dm_fd dm) f c \<and> page_ok pg' \<and> (\<forall>u. r = Inr u \<longrightarrow> pg' = file_page (dm_options dm) c p)"
  using run
proof (cases rule: ReadPage_cases)
  case (rejected e)
  then show ?thesis using op pg by auto
next
  case (transfer off)
  have "p < disk_max_page_count (dm_options dm)"
    using transfer(2) OffsetForPage_bad [of "dm_options dm" p] by (cases "p < disk_max_page_count (dm_options dm)") (auto simp: not_less)
  then have off: "unat off = page_offset (dm_options dm) p"
    using OffsetForPage_ok [OF valid] transfer(2) by fastforce
  have "data (fill 0 pg) = replicate 4096 0" using pg by (simp add: fill_zero zero_page_def)
  then have "ReadAtMost_loop P (dm_fd dm) kPageSize off 0 (replicate 4096 0) os = Some (r, data pg', os')"
    using transfer(3) by (simp add: ReadAtMost_def)
  from ReadAtMost_loop_sound [OF this P op]
  have "open_on V os' (dm_fd dm) f c \<and> length (data pg') = 4096 \<and> (\<forall>u. r = Inr u \<longrightarrow> data pg' = bytes_at c (unat off) 4096)"
    by (simp add: read_upto_0)
  then show ?thesis by (auto simp: off file_page_def page_ok_def)
qed

lemma WritePage_returns:
  assumes "interrupts_end P pending" and "page_ok page"
  shows "\<exists>r. WritePage P dm p address page os = Some r"
  using WriteFully_loop_returns [OF assms(1), of "data page" kPageSize 0] assms(2)
  by (auto simp: WritePage_def bindO_def checkO_def WriteFully_def page_ok_def split: sum.splits)

lemma ReadPage_returns:
  assumes "interrupts_end P pending"
  shows "\<exists>r. ReadPage P dm p address (pg, os) = Some r"
proof (cases "ReadPage P dm p address (pg, os)")
  case None
  then obtain off where "ReadAtMost P (dm_fd dm) kPageSize off (data (fill 0 pg), os) = None"
    by (auto simp: ReadPage_def Let_def bindE_def split: sum.splits option.splits prod.splits if_splits)
  then show ?thesis using ReadAtMost_loop_returns [OF assms, of 0 kPageSize] by (simp add: ReadAtMost_def) (metis option.distinct(1))
qed auto

end
