(* ===== verification/Disk_Open.thy ===== *)
theory Disk_Open
  imports Disk_Pages
begin

text \<open>
  Opening and closing the file: the header survives its encoding and is recognised exactly when it
  was written with the same options, and the constructor makes a fresh file of zero pages or accepts
  an existing one without changing its pages.
\<close>

subsection \<open>The header\<close>

lemma length_le_bytes [simp]: "length (le_bytes k n) = k"
  by (induction k n rule: le_bytes.induct) simp_all

lemma le_value_le_bytes: "le_value (le_bytes k n) = n mod 256 ^ k"
proof (induction k n rule: le_bytes.induct)
  case (2 k n)
  have "unat (of_nat (n mod 256) :: byte) = n mod 256" by (simp add: unat_of_nat take_bit_nat_eq_self_iff)
  then show ?case using 2 by (simp add: mod_mult2_eq)
qed simp

lemma le_bytes_le_value: "length bs = k \<Longrightarrow> le_bytes k (le_value bs) = bs"
proof (induction bs arbitrary: k)
  case (Cons b bs)
  have "unat b < 256" using unsigned_less [of b, where ?'a = nat] by simp
  then show ?case using Cons by auto
qed simp

lemma le_value_less: "le_value bs < 256 ^ length bs"
proof (induction bs)
  case (Cons b bs)
  have "unat b < 256" using unsigned_less [of b, where ?'a = nat] by simp
  then show ?case using Cons by simp
qed simp

lemma length_header_bytes: "length (magic h) = 8 \<Longrightarrow> length (header_bytes h) = sizeof_DiskFileHeader"
  by (simp add: header_bytes_def sizeof_DiskFileHeader_def)

lemma le_word_32: "of_nat (le_value (le_bytes 4 (unat (w :: 32 word)))) = w"
  using unat_32_less [of w] by (simp add: le_value_le_bytes)

lemma le_word_64: "of_nat (le_value (le_bytes 8 (unat (w :: 64 word)))) = w"
  using unat_64_less [of w] by (simp add: le_value_le_bytes)

lemma header_of_header_bytes: "length (magic h) = 8 \<Longrightarrow> header_of_bytes (header_bytes h @ rest) = h"
  by (simp add: header_of_bytes_def header_bytes_def le_word_32 le_word_64)

lemma le_field:
  assumes "length bs = k" and "256 ^ k = (2 :: nat) ^ LENGTH('a::len)"
  shows "le_bytes k (unat (of_nat (le_value bs) :: 'a word)) = bs"
  using le_value_less [of bs] assms le_bytes_le_value [of bs k]
  by (simp add: unat_of_nat take_bit_nat_eq_self_iff)

lemma take_pieces:
  "32 \<le> length bs \<Longrightarrow> take 8 bs @ take 4 (drop 8 bs) @ take 4 (drop 12 bs) @ take 8 (drop 16 bs) @ take 8 (drop 24 bs) = take 32 bs"
  by (simp add: take_add [of 8 4, symmetric] take_add [of 12 4, symmetric] take_add [of 16 8, symmetric]
      take_add [of 24 8, symmetric] flip: append_assoc)

lemma header_bytes_of_header:
  assumes "32 \<le> length bs"
  shows "header_bytes (header_of_bytes bs) = take 32 bs"
  using assms take_pieces [OF assms] by (simp add: header_bytes_def header_of_bytes_def le_field)

lemma length_kMagic [simp]: "length kMagic = 8"
  by (simp add: kMagic_def)

lemma length_MakeHeader [simp]: "length (magic (MakeHeader opts)) = 8"
  by (simp add: MakeHeader_def)

lemma ucast_page_size: "ucast (w :: 32 word) = kPageSize \<longleftrightarrow> w = ucast kPageSize"
proof -
  have "ucast w = kPageSize \<longleftrightarrow> unat w = 4096"
    by (simp add: kPageSize_eq flip: unat_eq_iff)
  also have "\<dots> \<longleftrightarrow> w = ucast kPageSize"
    by (simp add: kPageSize_eq flip: unat_eq_iff)
  finally show ?thesis .
qed

lemma check_header_iff: "check_header opts h = Inr () \<longleftrightarrow> h = MakeHeader opts"
  by (cases h) (auto simp: check_header_def MakeHeader_def ucast_page_size)

lemma MakeHeader_eq_iff:
  "MakeHeader opts = MakeHeader opts' \<longleftrightarrow>
     disk_max_page_count opts = disk_max_page_count opts' \<and> header_size opts = header_size opts'"
  by (auto simp: MakeHeader_def)

text \<open>A file starts with the header of the options.\<close>

definition has_header :: "DiskManagerOptions \<Rightarrow> byte list \<Rightarrow> bool" where
  "has_header opts c \<longleftrightarrow> bytes_at c 0 sizeof_DiskFileHeader = header_bytes (MakeHeader opts)"

lemma has_header_Nil: "\<not> has_header opts []"
proof
  assume "has_header opts []"
  then have "header_bytes (MakeHeader opts) ! 0 = bytes_at [] 0 32 ! 0"
    by (simp add: has_header_def sizeof_DiskFileHeader_def)
  then show False by (simp add: header_bytes_def MakeHeader_def kMagic_def)
qed

lemma header_of_file: "header_of_bytes (bytes_at c 0 4096) = MakeHeader opts \<longleftrightarrow> has_header opts c"
proof -
  have b: "take 32 (bytes_at c 0 4096) = bytes_at c 0 32"
    by (rule nth_equalityI) simp_all
  have "header_bytes (header_of_bytes (bytes_at c 0 4096)) = bytes_at c 0 32"
    using header_bytes_of_header [of "bytes_at c 0 4096"] b by simp
  moreover have "header_of_bytes (bytes_at c 0 4096) = header_of_bytes (bytes_at c 0 32 @ drop 32 (bytes_at c 0 4096))"
    using b by (metis append_take_drop_id)
  ultimately show ?thesis
    unfolding has_header_def sizeof_DiskFileHeader_def
    using header_of_header_bytes [of "MakeHeader opts"] by (auto simp: sizeof_DiskFileHeader_def)
qed

lemma length_header_page: "length (header_page (MakeHeader opts)) = 4096"
  by (simp add: header_page_def length_put_bytes length_header_bytes sizeof_DiskFileHeader_def)

lemma header_page_prefix: "take 32 (header_page (MakeHeader opts)) = header_bytes (MakeHeader opts)"
  by (simp add: header_page_def put_bytes_def length_header_bytes sizeof_DiskFileHeader_def)

subsection \<open>Initialising the file\<close>

text \<open>What the file is after the header was written.\<close>

definition fresh_file :: "DiskManagerOptions \<Rightarrow> byte list \<Rightarrow> bool" where
  "fresh_file opts c \<longleftrightarrow> has_header opts c \<and> (\<forall>p. file_page opts c p = zero_page)"

definition same_pages :: "DiskManagerOptions \<Rightarrow> byte list \<Rightarrow> byte list \<Rightarrow> bool" where
  "same_pages opts c c' \<longleftrightarrow> (\<forall>p < disk_max_page_count opts. file_page opts c' p = file_page opts c p)"

lemma written_fresh:
  assumes "written [] (header_page (MakeHeader opts)) 0 4096 c'" and "4096 \<le> unat (header_size opts)"
  shows "fresh_file opts c'"
proof -
  have "bytes_at c' 0 32 = take 32 (header_page (MakeHeader opts))"
    by (rule nth_equalityI) (use assms(1) in \<open>simp_all add: written_def length_header_page\<close>)
  moreover have "bytes_at c' (page_offset opts p) 4096 = replicate 4096 0" for p
    by (rule nth_equalityI) (use assms in \<open>simp_all add: written_def page_offset_def\<close>)
  ultimately show ?thesis
    by (simp add: fresh_file_def has_header_def sizeof_DiskFileHeader_def header_page_prefix file_page_def zero_page_def)
qed

lemma WriteFreshHeader_effect:
  assumes "posix_file P V" and "open_on V os fd f c" and "WriteFreshHeader P opts fd os = Some (r, os')"
  shows "\<exists>c' k. open_on V os' fd f c' \<and> k \<le> 4096 \<and> written c (header_page (MakeHeader opts)) 0 k c' \<and>
    (\<forall>u. r = Inr u \<longrightarrow> k = 4096)"
  using WriteFully_loop_sound [OF assms(3) [unfolded WriteFreshHeader_def WriteFully_def] assms(1,2) _ _ _ written_0]
  by (simp add: length_header_page)

lemma ValidateExistingHeader_effect:
  assumes P: "posix_file P V" and op: "open_on V os fd f c" and run: "ValidateExistingHeader P opts fd os = Some (r, os')"
  shows "open_on V os' fd f c \<and> (\<forall>u. r = Inr u \<longrightarrow> has_header opts c)"
proof -
  obtain r1 buf where rd: "ReadAtMost_loop P fd kPageSize 0 0 (replicate 4096 0) os = Some (r1, buf, os')"
    and r: "r = (case r1 of Inl e \<Rightarrow> Inl e | Inr _ \<Rightarrow> check_header opts (header_of_bytes buf))"
    using run by (auto simp: ValidateExistingHeader_def ReadAtMost_def split: option.splits sum.splits prod.splits)
  have "open_on V os' fd f c \<and> length buf = 4096 \<and> (\<forall>u. r1 = Inr u \<longrightarrow> buf = bytes_at c 0 4096)"
    using ReadAtMost_loop_sound [OF rd P op] by (simp add: read_upto_0)
  then show ?thesis
    using check_header_iff [of opts] header_of_file [of c opts] r by (auto split: sum.splits)
qed

lemma resize_same_pages:
  assumes "Disk_ValidateOptions opts = Inr ()" and "ExpectedFileSize opts = Inr n"
  shows "same_pages opts c (resize c (unat n))" and "has_header opts c \<Longrightarrow> has_header opts (resize c (unat n))"
proof -
  note n = ExpectedFileSize_eq [OF assms(2)]
  have "bytes_at (resize c (unat n)) (page_offset opts p) 4096 = bytes_at c (page_offset opts p) 4096"
    if "p < disk_max_page_count opts" for p
    by (rule nth_equalityI) (use page_fits [OF assms(1) that] n in \<open>simp_all add: byte_at_resize\<close>)
  then show "same_pages opts c (resize c (unat n))" by (simp add: same_pages_def file_page_def)
  have "bytes_at (resize c (unat n)) 0 32 = bytes_at c 0 32"
    by (rule nth_equalityI) (use valid_optionsD(3) [OF assms(1)] n in \<open>simp_all add: byte_at_resize\<close>)
  then show "has_header opts c \<Longrightarrow> has_header opts (resize c (unat n))"
    by (simp add: has_header_def sizeof_DiskFileHeader_def)
qed

lemma PreallocateFile_effect:
  assumes P: "posix_file P V" and op: "open_on V os fd f c" and valid: "Disk_ValidateOptions opts = Inr ()"
    and run: "PreallocateFile P opts fd os = (r, os')"
  shows "\<exists>c'. open_on V os' fd f c' \<and> same_pages opts c c' \<and> (has_header opts c \<longrightarrow> has_header opts c')"
proof -
  consider (same) "os' = os" | (call) n q where "ExpectedFileSize opts = Inr n" "sys_ftruncate P fd n os = (q, os')"
    using run by (auto simp: PreallocateFile_def bindA_def split: sum.splits prod.splits if_splits)
  then show ?thesis
  proof cases
    case same
    then show ?thesis using op by (auto simp: same_pages_def)
  next
    case call
    note D = ftruncateD [OF P call(2) op]
    show ?thesis
    proof (cases q)
      case (Inl e)
      then show ?thesis using D(1) by (auto simp: same_pages_def)
    next
      case (Inr u)
      then show ?thesis using D(2) resize_same_pages [OF valid call(1)] by blast
    qed
  qed
qed

lemma FileSize_effect:
  assumes P: "posix_file P V" and op: "open_on V os fd f c" and run: "FileSize P fd os = (r, os')"
  shows "open_on V os' fd f c" and "r = Inr n \<Longrightarrow> n = 0 \<longleftrightarrow> c = []"
proof -
  obtain q where q: "sys_fstat P fd os = (q, os')"
    using run by (auto simp: FileSize_def split: sum.splits prod.splits if_splits)
  note D = fstatD [OF P q op]
  show "open_on V os' fd f c" by (rule D)
  assume "r = Inr n"
  then obtain m where m: "q = Inr m" "n = of_int m"
    using run q by (auto simp: FileSize_def split: sum.splits if_splits)
  then have "m = int (length c)" "length c < 18446744073709551616" using D(2) by auto
  then show "n = 0 \<longleftrightarrow> c = []" using m(2) unat_of_nat_64 [of "length c"] by (auto simp: unat_eq_0)
qed


subsection \<open>The constructor\<close>

text \<open>\<open>initialised opts c c'\<close>: what the constructor makes of a file with content \<open>c\<close>.\<close>

definition initialised :: "DiskManagerOptions \<Rightarrow> byte list \<Rightarrow> byte list \<Rightarrow> bool" where
  "initialised opts c c' \<longleftrightarrow> has_header opts c' \<and>
     (if c = [] then \<forall>p < disk_max_page_count opts. file_page opts c' p = zero_page
      else has_header opts c \<and> same_pages opts c c')"

lemma bindO_Some:
  "bindO m f s = Some (r, s') \<longleftrightarrow>
     (\<exists>e. m s = Some (Inl e, s') \<and> r = Inl e) \<or> (\<exists>a s1. m s = Some (Inr a, s1) \<and> f a s1 = Some (r, s'))"
  by (auto simp: bindO_def split: option.splits sum.splits prod.splits)

lemma initialised_step:
  "same_pages opts c1 c2 \<Longrightarrow> has_header opts c1 \<longrightarrow> has_header opts c2 \<Longrightarrow> initialised opts c c1 \<Longrightarrow> initialised opts c c2"
  by (auto simp: initialised_def same_pages_def)

lemma InitializeFile_effect:
  assumes P: "posix_file P V" and op: "open_on V os fd f c" and valid: "Disk_ValidateOptions opts = Inr ()"
    and trunc: "truncate_existing opts \<longrightarrow> c = []" and run: "InitializeFile P opts fd os = Some (r, os')"
  shows "\<exists>c'. open_on V os' fd f c' \<and> (\<forall>u. r = Inr u \<longrightarrow> initialised opts c c') \<and>
    (c \<noteq> [] \<and> \<not> has_header opts c \<longrightarrow> c' = c)"
proof -
  let ?header = "\<lambda>n. if n = 0 \<or> truncate_existing opts then WriteFreshHeader P opts fd else ValidateExistingHeader P opts fd"
  obtain q os1 where size: "FileSize P fd os = (q, os1)" by fastforce
  note op1 = FileSize_effect(1) [OF P op size]
  show ?thesis
  proof (cases q)
    case (Inl e)
    then show ?thesis using run size op1 by (auto simp: InitializeFile_def bindO_Some liftO_def)
  next
    case (Inr n)
    have empty: "n = 0 \<or> truncate_existing opts \<longleftrightarrow> c = []"
      using FileSize_effect(2) [OF P op size Inr] trunc by blast
    obtain q2 os2 where hd: "?header n os1 = Some (q2, os2)"
      using run size Inr by (auto simp: InitializeFile_def bindO_Some liftO_def)
    have "\<exists>c2. open_on V os2 fd f c2 \<and> (\<forall>u. q2 = Inr u \<longrightarrow> initialised opts c c2) \<and>
        (c \<noteq> [] \<and> \<not> has_header opts c \<longrightarrow> c2 = c \<and> (\<exists>e. q2 = Inl e))"
    proof (cases "c = []")
      case True
      then show ?thesis
        using WriteFreshHeader_effect [OF P op1, of opts q2 os2] hd empty written_fresh valid_optionsD(3) [OF valid]
        by (auto simp: initialised_def fresh_file_def)
    next
      case False
      then show ?thesis
        using ValidateExistingHeader_effect [OF P op1, of opts q2 os2] hd empty
        by (cases q2) (auto simp: initialised_def same_pages_def)
    qed
    then obtain c2 where c2: "open_on V os2 fd f c2" "\<forall>u. q2 = Inr u \<longrightarrow> initialised opts c c2"
        "c \<noteq> [] \<and> \<not> has_header opts c \<longrightarrow> c2 = c \<and> (\<exists>e. q2 = Inl e)"
      by blast
    show ?thesis
    proof (cases "preallocate opts \<and> (\<exists>u. q2 = Inr u)")
      case True
      then have "PreallocateFile P opts fd os2 = (r, os')"
        using run size Inr hd by (auto simp: InitializeFile_def bindO_Some liftO_def)
      then show ?thesis
        using PreallocateFile_effect [OF P c2(1) valid] c2(2,3) True initialised_step by blast
    next
      case False
      then have "os' = os2 \<and> r = q2"
        using run size Inr hd by (auto simp: InitializeFile_def bindO_Some liftO_def checkO_def)
      then show ?thesis using c2 by blast
    qed
  qed
qed

text \<open>What the constructor finds: an empty file when it creates or truncates.\<close>

definition found :: "'os file_view \<Rightarrow> 'os \<Rightarrow> DiskManagerOptions \<Rightarrow> byte list" where
  "found V os opts =
     (case stored V os (path opts) of None \<Rightarrow> [] | Some c \<Rightarrow> if truncate_existing opts then [] else c)"

lemma OpenFile_effect:
  assumes P: "posix_file P V" and run: "OpenFile P opts os = (r, os')"
  shows "r = Inr fd \<Longrightarrow> 0 \<le> fd \<and> open_on V os' fd (path opts) (found V os opts)"
    and "r = Inl e \<Longrightarrow> stored V os' (path opts) = stored V os (path opts)"
proof -
  obtain q where q: "sys_open P (path opts) (open_flags opts) kFileCreateMode os = (q, os')"
    using run by (auto simp: OpenFile_def split: sum.splits prod.splits)
  have fl: "O_CREAT \<in> set (open_flags opts)" "O_TRUNC \<in> set (open_flags opts) \<longleftrightarrow> truncate_existing opts"
    by (simp_all add: open_flags_def)
  note D = openD [OF P q fl(1)]
  show "r = Inr fd \<Longrightarrow> 0 \<le> fd \<and> open_on V os' fd (path opts) (found V os opts)"
    using run q D(1) [of fd] D(2) [of fd, unfolded fl(2)] by (auto simp: OpenFile_def found_def split: sum.splits)
  show "r = Inl e \<Longrightarrow> stored V os' (path opts) = stored V os (path opts)"
    using run q D(3) by (auto simp: OpenFile_def split: sum.splits)
qed

lemma new_DiskManager_cases:
  assumes "new_DiskManager P opts os = Some (r, os')"
  obtains (invalid) e where "Disk_ValidateOptions opts = Inl e" "r = Inl e" "os' = os"
  | (open_failed) e where "Disk_ValidateOptions opts = Inr ()" "OpenFile P opts os = (Inl e, os')" "r = Inl e"
  | (opened) fd os1 q where "Disk_ValidateOptions opts = Inr ()" "OpenFile P opts os = (Inr fd, os1)"
      "InitializeFile P opts fd os1 = Some (q, os')"
      "r = (case q of Inl e \<Rightarrow> Inl e | Inr _ \<Rightarrow> Inr \<lparr>dm_options = opts, dm_fd = fd\<rparr>)"
  using assms by (fastforce simp: new_DiskManager_def bindO_Some checkO_def liftO_def)

lemma new_DiskManager_effect:
  assumes P: "posix_file P V" and run: "new_DiskManager P opts os = Some (Inr dm, os')"
  shows "dm_options dm = opts \<and> Disk_ValidateOptions opts = Inr () \<and> 0 \<le> dm_fd dm \<and>
    (\<exists>c. open_on V os' (dm_fd dm) (path opts) c \<and> initialised opts (found V os opts) c)"
  using run
proof (cases rule: new_DiskManager_cases)
  case (opened fd os1 q)
  obtain u where q: "q = Inr u" and dm: "dm = \<lparr>dm_options = opts, dm_fd = fd\<rparr>"
    using opened(4) by (cases q) simp_all
  note o = OpenFile_effect(1) [OF P opened(2) refl]
  have "truncate_existing opts \<longrightarrow> found V os opts = []" by (auto simp: found_def split: option.split)
  then show ?thesis
    using InitializeFile_effect [OF P conjunct2 [OF o] opened(1) _ opened(3)] o q opened(1) dm by auto
qed simp_all

end
