(* ===== verification/Example_File.thy ===== *)
theory Example_File
  imports Disk_Open
begin

text \<open>
  A small operating system with the documented behaviour: files by path, descriptors, and a number
  of signals that interrupt transfers. It shows that the hypotheses on the operating system can be
  met.
\<close>

record toy_os =
  toy_files :: "string \<Rightarrow> byte list option"
  toy_fds :: "int \<Rightarrow> string option"
  toy_next :: nat
  toy_signals :: nat

definition EBADF :: int where
  "EBADF = 9"

definition EFBIG :: int where
  "EFBIG = 27"

definition toy_content :: "int \<Rightarrow> toy_os \<Rightarrow> (string \<times> byte list) option" where
  "toy_content fd os = (case toy_fds os fd of None \<Rightarrow> None
     | Some p \<Rightarrow> (case toy_files os p of None \<Rightarrow> None | Some c \<Rightarrow> Some (p, c)))"

definition toy_open :: "string \<Rightarrow> open_flag list \<Rightarrow> nat \<Rightarrow> (toy_os, int) syscall" where
  "toy_open p flags mode os =
     (Inr (int (toy_next os)),
      os\<lparr>toy_fds := (toy_fds os)(int (toy_next os) := Some p), toy_next := Suc (toy_next os),
         toy_files := (toy_files os)(p :=
           Some (case toy_files os p of None \<Rightarrow> [] | Some c \<Rightarrow> if O_TRUNC \<in> set flags then [] else c))\<rparr>)"

definition toy_fstat :: "int \<Rightarrow> (toy_os, int) syscall" where
  "toy_fstat fd os = (case toy_content fd os of None \<Rightarrow> (Inl EBADF, os)
     | Some (p, c) \<Rightarrow> if length c < 2 ^ 63 then (Inr (int (length c)), os) else (Inl EFBIG, os))"

definition toy_pread :: "int \<Rightarrow> size_t \<Rightarrow> off_t \<Rightarrow> (toy_os, byte list) syscall" where
  "toy_pread fd n off os = (case toy_content fd os of None \<Rightarrow> (Inl EBADF, os)
     | Some (p, c) \<Rightarrow>
         if 0 < toy_signals os then (Inl EINTR, os\<lparr>toy_signals := toy_signals os - 1\<rparr>)
         else (Inr (take (unat n) (drop (unat off) c)), os))"

definition toy_pwrite :: "int \<Rightarrow> byte list \<Rightarrow> off_t \<Rightarrow> (toy_os, nat) syscall" where
  "toy_pwrite fd bs off os = (case toy_content fd os of None \<Rightarrow> (Inl EBADF, os)
     | Some (p, c) \<Rightarrow>
         if 0 < toy_signals os then (Inl EINTR, os\<lparr>toy_signals := toy_signals os - 1\<rparr>)
         else (Inr (length bs), os\<lparr>toy_files := (toy_files os)(p := Some (write_at c (unat off) bs))\<rparr>))"

definition toy_ftruncate :: "int \<Rightarrow> off_t \<Rightarrow> (toy_os, unit) syscall" where
  "toy_ftruncate fd n os = (case toy_content fd os of None \<Rightarrow> (Inl EBADF, os)
     | Some (p, c) \<Rightarrow> (Inr (), os\<lparr>toy_files := (toy_files os)(p := Some (resize c (unat n)))\<rparr>))"

definition toy_fdatasync :: "int \<Rightarrow> (toy_os, unit) syscall" where
  "toy_fdatasync fd os = (Inr (), os)"

definition toy_close :: "int \<Rightarrow> (toy_os, unit) syscall" where
  "toy_close fd os = (Inr (), os\<lparr>toy_fds := (toy_fds os)(fd := None)\<rparr>)"

definition toy_posix :: "toy_os Posix" where
  "toy_posix = \<lparr>sys_open = toy_open, sys_fstat = toy_fstat, sys_pread = toy_pread, sys_pwrite = toy_pwrite,
     sys_ftruncate = toy_ftruncate, sys_fdatasync = toy_fdatasync, sys_close = toy_close\<rparr>"

definition toy_view :: "toy_os file_view" where
  "toy_view = \<lparr>opened = toy_fds, stored = toy_files\<rparr>"

lemma toy_open_on: "open_on toy_view os fd p c \<longleftrightarrow> toy_fds os fd = Some p \<and> toy_files os p = Some c"
  by (simp add: open_on_def toy_view_def)

lemma toy_posix_file: "posix_file toy_posix toy_view"
  unfolding posix_file_def
proof (intro conjI)
  show "open_ok toy_posix toy_view"
    by (auto simp: open_ok_def toy_posix_def toy_open_def toy_open_on split: option.split)
      (auto simp: toy_view_def)
  show "fstat_ok toy_posix toy_view"
    by (auto simp: fstat_ok_def toy_posix_def toy_fstat_def toy_content_def toy_open_on split: if_splits)
  show "pread_ok toy_posix toy_view"
    by (auto simp: pread_ok_def toy_posix_def toy_pread_def toy_content_def toy_open_on unat_gt_0 unat_eq_0
        min_def split: if_splits)
  show "pwrite_ok toy_posix toy_view"
    by (auto simp: pwrite_ok_def toy_posix_def toy_pwrite_def toy_content_def toy_open_on write_at_def
        split: if_splits intro!: exI [where x = 0])
  show "ftruncate_ok toy_posix toy_view"
    by (auto simp: ftruncate_ok_def toy_posix_def toy_ftruncate_def toy_content_def toy_open_on)
  show "fdatasync_ok toy_posix toy_view"
    by (auto simp: fdatasync_ok_def toy_posix_def toy_fdatasync_def)
  show "close_ok toy_posix toy_view"
    by (auto simp: close_ok_def toy_posix_def toy_close_def toy_open_on) (auto simp: toy_view_def)
qed

lemma toy_interrupts_end: "interrupts_end toy_posix toy_signals"
  by (auto simp: interrupts_end_def toy_posix_def toy_pread_def toy_pwrite_def EBADF_def EINTR_def
      split: option.splits if_splits)

text \<open>When the machine stops, the files stay and all descriptors are gone.\<close>

definition toy_crash :: "toy_os \<Rightarrow> toy_os \<Rightarrow> bool" where
  "toy_crash os os' \<longleftrightarrow> os' = os\<lparr>toy_fds := (\<lambda>_. None)\<rparr>"

lemma toy_crash_keeps_synced: "crash_keeps_synced toy_posix toy_view toy_crash"
  by (auto simp: crash_keeps_synced_def toy_crash_def toy_posix_def toy_fdatasync_def toy_open_on) (simp add: toy_view_def)

subsection \<open>A run\<close>

definition toy_opts :: DiskManagerOptions where
  "toy_opts = \<lparr>path = ''db'', disk_max_page_count = 3, header_size = 4096, truncate_existing = False,
     preallocate = False, io_mode = kBuffered\<rparr>"

definition toy_start :: toy_os where
  "toy_start = \<lparr>toy_files = (\<lambda>_. None), toy_fds = (\<lambda>_. None), toy_next = 3, toy_signals = 0\<rparr>"

definition toy_dm :: DiskManager where
  "toy_dm = \<lparr>dm_options = toy_opts, dm_fd = 3\<rparr>"

lemma toy_valid: "Disk_ValidateOptions toy_opts = Inr ()"
  by (simp add: Disk_ValidateOptions_def toy_opts_def sizeof_DiskFileHeader_def ExpectedFileSize_def
      CheckedMul_eq CheckedAdd_eq kPageSize_eq)

text \<open>With no signal pending, a transfer inside the file is one call.\<close>

definition toy_ready :: "int \<Rightarrow> byte list \<Rightarrow> toy_os \<Rightarrow> bool" where
  "toy_ready fd c os \<longleftrightarrow> toy_fds os fd = Some ''db'' \<and> toy_files os ''db'' = Some c \<and> toy_signals os = 0"

lemma toy_ready_open: "toy_ready fd c os \<Longrightarrow> open_on toy_view os fd ''db'' c"
  by (simp add: toy_ready_def toy_open_on)

lemma toy_posix_sel [simp]:
  "sys_open toy_posix = toy_open" "sys_fstat toy_posix = toy_fstat" "sys_pread toy_posix = toy_pread"
  "sys_pwrite toy_posix = toy_pwrite" "sys_ftruncate toy_posix = toy_ftruncate"
  "sys_fdatasync toy_posix = toy_fdatasync" "sys_close toy_posix = toy_close"
  by (simp_all add: toy_posix_def)

lemma io_offset_0: "unat off \<le> 9223372036854775807 \<Longrightarrow> io_offset off 0 = Inr off"
  using unat_64_less [of off]
  by (simp add: io_offset_def CheckedAdd_eq CheckedOffset_def word_less_nat_alt unat_max_offset)

lemma toy_write:
  assumes "toy_ready fd c os" and "length buf = unat n" and "0 < n" and "unat off \<le> 9223372036854775807"
  shows "\<exists>os'. WriteFully toy_posix fd buf n off os = Some (Inr (), os') \<and> toy_ready fd (write_at c (unat off) buf) os' \<and>
    toy_next os' = toy_next os"
proof -
  have "take (unat n) buf = buf" "of_nat (length buf) = n" "length buf \<noteq> 0"
    using assms(2,3) by (simp_all add: unat_gt_0)
  then show ?thesis
    using assms io_offset_0 [OF assms(4)]
    by (simp add: toy_ready_def WriteFully_def WriteFully_loop.simps [of toy_posix fd buf n off 0]
        WriteFully_loop.simps [of toy_posix fd buf n off n] toy_pwrite_def toy_content_def)
qed

lemma toy_read:
  assumes "toy_ready fd c os" and "unat off + unat n \<le> length c" and "0 < n" and "unat off \<le> 9223372036854775807"
  shows "\<exists>buf'. ReadAtMost toy_posix fd n off (buf, os) = Some (Inr (), buf', os)"
proof -
  have "0 < unat n" using assms(3) by (simp add: word_less_nat_alt)
  moreover have m: "min (length c - unat off) (unat n) = unat n" using assms(2) by simp
  ultimately have "take (unat n) (drop (unat off) c) \<noteq> []"
      "length (take (unat n) (drop (unat off) c)) = unat n"
    using assms(2) by auto
  moreover from this(2) have "(of_nat (length (take (unat n) (drop (unat off) c))) :: 64 word) = n"
    by (metis word_unat_eq_iff unat_of_nat_64 unat_64_less)
  ultimately show ?thesis
    using assms io_offset_0 [OF assms(4)]
    by (simp del: length_take length_drop add: toy_ready_def ReadAtMost_def ReadAtMost_loop.simps [of toy_posix fd n off 0]
        ReadAtMost_loop.simps [of toy_posix fd n off n] toy_pread_def toy_content_def)
qed

lemma toy_create:
  "\<exists>os c. new_DiskManager toy_posix toy_opts toy_start = Some (Inr toy_dm, os) \<and> toy_ready 3 c os \<and>
     toy_next os = 4 \<and> length c = 4096"
proof -
  let ?os = "snd (toy_open ''db'' (open_flags toy_opts) kFileCreateMode toy_start)"
  have r: "toy_ready 3 [] ?os" "toy_next ?os = 4"
    by (simp_all add: toy_ready_def toy_open_def toy_start_def)
  obtain os' where os': "WriteFully toy_posix 3 (header_page (MakeHeader toy_opts)) kPageSize 0 ?os = Some (Inr (), os')"
      "toy_ready 3 (write_at [] 0 (header_page (MakeHeader toy_opts))) os'" "toy_next os' = 4"
    using toy_write [OF r(1), of "header_page (MakeHeader toy_opts)" kPageSize 0] r(2)
    by (auto simp: length_header_page kPageSize_eq)
  have o: "OpenFile toy_posix toy_opts toy_start = (Inr 3, ?os)"
    by (simp add: OpenFile_def toy_open_def toy_start_def toy_opts_def)
  have "FileSize toy_posix 3 ?os = (Inr 0, ?os)"
    using r(1) by (simp add: FileSize_def toy_fstat_def toy_content_def toy_ready_def)
  then have "InitializeFile toy_posix toy_opts 3 ?os = Some (Inr (), os')"
    using os'(1) by (simp add: InitializeFile_def bindO_def liftO_def WriteFreshHeader_def checkO_def toy_opts_def)
  then have "new_DiskManager toy_posix toy_opts toy_start = Some (Inr toy_dm, os')"
    using o toy_valid by (simp add: new_DiskManager_def bindO_def liftO_def checkO_def toy_dm_def)
  moreover have "length (write_at [] 0 (header_page (MakeHeader toy_opts))) = 4096"
    using length_header_page [of toy_opts] by (auto simp: length_write_at)
  ultimately show ?thesis using os'(2,3) by blast
qed

text \<open>Descriptor \<open>fd\<close> with the options of the example.\<close>

definition toy_fd_dm :: "int \<Rightarrow> DiskManager" where
  "toy_fd_dm fd = \<lparr>dm_options = toy_opts, dm_fd = fd\<rparr>"

lemma toy_offset: "p < 3 \<Longrightarrow> \<exists>off. OffsetForPage toy_opts p = Inr off \<and> unat off = 4096 + unat p * 4096"
  using OffsetForPage_ok [OF toy_valid, of p] by (simp add: toy_opts_def page_offset_def)

lemma toy_small: "p < (3 :: PageId) \<Longrightarrow> unat p < 3"
  by (simp add: word_less_nat_alt)

lemma toy_write_page:
  assumes "toy_ready fd c os" and "page_ok pg" and "p < 3"
  shows "\<exists>os'. WritePage toy_posix (toy_fd_dm fd) p 4096 pg os = Some (Inr (), os') \<and>
    toy_ready fd (write_at c (4096 + unat p * 4096) (data pg)) os' \<and> toy_next os' = toy_next os"
proof -
  obtain off where off: "OffsetForPage toy_opts p = Inr off" "unat off = 4096 + unat p * 4096"
    using toy_offset [OF assms(3)] by blast
  have "Disk_ValidatePageId toy_opts p = Inr ()" using assms(3) by (simp add: Disk_ValidatePageId_def toy_opts_def)
  then show ?thesis
    using toy_write [OF assms(1), of "data pg" kPageSize off] assms(2) off toy_small [OF assms(3)]
    by (simp add: WritePage_def bindO_def checkO_def toy_fd_dm_def ValidatePageAlignment_def kPageSize_eq page_ok_def)
qed

lemma toy_read_page:
  assumes "toy_ready fd c os" and "p < 3" and "8192 + unat p * 4096 \<le> length c"
  shows "\<exists>pg'. ReadPage toy_posix (toy_fd_dm fd) p 4096 (pg, os) = Some (Inr (), pg', os)"
proof -
  obtain off where off: "OffsetForPage toy_opts p = Inr off" "unat off = 4096 + unat p * 4096"
    using toy_offset [OF assms(2)] by blast
  have v: "Disk_ValidatePageId toy_opts p = Inr ()" using assms(2) by (simp add: Disk_ValidatePageId_def toy_opts_def)
  obtain buf where "ReadAtMost toy_posix fd kPageSize off (data (fill 0 pg), os) = Some (Inr (), buf, os)"
    using toy_read [OF assms(1), of off kPageSize "data (fill 0 pg)"] off(2) assms(3) toy_small [OF assms(2)]
    by (auto simp: kPageSize_eq)
  then show ?thesis
    using off v by (simp add: ReadPage_def toy_fd_dm_def ValidatePageAlignment_def kPageSize_eq)
qed

text \<open>Closing and opening again.\<close>

lemma toy_open_again:
  assumes "toy_files os1 ''db'' = Some c" and "toy_signals os1 = 0" and "toy_next os1 = 4"
    and "has_header toy_opts c" and "4096 \<le> length c" and "length c < 2 ^ 63"
  shows "\<exists>os'. new_DiskManager toy_posix toy_opts os1 = Some (Inr (toy_fd_dm 4), os') \<and> toy_ready 4 c os'"
proof -
  define os2 where "os2 = snd (toy_open ''db'' (open_flags toy_opts) kFileCreateMode os1)"
  have r: "toy_ready 4 c os2"
    using assms(1-3) by (simp add: toy_ready_def os2_def toy_open_def open_flags_def toy_opts_def)
  have o: "OpenFile toy_posix toy_opts os1 = (Inr 4, os2)"
    using assms(3) by (simp add: OpenFile_def os2_def toy_open_def toy_opts_def)
  obtain buf where b: "ReadAtMost toy_posix 4 kPageSize 0 (replicate 4096 0, os2) = Some (Inr (), buf, os2)"
    using toy_read [OF r, of 0 kPageSize "replicate 4096 0"] assms(5) by (auto simp: kPageSize_eq)
  have "buf = bytes_at c 0 4096"
    using ReadAtMost_loop_sound [OF _ toy_posix_file toy_ready_open [OF r], of kPageSize 0 0 "replicate 4096 0"] b
    by (simp add: ReadAtMost_def read_upto_0)
  then have "ValidateExistingHeader toy_posix toy_opts 4 os2 = Some (Inr (), os2)"
    using b header_of_file [of c toy_opts] check_header_iff [of toy_opts] assms(4) by (simp add: ValidateExistingHeader_def)
  moreover have "c \<noteq> []" "FileSize toy_posix 4 os2 = (Inr (of_nat (length c)), os2)"
    using r assms(5,6) by (auto simp: FileSize_def toy_fstat_def toy_content_def toy_ready_def)
  moreover have "of_nat (length c) \<noteq> (0 :: 64 word)"
    using unat_of_nat_64 [of "length c"] assms(5,6) by auto
  ultimately have "InitializeFile toy_posix toy_opts 4 os2 = Some (Inr (), os2)"
    by (simp add: InitializeFile_def bindO_def liftO_def checkO_def toy_opts_def)
  then have "new_DiskManager toy_posix toy_opts os1 = Some (Inr (toy_fd_dm 4), os2)"
    using o toy_valid by (simp add: new_DiskManager_def bindO_def liftO_def checkO_def toy_fd_dm_def)
  then show ?thesis using r by blast
qed

lemma toy_reopen:
  assumes "toy_ready 3 c os" and "toy_next os = 4" and "has_header toy_opts c" and "4096 \<le> length c" and "length c < 2 ^ 63"
  shows "\<exists>os'. new_DiskManager toy_posix toy_opts (snd (delete_DiskManager toy_posix toy_dm os)) = Some (Inr (toy_fd_dm 4), os') \<and>
    toy_ready 4 c os'"
  by (rule toy_open_again) (use assms in \<open>simp_all add: toy_ready_def delete_DiskManager_def toy_dm_def toy_close_def\<close>)

end
