(* ===== verification/Disk_Properties.thy ===== *)
theory Disk_Properties
  imports Example_File
begin

text \<open>The properties of the disk manager, each with a run of the example system that it applies to.\<close>

text \<open>C34: the layout of the file: every page of a valid configuration has an offset that is
  computed without overflow, is a multiple of the page size and lies behind the header and inside the
  expected file size, and two pages never overlap.\<close>

theorem pages_have_their_place:
  assumes "Disk_ValidateOptions opts = Inr ()" and "p < disk_max_page_count opts" and "q < disk_max_page_count opts"
  shows "\<exists>off off' n. OffsetForPage opts p = Inr off \<and> OffsetForPage opts q = Inr off' \<and> ExpectedFileSize opts = Inr n \<and>
    unat (header_size opts) \<le> unat off \<and> unat off mod 4096 = 0 \<and> unat off + 4096 \<le> unat n \<and>
    (p \<noteq> q \<longrightarrow> unat off + 4096 \<le> unat off' \<or> unat off' + 4096 \<le> unat off)"
proof -
  obtain off off' where off: "OffsetForPage opts p = Inr off" "unat off = page_offset opts p"
      "OffsetForPage opts q = Inr off'" "unat off' = page_offset opts q"
    using OffsetForPage_ok [OF assms(1)] assms(2,3) by blast
  obtain n where n: "ExpectedFileSize opts = Inr n"
    using assms(1) by (auto simp: Disk_ValidateOptions_def bindE_Inr_iff split: if_splits)
  have "unat off mod 4096 = 0" using valid_optionsD(4) [OF assms(1)] by (simp add: off page_offset_def)
  then show ?thesis
    using off n ExpectedFileSize_eq [OF n] page_fits [OF assms(1,2)] page_offset_disjoint [of p q opts]
    by (auto simp: page_offset_def)
qed

theorem pages_have_their_place_witness:
  "\<exists>off off' n. OffsetForPage toy_opts 0 = Inr off \<and> OffsetForPage toy_opts 2 = Inr off' \<and>
     ExpectedFileSize toy_opts = Inr n \<and> (unat off + 4096 \<le> unat off' \<or> unat off' + 4096 \<le> unat off)"
  using pages_have_their_place [OF toy_valid, of 0 2] by (auto simp: toy_opts_def)

text \<open>C36: \<^verbatim>\<open>CheckedAdd\<close>, \<^verbatim>\<open>CheckedMul\<close> and \<^verbatim>\<open>CheckedOffset\<close> give the
  mathematical result when it fits, and throw \<^verbatim>\<open>std::overflow_error\<close> exactly when it does
  not.\<close>

theorem checked_arithmetic_is_exact:
  "CheckedAdd a b = (if unat a + unat b < 2 ^ 64 then Inr (of_nat (unat a + unat b))
     else Inl (overflow_error ''uint64 addition overflow'')) \<and>
   CheckedMul a b = (if unat a * unat b < 2 ^ 64 then Inr (of_nat (unat a * unat b))
     else Inl (overflow_error ''uint64 multiplication overflow'')) \<and>
   CheckedOffset a = (if unat a < 2 ^ 63 then Inr a
     else Inl (overflow_error ''file offset does not fit into off_t''))"
  by (simp add: CheckedAdd_eq CheckedMul_eq CheckedOffset_def word_less_nat_alt unat_max_offset not_less)

text \<open>C13: \<^verbatim>\<open>WritePage\<close> on a file that behaves as documented is an update of one element of
  an array of pages: if it returns, the file has the new page and all other pages and the header as
  before; if it throws, a prefix of the new page may be in the file, and nothing else has changed.\<close>

theorem write_page_refines_array:
  assumes "posix_file P V" and "open_on V os (dm_fd dm) f c" and "Disk_ValidateOptions (dm_options dm) = Inr ()"
    and "page_ok page" and "WritePage P dm p address page os = Some (r, os')"
  shows "\<exists>c' k. open_on V os' (dm_fd dm) f c' \<and>
    (\<forall>q. file_page (dm_options dm) c' q =
       (if q = p then torn_page k page (file_page (dm_options dm) c p) else file_page (dm_options dm) c q)) \<and>
    (has_header (dm_options dm) c' = has_header (dm_options dm) c) \<and>
    (r = Inr () \<longrightarrow> file_page (dm_options dm) c' p = page)"
proof -
  have "sizeof_DiskFileHeader \<le> unat (header_size (dm_options dm))"
    using valid_optionsD(3) [OF assms(3)] by (simp add: sizeof_DiskFileHeader_def)
  then show ?thesis using WritePage_effect [OF assms] unfolding has_header_def by metis
qed

theorem write_page_refines_array_witness:
  "\<exists>os os' c'. WritePage toy_posix toy_dm 1 4096 zero_page os = Some (Inr (), os') \<and>
     open_on toy_view os' 3 ''db'' c' \<and> file_page toy_opts c' 1 = zero_page"
proof -
  obtain os c where r: "toy_ready 3 c os" using toy_create by blast
  have dm: "toy_fd_dm 3 = toy_dm" by (simp add: toy_fd_dm_def toy_dm_def)
  obtain os' where w: "WritePage toy_posix toy_dm 1 4096 zero_page os = Some (Inr (), os')"
    using toy_write_page [OF r page_ok_zero_page, of 1] dm by auto
  show ?thesis
    using write_page_refines_array [OF toy_posix_file _ _ page_ok_zero_page w, of "''db''" c] w toy_ready_open [OF r] toy_valid
    by (auto simp: toy_dm_def)
qed

text \<open>C14: \<^verbatim>\<open>ReadPage\<close> never changes the file, and if it returns, the page has the bytes of the
  file, with zeros where the file ends early.\<close>

theorem read_page_refines_array:
  assumes "posix_file P V" and "open_on V os (dm_fd dm) f c" and "Disk_ValidateOptions (dm_options dm) = Inr ()"
    and "page_ok pg" and "ReadPage P dm p address (pg, os) = Some (r, pg', os')"
  shows "open_on V os' (dm_fd dm) f c \<and> page_ok pg' \<and> (r = Inr () \<longrightarrow> pg' = file_page (dm_options dm) c p)"
  using ReadPage_effect [OF assms] by blast

theorem read_page_refines_array_witness:
  "\<exists>os c pg'. open_on toy_view os 3 ''db'' c \<and> ReadPage toy_posix toy_dm 0 4096 (zero_page, os) = Some (Inr (), pg', os) \<and>
     pg' = file_page toy_opts c 0"
proof -
  obtain os0 c0 where r0: "toy_ready 3 c0 os0" "length c0 = 4096" using toy_create by blast
  have dm: "toy_fd_dm 3 = toy_dm" by (simp add: toy_fd_dm_def toy_dm_def)
  obtain os where r: "toy_ready 3 (write_at c0 4096 (data zero_page)) os"
    using toy_write_page [OF r0(1) page_ok_zero_page, of 0] by auto
  have "length (write_at c0 4096 (data zero_page)) = 8192" using r0(2) by (simp add: length_write_at zero_page_def)
  then obtain pg' where rd: "ReadPage toy_posix toy_dm 0 4096 (zero_page, os) = Some (Inr (), pg', os)"
    using toy_read_page [OF r, of 0 zero_page] dm by auto
  show ?thesis
    using read_page_refines_array [OF toy_posix_file _ _ page_ok_zero_page rd, of "''db''"] rd toy_ready_open [OF r] toy_valid
    by (auto simp: toy_dm_def)
qed

text \<open>C21: the retry loops return: if the calls are interrupted by finitely many signals, a page
  read or write comes back, with a result or an exception.\<close>

theorem page_transfers_return:
  assumes "interrupts_end P pending" and "page_ok page"
  shows "(\<exists>r os'. WritePage P dm p address page os = Some (r, os')) \<and>
    (\<exists>r pg' os'. ReadPage P dm p address (page, os) = Some (r, pg', os'))"
  using WritePage_returns [OF assms] ReadPage_returns [OF assms(1)] by force

theorem page_transfers_return_witness:
  "\<exists>r os'. WritePage toy_posix toy_dm 1 4096 zero_page (toy_start\<lparr>toy_signals := 5\<rparr>) = Some (r, os')"
  using page_transfers_return [OF toy_interrupts_end page_ok_zero_page] by blast

text \<open>C35: the header survives its encoding: its 32 bytes decode to it, and 32 bytes are the encoding
  of the header they decode to.\<close>

theorem header_round_trip:
  "(length (magic h) = 8 \<longrightarrow> header_of_bytes (header_bytes h @ rest) = h) \<and>
   (length bs = 32 \<longrightarrow> header_bytes (header_of_bytes bs) = bs)"
  using header_of_header_bytes [of h rest] header_bytes_of_header [of bs] by simp

theorem header_round_trip_witness:
  "header_of_bytes (header_bytes (MakeHeader toy_opts) @ [0, 0]) = MakeHeader toy_opts"
  using header_round_trip [of "MakeHeader toy_opts" "[0, 0]"] by simp

lemma reopened_page:
  assumes P: "posix_file P V" and h: "has_header opts c" and st: "stored V os (path opts') = Some c"
    and nt: "\<not> truncate_existing opts'" and new: "new_DiskManager P opts' os = Some (Inr dm', os4)"
    and ok: "page_ok buffer" and read: "ReadPage P dm' p address' (buffer, os4) = Some (Inr (), got, os5)"
  shows "got = file_page opts c p"
proof -
  have "found V os opts' = c" using st nt by (simp add: found_def)
  then obtain c4 where n4: "dm_options dm' = opts'" "Disk_ValidateOptions opts' = Inr ()"
      "open_on V os4 (dm_fd dm') (path opts') c4" "initialised opts' c c4"
    using new_DiskManager_effect [OF P new] by auto
  have "c \<noteq> []" using h has_header_Nil by blast
  then have i: "has_header opts' c" "same_pages opts' c c4" using n4(4) by (simp_all add: initialised_def)
  then have "MakeHeader opts' = MakeHeader opts" using h header_of_file by metis
  then have o: "page_offset opts' = page_offset opts"
    by (simp add: MakeHeader_eq_iff fun_eq_iff page_offset_def)
  have rd: "got = file_page opts' c4 p" using ReadPage_effect [OF P n4(3) _ ok read] n4(1,2) by auto
  have "p < disk_max_page_count opts'"
  proof (rule ccontr)
    assume "\<not> p < disk_max_page_count opts'"
    then have "OffsetForPage opts' p = Inl (out_of_range ''page id is out of range'')"
      by (simp add: OffsetForPage_bad not_less)
    then show False using read n4(1) by (auto elim: ReadPage_cases)
  qed
  then have "file_page opts' c4 p = file_page opts' c p" using i(2) by (simp add: same_pages_def)
  then show ?thesis using rd o by (simp add: file_page_def)
qed

text \<open>C15: a page that was written is there after the file was closed and opened again.\<close>

theorem pages_survive_reopening:
  assumes "posix_file P V"
    and "new_DiskManager P opts os0 = Some (Inr dm, os1)"
    and "page_ok page" and "WritePage P dm p address page os1 = Some (Inr (), os2)"
    and "delete_DiskManager P dm os2 = (dead, os3)"
    and "\<not> truncate_existing opts'" and "path opts' = path opts" and "new_DiskManager P opts' os3 = Some (Inr dm', os4)"
    and "page_ok buffer" and "ReadPage P dm' p address' (buffer, os4) = Some (Inr (), got, os5)"
  shows "got = page"
proof -
  note P = assms(1)
  obtain c1 where n1: "dm_options dm = opts" "Disk_ValidateOptions opts = Inr ()" "0 \<le> dm_fd dm"
      "open_on V os1 (dm_fd dm) (path opts) c1" "initialised opts (found V os0 opts) c1"
    using new_DiskManager_effect [OF P assms(2)] by blast
  obtain c2 where n2: "open_on V os2 (dm_fd dm) (path opts) c2" "file_page opts c2 p = page"
      "\<forall>n \<le> unat (header_size opts). bytes_at c2 0 n = bytes_at c1 0 n"
    using WritePage_effect [OF P n1(4) _ assms(3,4)] n1(1,2) by auto
  obtain r where "sys_close P (dm_fd dm) os2 = (r, os3)"
    using assms(5) n1(3) by (auto simp: delete_DiskManager_def prod_eq_iff)
  then have st: "stored V os3 (path opts') = Some c2" using closeD(2) [OF P _ n2(1)] assms(7) by simp
  have h: "has_header opts c2"
    using n1(5) n2(3) valid_optionsD(3) [OF n1(2)] by (simp add: initialised_def has_header_def sizeof_DiskFileHeader_def)
  show ?thesis using reopened_page [OF P h st assms(6,8-10)] n2(2) by simp
qed

theorem pages_survive_reopening_witness:
  "\<exists>os4 os5 got. ReadPage toy_posix (toy_fd_dm 4) 0 4096 (zero_page, os4) = Some (Inr (), got, os5) \<and>
     got = fill 7 zero_page"
proof -
  obtain os1 c1 where n1: "new_DiskManager toy_posix toy_opts toy_start = Some (Inr toy_dm, os1)" "toy_ready 3 c1 os1"
      "toy_next os1 = 4" "length c1 = 4096"
    using toy_create by blast
  let ?pg = "fill 7 zero_page" and ?c2 = "write_at c1 4096 (data (fill 7 zero_page))"
  have pg: "page_ok ?pg" by simp
  have dm: "toy_fd_dm 3 = toy_dm" by (simp add: toy_fd_dm_def toy_dm_def)
  obtain os2 where w: "WritePage toy_posix toy_dm 0 4096 ?pg os1 = Some (Inr (), os2)" "toy_ready 3 ?c2 os2" "toy_next os2 = 4"
    using toy_write_page [OF n1(2) pg, of 0] dm n1(3) by auto
  have len: "length ?c2 = 8192" using n1(4) by (simp add: length_write_at fill_def zero_page_def)
  have "has_header toy_opts c1"
    using new_DiskManager_effect [OF toy_posix_file n1(1)] toy_ready_open [OF n1(2)]
    by (auto simp: initialised_def open_on_def toy_dm_def toy_opts_def)
  moreover have "bytes_at ?c2 0 32 = bytes_at c1 0 32"
    by (rule nth_equalityI) (simp_all add: byte_at_write_at)
  ultimately have "has_header toy_opts ?c2"
    by (simp add: has_header_def sizeof_DiskFileHeader_def)
  from toy_reopen [OF w(2,3) this] len
  obtain os4 where n4: "new_DiskManager toy_posix toy_opts (snd (delete_DiskManager toy_posix toy_dm os2)) = Some (Inr (toy_fd_dm 4), os4)"
      "toy_ready 4 ?c2 os4"
    by auto
  obtain got where rd: "ReadPage toy_posix (toy_fd_dm 4) 0 4096 (zero_page, os4) = Some (Inr (), got, os4)"
    using toy_read_page [OF n4(2), of 0 zero_page] len by auto
  obtain dead os3 where del: "delete_DiskManager toy_posix toy_dm os2 = (dead, os3)" by fastforce
  have "got = ?pg"
    by (rule pages_survive_reopening [OF toy_posix_file n1(1) pg w(1) del _ refl _ page_ok_zero_page rd])
      (use n4(1) del in \<open>simp_all add: toy_opts_def\<close>)
  then show ?thesis using rd by blast
qed

text \<open>C22: what the constructor makes of the file: it only returns for valid options, with an open
  descriptor on a file that has their header; a file that was empty, new or truncated then has pages
  of zeros, and a file that was there has had that header and keeps its pages.\<close>

theorem constructor_makes_or_accepts:
  assumes "posix_file P V" and "new_DiskManager P opts os = Some (Inr dm, os')"
  shows "dm_options dm = opts \<and> Disk_ValidateOptions opts = Inr () \<and> 0 \<le> dm_fd dm \<and>
    (\<exists>c. open_on V os' (dm_fd dm) (path opts) c \<and> has_header opts c \<and>
      (if found V os opts = [] then \<forall>p < disk_max_page_count opts. file_page opts c p = zero_page
       else has_header opts (found V os opts) \<and> same_pages opts (found V os opts) c))"
  using new_DiskManager_effect [OF assms] by (simp add: initialised_def)

theorem constructor_makes_or_accepts_witness:
  "\<exists>os c. open_on toy_view os 3 ''db'' c \<and> has_header toy_opts c \<and> (\<forall>p < 3. file_page toy_opts c p = zero_page)"
proof -
  obtain os where n: "new_DiskManager toy_posix toy_opts toy_start = Some (Inr toy_dm, os)" using toy_create by blast
  have "found toy_view toy_start toy_opts = []" by (simp add: found_def toy_view_def toy_start_def)
  then show ?thesis
    using constructor_makes_or_accepts [OF toy_posix_file n] by (auto simp: toy_dm_def toy_opts_def)
qed

text \<open>C23: a file that is not empty and does not start with the header of the options is refused and
  left as it is, unless the caller asks for truncation.\<close>

theorem foreign_file_is_left_alone:
  assumes "posix_file P V" and "stored V os (path opts) = Some c" and "c \<noteq> []" and "\<not> has_header opts c"
    and "\<not> truncate_existing opts" and "new_DiskManager P opts os = Some (r, os')"
  shows "(\<exists>e. r = Inl e) \<and> stored V os' (path opts) = Some c"
  using assms(6)
proof (cases rule: new_DiskManager_cases)
  case (open_failed e)
  then show ?thesis using OpenFile_effect(2) [OF assms(1) open_failed(2) refl] assms(2) by simp
next
  case (opened fd os1 q)
  have f: "found V os opts = c" using assms(2,5) by (simp add: found_def)
  note o = OpenFile_effect(1) [OF assms(1) opened(2) refl, unfolded f]
  obtain c' where "open_on V os' fd (path opts) c'" "\<forall>u. q = Inr u \<longrightarrow> initialised opts c c'" "c' = c"
    using InitializeFile_effect [OF assms(1) conjunct2 [OF o] opened(1) _ opened(3)] assms(3-5) by blast
  then show ?thesis
    using assms(3,4) opened(4) by (cases q) (auto simp: initialised_def open_on_def)
qed (use assms(2) in simp)

definition toy_foreign :: toy_os where
  "toy_foreign = toy_start\<lparr>toy_files := [''db'' \<mapsto> [1, 2, 3]]\<rparr>"

lemma toy_foreign_facts:
  "\<not> has_header toy_opts [1, 2, 3]"
  "\<exists>fd os1. OpenFile toy_posix toy_opts toy_foreign = (Inr fd, os1)"
  "\<exists>r. new_DiskManager toy_posix toy_opts toy_foreign = Some r"
proof -
  show h: "\<not> has_header toy_opts [1, 2, 3]"
  proof
    assume "has_header toy_opts [1, 2, 3]"
    then have "header_bytes (MakeHeader toy_opts) ! 0 = bytes_at [1, 2, 3] 0 32 ! 0"
      by (simp add: has_header_def sizeof_DiskFileHeader_def)
    then show False by (simp add: header_bytes_def MakeHeader_def kMagic_def byte_at_def)
  qed
  show "\<exists>fd os1. OpenFile toy_posix toy_opts toy_foreign = (Inr fd, os1)"
    by (simp add: OpenFile_def toy_open_def)
  have "\<exists>r. ReadAtMost toy_posix fd kPageSize 0 (buf, os) = Some r" for fd buf os
    using ReadAtMost_loop_returns [OF toy_interrupts_end, of 0 kPageSize] by (simp add: ReadAtMost_def)
  then have "\<exists>r. ValidateExistingHeader toy_posix toy_opts fd os = Some r" for fd os
    by (fastforce simp: ValidateExistingHeader_def split: option.split sum.split)
  moreover have "\<exists>r. WriteFreshHeader toy_posix toy_opts fd os = Some r" for fd os
    using WriteFully_loop_returns [OF toy_interrupts_end, of "header_page (MakeHeader toy_opts)" kPageSize 0]
    by (simp add: WriteFreshHeader_def WriteFully_def length_header_page)
  ultimately have "\<exists>r. InitializeFile toy_posix toy_opts fd os = Some r" for fd os
    unfolding InitializeFile_def bindO_def liftO_def checkO_def
    by (auto split: option.splits sum.splits prod.splits) (metis option.distinct(1))+
  then show "\<exists>r. new_DiskManager toy_posix toy_opts toy_foreign = Some r"
    unfolding new_DiskManager_def bindO_def liftO_def checkO_def
    by (auto split: option.splits sum.splits prod.splits) (metis option.distinct(1))+
qed

theorem foreign_file_is_left_alone_witness:
  "\<exists>e os. new_DiskManager toy_posix toy_opts toy_foreign = Some (Inl e, os) \<and> toy_files os ''db'' = Some [1, 2, 3]"
proof -
  obtain r os where n: "new_DiskManager toy_posix toy_opts toy_foreign = Some (r, os)" using toy_foreign_facts(3) by fastforce
  have "(\<exists>e. r = Inl e) \<and> stored toy_view os (path toy_opts) = Some [1, 2, 3]"
    by (rule foreign_file_is_left_alone [OF toy_posix_file _ _ toy_foreign_facts(1) _ n])
      (simp_all add: toy_view_def toy_foreign_def toy_opts_def)
  then show ?thesis using n by (auto simp: toy_view_def toy_opts_def)
qed

text \<open>C40: when the constructor throws after it has opened the file, the descriptor stays open: the
  destructor that would close it does not run for an object whose constructor threw.\<close>

theorem failed_constructor_leaks_descriptor:
  assumes "posix_file P V" and "OpenFile P opts os = (Inr fd, os1)" and "new_DiskManager P opts os = Some (Inl e, os')"
    and "Disk_ValidateOptions opts = Inr ()"
  shows "opened V os' fd = Some (path opts)"
  using assms(3)
proof (cases rule: new_DiskManager_cases)
  case (opened fd' os2 q)
  then have eq: "fd' = fd" "os2 = os1" using assms(2) by simp_all
  have "truncate_existing opts \<longrightarrow> found V os opts = []" by (auto simp: found_def split: option.split)
  then obtain c' where "open_on V os' fd (path opts) c'"
    using InitializeFile_effect [OF assms(1) conjunct2 [OF OpenFile_effect(1) [OF assms(1,2) refl]] assms(4)] opened(3) eq
    by blast
  then show ?thesis by (simp add: open_on_def)
qed (use assms(2,4) in simp_all)

theorem failed_constructor_leaks_descriptor_witness:
  "\<exists>e os fd. new_DiskManager toy_posix toy_opts toy_foreign = Some (Inl e, os) \<and> toy_fds os fd = Some ''db''"
proof -
  obtain r os where n: "new_DiskManager toy_posix toy_opts toy_foreign = Some (r, os)" using toy_foreign_facts(3) by fastforce
  obtain fd os1 where o: "OpenFile toy_posix toy_opts toy_foreign = (Inr fd, os1)" using toy_foreign_facts(2) by blast
  have "found toy_view toy_foreign toy_opts = [1, 2, 3]"
    by (simp add: found_def toy_view_def toy_foreign_def toy_opts_def)
  then have "\<And>dm. r \<noteq> Inr dm"
    using new_DiskManager_effect [OF toy_posix_file] n toy_foreign_facts(1) by (fastforce simp: initialised_def)
  then obtain e where r: "r = Inl e" by (cases r) auto
  show ?thesis
    using failed_constructor_leaks_descriptor [OF toy_posix_file o n [unfolded r] toy_valid] n r
    by (auto simp: toy_view_def toy_opts_def)
qed

text \<open>Requests are checked before the file is touched: a null page, a page identifier out of
  range and a misaligned buffer are refused with their exceptions, in this order, and the options are
  refused exactly when the path is empty, there are no pages, the header is too small or not a
  multiple of the page size, or the file would not fit into 64 bits.\<close>

theorem requests_are_checked:
  "ReadPage P dm p 0 (page, os) = Some (Inl (invalid_argument ''page must not be null''), page, os) \<and>
   (disk_max_page_count (dm_options dm) \<le> p \<longrightarrow>
     WritePage P dm p address page os = Some (Inl (out_of_range ''page id is out of range''), os) \<and>
     (address \<noteq> 0 \<longrightarrow>
       ReadPage P dm p address (page, os) = Some (Inl (out_of_range ''page id is out of range''), page, os))) \<and>
   (p < disk_max_page_count (dm_options dm) \<and> address mod kPageSize \<noteq> 0 \<longrightarrow>
     WritePage P dm p address page os = Some (Inl (logic_error ''page buffer is not page-size aligned''), os) \<and>
     ReadPage P dm p address (page, os) = Some (Inl (logic_error ''page buffer is not page-size aligned''), page, os)) \<and>
   (Disk_ValidateOptions opts = Inr () \<longleftrightarrow>
     path opts \<noteq> [] \<and> disk_max_page_count opts \<noteq> 0 \<and> 32 \<le> unat (header_size opts) \<and> 4096 dvd unat (header_size opts) \<and>
     unat (header_size opts) + unat (disk_max_page_count opts) * 4096 < 2 ^ 64)"
proof (intro conjI impI)
  have m: "header_size opts mod kPageSize = 0 \<longleftrightarrow> 4096 dvd unat (header_size opts)"
    by (simp add: dvd_eq_mod_eq_0 kPageSize_eq flip: unat_eq_iff) (simp add: unat_mod)
  have e: "(\<exists>n. ExpectedFileSize opts = Inr n) \<longleftrightarrow>
      unat (header_size opts) + unat (disk_max_page_count opts) * 4096 < 2 ^ 64"
    by (simp add: ExpectedFileSize_def bindE_def CheckedMul_eq CheckedAdd_eq unat_mult_64)
  show "Disk_ValidateOptions opts = Inr () \<longleftrightarrow>
     path opts \<noteq> [] \<and> disk_max_page_count opts \<noteq> 0 \<and> 32 \<le> unat (header_size opts) \<and> 4096 dvd unat (header_size opts) \<and>
     unat (header_size opts) + unat (disk_max_page_count opts) * 4096 < 2 ^ 64"
    unfolding m [symmetric] e [symmetric]
    by (auto simp: Disk_ValidateOptions_def bindE_Inr_iff sizeof_DiskFileHeader_def word_less_nat_alt)
qed (auto simp: ReadPage_def WritePage_def bindO_def checkO_def Disk_ValidatePageId_def ValidatePageAlignment_def not_le)

theorem requests_are_checked_witness:
  "WritePage toy_posix toy_dm 3 4096 zero_page toy_start = Some (Inl (out_of_range ''page id is out of range''), toy_start)"
  using requests_are_checked [of toy_posix toy_dm 3 zero_page toy_start 4096] by (simp add: toy_dm_def toy_opts_def)

end
