(* ===== verification/Storage_System.thy ===== *)
theory Storage_System
  imports Buffer_Correctness Disk_Properties
begin

text \<open>
  The buffer manager on its disk manager: the page reads and writes of the threads are the calls of
  \<^verbatim>\<open>ReadPage\<close> and \<^verbatim>\<open>WritePage\<close> that the code makes at these program points, on the
  file the constructor has opened. Every state this gets into is a state of the system with the
  abstract disk, the disk being the pages of the file.
\<close>

subsection \<open>Transfers\<close>

text \<open>
  The call at a program point; \<open>address\<close> is where the frame is. A victim that is not dirty is not
  written.
\<close>

fun run_io :: "'os Posix \<Rightarrow> DiskManager \<Rightarrow> 64 word \<Rightarrow> pc \<Rightarrow> ('r BufferManager \<times> 'os, unit) pact" where
  "run_io P dm address (Evict_write who f p d e) (bm, os) =
     (if d then (case WritePage P dm p address (content_of bm f) os of
        None \<Rightarrow> None | Some (r, os') \<Rightarrow> Some (r, bm, os'))
      else Some (Inr (), bm, os))"
| "run_io P dm address (Load_read p f) (bm, os) =
     (case ReadPage P dm p address (content_of bm f, os) of
        None \<Rightarrow> None | Some (r, pg, os') \<Rightarrow> Some (r, put_content f pg bm, os'))"
| "run_io P dm address (Flush_write p f e rest) (bm, os) =
     (case WritePage P dm p address (content_of bm f) os of
        None \<Rightarrow> None | Some (r, os') \<Rightarrow> Some (r, bm, os'))"
| "run_io P dm address _ _ = None"

text \<open>\<^verbatim>\<open>BufferManager::Sync\<close> touches nothing but the disk manager.\<close>

definition BufferManager_Sync :: "'os Posix \<Rightarrow> DiskManager \<Rightarrow> ('os, unit) act" where
  "BufferManager_Sync P dm = Disk_Sync P dm"

text \<open>Where the thread goes on: behind the call, or in the handler of its exception.\<close>

fun after_io :: "pc \<Rightarrow> exn + unit \<Rightarrow> pc" where
  "after_io (Evict_write who f p d e) (Inr _) = Evict_done who f p"
| "after_io (Evict_write who f p d e) (Inl x) = Evict_failed who f p d e x"
| "after_io (Load_read p f) (Inr _) = Load_done p f"
| "after_io (Load_read p f) (Inl x) = Load_failed p f x"
| "after_io (Flush_write p f e rest) (Inr _) = Flush_done p f e rest"
| "after_io (Flush_write p f e rest) (Inl x) = Flush_failed p f x"
| "after_io pc _ = pc"

fun transfer_label :: "label \<Rightarrow> bool" where
  "transfer_label (Io_ok i) \<longleftrightarrow> True"
| "transfer_label (Io_fail i x k c) \<longleftrightarrow> True"
| "transfer_label _ \<longleftrightarrow> False"

text \<open>The field \<open>disk\<close> of the system is not used: the pages are in the file.\<close>

inductive file_step ::
  "'os Posix \<Rightarrow> DiskManager \<Rightarrow> ClockReplacer system \<times> 'os \<Rightarrow> ClockReplacer system \<times> 'os \<Rightarrow> bool" for P dm where
  internal: "step clock_replacer l S = Some S' \<Longrightarrow> client_ok S l \<Longrightarrow> \<not> transfer_label l \<Longrightarrow>
    file_step P dm (S, os) (S', os)"
| transfer: "run_io P dm address (threads S ! i) (sys_bm S, os) = Some (r, bm, os') \<Longrightarrow> i < length (threads S) \<Longrightarrow>
    file_step P dm (S, os) (set_pc i (after_io (threads S ! i) r) (S\<lparr>sys_bm := bm\<rparr>), os')"

inductive file_reachable ::
  "'os Posix \<Rightarrow> DiskManager \<Rightarrow> ClockReplacer system \<times> 'os \<Rightarrow> ClockReplacer system \<times> 'os \<Rightarrow> bool" for P dm X where
  start: "file_reachable P dm X X"
| step: "file_reachable P dm X Y \<Longrightarrow> file_step P dm Y Z \<Longrightarrow> file_reachable P dm X Z"

text \<open>The system whose abstract disk is the pages of a file with content \<open>c\<close>.\<close>

definition with_file :: "DiskManagerOptions \<Rightarrow> byte list \<Rightarrow> 'r system \<Rightarrow> 'r system" where
  "with_file opts c S = S\<lparr>disk := file_page opts c\<rparr>"

lemma with_file_sel [simp]:
  "sys_bm (with_file opts c S) = sys_bm S" "threads (with_file opts c S) = threads S"
  "guards (with_file opts c S) = guards S" "unmarked (with_file opts c S) = unmarked S"
  "disk (with_file opts c S) = file_page opts c"
  by (simp_all add: with_file_def)

lemma with_file_client_ok [simp]: "client_ok (with_file opts c S) l = client_ok S l"
  by (cases l) (simp_all add: with_file_def other_tokens_def cong: pc.case_cong)

text \<open>No step but a transfer looks at the abstract disk.\<close>

lemma step_disk:
  assumes "\<not> transfer_label l" and "step R l S = Some S'"
  shows "step R l (S\<lparr>disk := d\<rparr>) = Some (S'\<lparr>disk := d\<rparr>)"
  using assms
  by (cases l) (auto simp: set_pc_def run_section_def fill_frame_def Let_def split: if_splits option.splits prod.splits)

lemma with_file_step:
  "\<not> transfer_label l \<Longrightarrow> step R l S = Some S' \<Longrightarrow> step R l (with_file opts c S) = Some (with_file opts c S')"
  unfolding with_file_def by (rule step_disk)

context replacer_contract begin

lemma transfer_frame_ok:
  assumes inv: "sinv S" and i: "i < length (threads S)"
    and pc: "threads S ! i = Evict_write who f p d e \<or> threads S ! i = Load_read p f \<or> threads S ! i = Flush_write p f e rest"
  shows "page_ok (content_of (sys_bm S) f)"
proof -
  have mem: "threads S ! i \<in> set (threads S)" using i by simp
  note gd = sinvD(1) [OF inv] and tok = goodD(2) [OF sinvD(1) [OF inv]] and held = thread_held [OF mem]
  have "fm_state (meta_of (sys_bm S) f) \<noteq> kFree"
    using duty_frame [OF tok held, of p f] pin_resident [OF tok held, of p f] pc by auto
  then show ?thesis by (rule content_ok [OF gd])
qed

end


subsection \<open>The file implements the abstract disk\<close>

lemma clock_frame_ok:
  assumes "clock_reachable opts n D S" and "i < length (threads S)"
    and "threads S ! i = Evict_write who f p d e \<or> threads S ! i = Load_read p f \<or> threads S ! i = Flush_write p f e rest"
  shows "page_ok (content_of (sys_bm S) f)"
  using clock.transfer_frame_ok [OF _ assms(2,3)] clock_reachable_inv [OF assms(1)]
  unfolding clock_system_inv_def by blast

text \<open>The state after a page of the disk was written, also in part.\<close>

lemma written_state:
  assumes "\<forall>q. file_page opts c' q = (if q = p then w else file_page opts c q)"
  shows "with_file opts c' S = (with_file opts c S)\<lparr>disk := (disk (with_file opts c S))(p := w)\<rparr>"
proof -
  have "file_page opts c' = (file_page opts c)(p := w)" using assms by (auto simp: fun_eq_iff)
  then show ?thesis by (simp add: with_file_def)
qed

lemma write_io:
  assumes P: "posix_file P V" and op: "open_on V os (dm_fd dm) f c" and valid: "Disk_ValidateOptions (dm_options dm) = Inr ()"
    and ok: "page_ok (content_of (sys_bm S) g)" and run: "WritePage P dm p address (content_of (sys_bm S) g) os = Some (r, os')"
  shows "\<exists>c' k. open_on V os' (dm_fd dm) f c' \<and>
    with_file (dm_options dm) c' S = write_torn k p g (with_file (dm_options dm) c S) \<and>
    (\<forall>u. r = Inr u \<longrightarrow> with_file (dm_options dm) c' S = write_page p g (with_file (dm_options dm) c S)) \<and>
    has_header (dm_options dm) c' = has_header (dm_options dm) c"
proof -
  obtain c' k where c': "open_on V os' (dm_fd dm) f c'"
      "\<forall>q. file_page (dm_options dm) c' q =
         (if q = p then torn_page k (content_of (sys_bm S) g) (file_page (dm_options dm) c p) else file_page (dm_options dm) c q)"
      "\<forall>u. r = Inr u \<longrightarrow> file_page (dm_options dm) c' p = content_of (sys_bm S) g"
      "\<forall>n \<le> unat (header_size (dm_options dm)). bytes_at c' 0 n = bytes_at c 0 n"
    using WritePage_effect [OF P op valid ok run] by blast
  have "has_header (dm_options dm) c' = has_header (dm_options dm) c"
    using c'(4) valid_optionsD(3) [OF valid] by (simp add: has_header_def sizeof_DiskFileHeader_def)
  have "with_file (dm_options dm) c' S = write_page p g (with_file (dm_options dm) c S)" if "r = Inr u" for u
    using written_state [of "dm_options dm" c' p "content_of (sys_bm S) g" c S] c'(2,3) that
    by (auto simp: write_page_def)
  then show ?thesis
    using written_state [OF c'(2), of S] c'(1) \<open>has_header _ c' = _\<close> by (auto simp: write_torn_def)
qed

lemma set_pc_with_file [simp]: "set_pc i pc (with_file opts c S) = with_file opts c (set_pc i pc S)"
  by (simp add: set_pc_def with_file_def)

lemma transfer_simulates:
  assumes P: "posix_file P V" and op: "open_on V os (dm_fd dm) f c" and valid: "Disk_ValidateOptions (dm_options dm) = Inr ()"
    and reach: "clock_reachable opts n D (with_file (dm_options dm) c S)" and i: "i < length (threads S)"
    and run: "run_io P dm address (threads S ! i) (sys_bm S, os) = Some (r, bm, os')"
  shows "\<exists>c' l. open_on V os' (dm_fd dm) f c' \<and> has_header (dm_options dm) c' = has_header (dm_options dm) c \<and> client_ok (with_file (dm_options dm) c S) l \<and>
    step clock_replacer l (with_file (dm_options dm) c S) =
      Some (with_file (dm_options dm) c' (set_pc i (after_io (threads S ! i) r) (S\<lparr>sys_bm := bm\<rparr>)))"
proof -
  let ?W = "\<lambda>c. with_file (dm_options dm) c S"
  note frame = clock_frame_ok [OF reach, of i, simplified]
  consider (clean) who g p e where "threads S ! i = Evict_write who g p False e" | (evict) who g p e where "threads S ! i = Evict_write who g p True e"
    | (load) p g where "threads S ! i = Load_read p g" | (flush) p g e rest where "threads S ! i = Flush_write p g e rest"
    using run by (cases "threads S ! i") auto
  then show ?thesis
  proof cases
    case clean
    then have "r = Inr ()" "bm = sys_bm S" "os' = os" using run by auto
    then show ?thesis using op clean i by (intro exI [where x = c] exI [where x = "Io_ok i"]) simp
  next
    case (evict who g p e)
    then have w: "WritePage P dm p address (content_of (sys_bm S) g) os = Some (r, os')" "bm = sys_bm S"
      using run by (auto split: option.splits)
    obtain c' k where c': "open_on V os' (dm_fd dm) f c'" "?W c' = write_torn k p g (?W c)"
        "\<forall>u. r = Inr u \<longrightarrow> ?W c' = write_page p g (?W c)" "has_header (dm_options dm) c' = has_header (dm_options dm) c"
      using write_io [OF P op valid frame [OF i] w(1)] evict by blast
    show ?thesis
    proof (cases r)
      case (Inl x)
      then show ?thesis
        using evict c'(1,2,4) i w(2) by (intro exI [where x = c'] exI [where x = "Io_fail i x k zero_page"]) (simp flip: c'(2))
    next
      case (Inr u)
      then show ?thesis
        using evict c'(1,3,4) i w(2) by (intro exI [where x = c'] exI [where x = "Io_ok i"]) (simp flip: c'(3) [rule_format, OF Inr])
    qed
  next
    case (flush p g e rest)
    then have w: "WritePage P dm p address (content_of (sys_bm S) g) os = Some (r, os')" "bm = sys_bm S"
      using run by (auto split: option.splits)
    obtain c' k where c': "open_on V os' (dm_fd dm) f c'" "?W c' = write_torn k p g (?W c)"
        "\<forall>u. r = Inr u \<longrightarrow> ?W c' = write_page p g (?W c)" "has_header (dm_options dm) c' = has_header (dm_options dm) c"
      using write_io [OF P op valid frame [OF i] w(1)] flush by blast
    show ?thesis
    proof (cases r)
      case (Inl x)
      then show ?thesis
        using flush c'(1,2,4) i w(2) by (intro exI [where x = c'] exI [where x = "Io_fail i x k zero_page"]) (simp flip: c'(2))
    next
      case (Inr u)
      then show ?thesis
        using flush c'(1,3,4) i w(2) by (intro exI [where x = c'] exI [where x = "Io_ok i"]) (simp flip: c'(3) [rule_format, OF Inr])
    qed
  next
    case (load p g)
    then obtain pg where rd: "ReadPage P dm p address (content_of (sys_bm S) g, os) = Some (r, pg, os')" "bm = put_content g pg (sys_bm S)"
      using run by (auto split: option.splits)
    note R = ReadPage_effect [OF P op valid frame [OF i] rd(1)]
    show ?thesis
    proof (cases r)
      case (Inl x)
      then show ?thesis
        using load R i rd(2)
        by (intro exI [where x = c] exI [where x = "Io_fail i x 0 pg"]) (simp add: fill_frame_def with_file_def set_pc_def)
    next
      case (Inr u)
      then show ?thesis
        using load R i rd(2)
        by (intro exI [where x = c] exI [where x = "Io_ok i"]) (simp add: fill_frame_def with_file_def set_pc_def)
    qed
  qed
qed

lemma file_step_simulates:
  assumes P: "posix_file P V" and valid: "Disk_ValidateOptions (dm_options dm) = Inr ()"
    and st: "file_step P dm (S, os) (S', os')" and op: "open_on V os (dm_fd dm) f c"
    and reach: "clock_reachable opts n D (with_file (dm_options dm) c S)"
  shows "\<exists>c'. open_on V os' (dm_fd dm) f c' \<and> has_header (dm_options dm) c' = has_header (dm_options dm) c \<and>
    clock_reachable opts n D (with_file (dm_options dm) c' S')"
  using st
proof (cases rule: file_step.cases)
  case (internal l)
  then have "clock_reachable opts n D (with_file (dm_options dm) c S')"
    using clock_reachable_step [OF reach _ with_file_step [OF internal(4,2)]] by simp
  then show ?thesis using op internal by blast
next
  case (transfer address i r bm)
  then show ?thesis
    using transfer_simulates [OF P op valid reach transfer(3,2)] transfer(1) clock_reachable_step [OF reach] by blast
qed

text \<open>From a freshly constructed buffer manager on an open file.\<close>

lemma file_system_simulates:
  assumes P: "posix_file P V" and valid: "Disk_ValidateOptions (dm_options dm) = Inr ()"
    and start: "clock_start opts n D0 = Inr S0" and op: "open_on V os0 (dm_fd dm) f c0"
    and reach: "file_reachable P dm (S0, os0) Y"
  shows "\<exists>c. open_on V (snd Y) (dm_fd dm) f c \<and> has_header (dm_options dm) c = has_header (dm_options dm) c0 \<and>
    clock_reachable opts n (file_page (dm_options dm) c0) (with_file (dm_options dm) c (fst Y))"
  using reach
proof induction
  case start
  have "clock_start opts n (file_page (dm_options dm) c0) = Inr (with_file (dm_options dm) c0 S0)"
    using assms(3) by (auto simp: clock_start_def bindE_Inr_iff initial_system_def with_file_def)
  then have "clock_reachable opts n (file_page (dm_options dm) c0) (with_file (dm_options dm) c0 S0)"
    using reachable.start by (auto simp: clock_reachable_def)
  then show ?case using op by auto
next
  case (step Y Z)
  then obtain c where c: "open_on V (snd Y) (dm_fd dm) f c" "has_header (dm_options dm) c = has_header (dm_options dm) c0"
      "clock_reachable opts n (file_page (dm_options dm) c0) (with_file (dm_options dm) c (fst Y))"
    by blast
  have "file_step P dm (fst Y, snd Y) (fst Z, snd Z)" using step(2) by simp
  from file_step_simulates [OF P valid this c(1,3)] c(2) show ?case by auto
qed

end
