(* ===== verification/Example_Run.thy ===== *)
theory Example_Run
  imports Buffer_Correctness
begin

text \<open>
  A short run of a buffer manager with one frame, three page identifiers and two threads. Its
  states show that the hypotheses of the theorems on reachable states can be met.
\<close>

fun run_labels :: "'r Replacer \<Rightarrow> label list \<Rightarrow> 'r system \<Rightarrow> 'r system option" where
  "run_labels R [] S = Some S"
| "run_labels R (l # ls) S =
     (if client_ok S l then (case step R l S of None \<Rightarrow> None | Some S' \<Rightarrow> run_labels R ls S') else None)"

lemma run_labels_reachable:
  "clock_reachable opts n D S \<Longrightarrow> run_labels clock_replacer ls S = Some S' \<Longrightarrow> clock_reachable opts n D S'"
proof (induction ls arbitrary: S)
  case (Cons l ls)
  then show ?case using clock_reachable_step by (fastforce split: if_splits option.splits)
qed simp

definition ex_opts :: BufferManagerOptions where
  "ex_opts = \<lparr>disk_options = \<lparr>path = ''db'', disk_max_page_count = 3, header_size = 4096, truncate_existing = False,
     preallocate = False, io_mode = kBuffered\<rparr>, frame_count = 1, async_worker_count = 1\<rparr>"

definition ex_disk :: "PageId \<Rightarrow> Page" where
  "ex_disk p = zero_page"

definition ex_guard :: PageGuard where
  "ex_guard = \<lparr>guard_page_id = 0, guard_frame_id = 0\<rparr>"

definition after_labels :: "label list \<Rightarrow> ClockReplacer system option \<Rightarrow> ClockReplacer system option" where
  "after_labels ls S = (case S of None \<Rightarrow> None | Some S \<Rightarrow> run_labels clock_replacer ls S)"

definition holds_after :: "ClockReplacer system option \<Rightarrow> (ClockReplacer system \<Rightarrow> bool) \<Rightarrow> bool" where
  "holds_after S P = (case S of None \<Rightarrow> False | Some S \<Rightarrow> P S)"

definition ex_start :: "ClockReplacer system option" where
  "ex_start = (case clock_start ex_opts 2 ex_disk of Inl e \<Rightarrow> None | Inr S \<Rightarrow> Some S)"

text \<open>A thread has got a new page; it has dropped its guard.\<close>

definition ex_pinned :: "ClockReplacer system option" where
  "ex_pinned = after_labels [Start 0 NewPage_enter, Run 0] ex_start"

definition ex_quiet :: "ClockReplacer system option" where
  "ex_quiet = after_labels [Start_drop 0 ex_guard, Run 0] ex_pinned"

text \<open>The next new page evicts it, and a second thread has to wait.\<close>

definition ex_blocked :: "ClockReplacer system option" where
  "ex_blocked = after_labels [Start 0 NewPage_enter, Run 0, Start 1 NewPage_enter, Run 1] ex_quiet"

text \<open>A flush of the pinned page is about to write it, and has written it.\<close>

definition ex_flushing :: "ClockReplacer system option" where
  "ex_flushing = after_labels [Start 0 (FlushPage_enter 0 []), Run 0] ex_pinned"

definition ex_flushed :: "ClockReplacer system option" where
  "ex_flushed = after_labels [Io_ok 0] ex_flushing"

definition ex_clean :: "ClockReplacer system option" where
  "ex_clean = after_labels [Run 0] ex_flushed"

text \<open>The next new page evicts the page, and nothing else goes on.\<close>

definition ex_evicting :: "ClockReplacer system option" where
  "ex_evicting = after_labels [Start 0 NewPage_enter, Run 0] ex_quiet"

lemma ex_start_facts:
  "holds_after ex_start (\<lambda>S. threads S = [Idle, Idle] \<and> state_changed (sys_bm S) = {} \<and> other_tokens 0 S = {#} \<and>
     fst (FetchPage clock_replacer 0 (sys_bm S)) = Inl (logic_error ''cannot fetch an unused page''))"
  by code_simp

lemma ex_pinned_facts:
  "holds_after ex_pinned (\<lambda>S. threads S = [Idle, Idle] \<and> guards S = {#ex_guard#} \<and> unmarked S = {})"
  by code_simp

lemma ex_all_pinned_facts:
  "holds_after ex_pinned (\<lambda>S. fst (AcquireFrameLocked clock_replacer (sys_bm S)) =
     Inl (runtime_error ''no frame available'') \<and> fa_frame_count (frame_allocator (sys_bm S)) = 1)"
  by code_simp

lemma ex_quiet_facts:
  "holds_after ex_quiet (\<lambda>S. threads S = [Idle, Idle] \<and> guards S = {#})"
  by code_simp

lemma ex_blocked_facts:
  "holds_after ex_blocked (\<lambda>S. threads S = [Evict_write (ForNewPage 1) 0 0 True 1, NewPage_retry 2] \<and>
     1 \<in> state_changed (sys_bm S))"
  by code_simp

lemma ex_evicting_facts:
  "holds_after ex_evicting (\<lambda>S. threads S = [Evict_write (ForNewPage 1) 0 0 True 1, Idle])"
  by code_simp

lemma ex_flushing_facts:
  "holds_after ex_flushing (\<lambda>S. threads S = [Flush_write 0 0 1 [], Idle])"
  by code_simp

lemma ex_flushed_facts:
  "holds_after ex_flushed (\<lambda>S. threads S = [Flush_done 0 0 1 [], Idle] \<and> unmarked S = {} \<and>
     state_changed (sys_bm S) = {} \<and> dirty_epoch (meta_of (sys_bm S) 0) = 1)"
  by code_simp

lemma ex_clean_facts:
  "holds_after ex_clean (\<lambda>S. guards S = {#ex_guard#} \<and> unmarked S = {} \<and> \<not> dirty (meta_of (sys_bm S) 0))"
  by code_simp

subsection \<open>The states are reachable\<close>

definition ex_reaches :: "ClockReplacer system option \<Rightarrow> bool" where
  "ex_reaches X \<longleftrightarrow> (\<forall>S. X = Some S \<longrightarrow> clock_reachable ex_opts 2 ex_disk S)"

lemma ex_reaches_after: "ex_reaches X \<Longrightarrow> ex_reaches (after_labels ls X)"
  using run_labels_reachable by (auto simp: ex_reaches_def after_labels_def split: option.splits)

lemma ex_reaches_start: "ex_reaches ex_start"
  using reachable.start
  by (auto simp: ex_reaches_def ex_start_def clock_reachable_def ex_disk_def split: sum.splits)

lemma ex_reaches_states: "ex_reaches ex_pinned" "ex_reaches ex_quiet" "ex_reaches ex_blocked" "ex_reaches ex_flushed"
  "ex_reaches ex_clean" "ex_reaches ex_evicting"
  by (simp_all add: ex_evicting_def ex_clean_def ex_pinned_def ex_quiet_def ex_blocked_def ex_flushed_def ex_flushing_def ex_reaches_start ex_reaches_after)

lemma ex_state: "ex_reaches X \<Longrightarrow> holds_after X P \<Longrightarrow> \<exists>S. clock_reachable ex_opts 2 ex_disk S \<and> P S"
  by (auto simp: ex_reaches_def holds_after_def split: option.splits)

lemmas ex_pinned_state = ex_state [OF ex_reaches_states(1) ex_pinned_facts]
lemmas ex_all_pinned_state = ex_state [OF ex_reaches_states(1) ex_all_pinned_facts]
lemmas ex_quiet_state = ex_state [OF ex_reaches_states(2) ex_quiet_facts]
lemmas ex_blocked_state = ex_state [OF ex_reaches_states(3) ex_blocked_facts]
lemmas ex_flushed_state = ex_state [OF ex_reaches_states(4) ex_flushed_facts]
lemmas ex_evicting_state = ex_state [OF ex_reaches_states(6) ex_evicting_facts]
lemmas ex_clean_state = ex_state [OF ex_reaches_states(5) ex_clean_facts]

end
