(* ===== verification/Example_Storage.thy ===== *)
theory Example_Storage
  imports Storage_System Example_Run
begin

text \<open>
  The example run on the example file system: a new page is flushed, and its bytes are in the file.
\<close>

lemma run_labels_file:
  assumes "file_reachable P dm X (S, os)" and "run_labels clock_replacer ls S = Some S'"
    and "\<forall>l \<in> set ls. \<not> transfer_label l"
  shows "file_reachable P dm X (S', os)"
  using assms
proof (induction ls arbitrary: S)
  case (Cons l ls)
  then obtain T where T: "client_ok S l" "step clock_replacer l S = Some T" "run_labels clock_replacer ls T = Some S'"
    by (auto split: if_splits option.splits)
  have "file_step P dm (S, os) (T, os)" using file_step.internal [OF T(2,1)] Cons.prems(3) by simp
  then have "file_reachable P dm X (T, os)" by (rule file_reachable.step [OF Cons.prems(1)])
  then show ?case using Cons.IH [OF _ T(3)] Cons.prems(3) by simp
qed simp

lemma toy_opts_ex: "disk_options ex_opts = toy_opts"
  by (simp add: ex_opts_def toy_opts_def)

lemma ex_start_state: "\<exists>S0. ex_start = Some S0 \<and> clock_start ex_opts 2 ex_disk = Inr S0"
proof -
  have "ex_start \<noteq> None" using ex_start_facts by (auto simp: holds_after_def split: option.splits)
  then show ?thesis by (auto simp: ex_start_def split: sum.splits)
qed

text \<open>The state behind the flush, with the file it has written to.\<close>

lemma ex_stored_state:
  "\<exists>S0 os0 S os. new_DiskManager toy_posix (disk_options ex_opts) toy_start = Some (Inr toy_dm, os0) \<and>
     clock_start ex_opts 2 ex_disk = Inr S0 \<and> file_reachable toy_posix toy_dm (S0, os0) (S, os) \<and>
     entry_of (sys_bm S) 0 = resident 0 \<and> \<not> dirty (meta_of (sys_bm S) 0) \<and> unmarked S = {} \<and> guards S = {#ex_guard#} \<and>
     (\<exists>c. toy_ready 3 c os \<and> toy_next os = 4 \<and> length c = 8192)"
proof -
  obtain S0 where S0: "ex_start = Some S0" "clock_start ex_opts 2 ex_disk = Inr S0" using ex_start_state by blast
  obtain os0 c where os0: "new_DiskManager toy_posix toy_opts toy_start = Some (Inr toy_dm, os0)" "toy_ready 3 c os0"
      "toy_next os0 = 4" "length c = 4096"
    using toy_create by blast
  obtain S where S: "ex_flushing = Some S" "threads S = [Flush_write 0 0 1 [], Idle]"
    using ex_flushing_facts by (auto simp: holds_after_def split: option.splits)
  have r: "clock_reachable ex_opts 2 ex_disk S" using ex_reaches_states(1) S(1) ex_reaches_after unfolding ex_flushing_def
    by (auto simp: ex_reaches_def)
  have "ex_pinned \<noteq> None" using S(1) by (auto simp: ex_flushing_def after_labels_def split: option.splits)
  then obtain S1 where S1: "ex_pinned = Some S1" by blast
  have f1: "file_reachable toy_posix toy_dm (S0, os0) (S1, os0)"
    by (rule run_labels_file [OF file_reachable.start, where ls = "[Start 0 NewPage_enter, Run 0]"])
      (use S1 [unfolded ex_pinned_def after_labels_def S0(1) option.case] in simp_all)
  have f2: "file_reachable toy_posix toy_dm (S0, os0) (S, os0)"
    by (rule run_labels_file [OF f1, where ls = "[Start 0 (FlushPage_enter 0 []), Run 0]"])
      (use S(1) [unfolded ex_flushing_def after_labels_def S1 option.case] in simp_all)
  have "page_ok (content_of (sys_bm S) 0)"
    using clock_frame_ok [OF r, of 0] S(2) by auto
  note ok = this
  let ?c1 = "write_at c 4096 (data (content_of (sys_bm S) 0))"
  obtain os1 where os1: "WritePage toy_posix toy_dm 0 4096 (content_of (sys_bm S) 0) os0 = Some (Inr (), os1)"
      "toy_ready 3 ?c1 os1" "toy_next os1 = 4"
    using toy_write_page [OF os0(2) ok, of 0] os0(3) by (auto simp: toy_fd_dm_def toy_dm_def)
  have len: "length ?c1 = 8192" using ok os0(4) by (auto simp: length_write_at page_ok_def)
  let ?T = "set_pc 0 (Flush_done 0 0 1 []) S"
  have "file_step toy_posix toy_dm (S, os0) (?T, os1)"
    using file_step.transfer [of toy_posix toy_dm 4096 S 0 os0 "Inr ()" "sys_bm S" os1] S(2) os1(1) by simp
  then have f3: "file_reachable toy_posix toy_dm (S0, os0) (?T, os1)" by (rule file_reachable.step [OF f2])
  obtain U where U: "ex_clean = Some U" "guards U = {#ex_guard#}" "unmarked U = {}" "\<not> dirty (meta_of (sys_bm U) 0)"
    using ex_clean_facts by (auto simp: holds_after_def split: option.splits)
  have rU: "clock_reachable ex_opts 2 ex_disk U" using ex_reaches_states U(1) by (auto simp: ex_reaches_def)
  have e: "entry_of (sys_bm U) 0 = resident 0"
    using clock.guard_valid(1) [of U ex_guard] clock_reachable_inv [OF rU] U(2)
    by (simp add: clock_system_inv_def ex_guard_def)
  have T: "ex_flushed = Some (write_page 0 0 ?T)"
    unfolding ex_flushed_def after_labels_def S(1) option.case using S(2) by (simp add: set_pc_def write_page_def)
  have "client_ok (write_page 0 0 ?T) (Run 0)" "step clock_replacer (Run 0) (write_page 0 0 ?T) = Some U"
    using U(1) [unfolded ex_clean_def after_labels_def T option.case]
    by (auto simp del: client_ok.simps step.simps split: if_splits option.splits)
  moreover have "(write_page 0 0 ?T)\<lparr>disk := disk ?T\<rparr> = ?T" by (simp add: write_page_def)
  ultimately have "step clock_replacer (Run 0) ?T = Some (U\<lparr>disk := disk ?T\<rparr>)"
    using step_disk [of "Run 0" clock_replacer "write_page 0 0 ?T" U "disk ?T"] by (simp del: step.simps)
  moreover have "client_ok ?T (Run 0)" using S(2) by (simp add: set_pc_def)
  ultimately have "file_step toy_posix toy_dm (?T, os1) (U\<lparr>disk := disk ?T\<rparr>, os1)"
    by (rule file_step.internal) simp
  then have "file_reachable toy_posix toy_dm (S0, os0) (U\<lparr>disk := disk ?T\<rparr>, os1)" by (rule file_reachable.step [OF f3])
  then show ?thesis
    using os0(1) S0(2) e U(2-4) toy_opts_ex os1(2,3) len
    by (intro exI [where x = S0] exI [where x = os0] exI [where x = "U\<lparr>disk := disk ?T\<rparr>"] exI [where x = os1]) auto
qed

end
