(* ===== verification/Page_Guard.thy ===== *)
theory Page_Guard
  imports Example_Run
begin

text \<open>
  The class \<^verbatim>\<open>PageGuard\<close> (\<^verbatim>\<open>src/buffer_manager.cc\<close>): the variables of a client that
  hold guards. A guard owns one pin of its page, moves from variable to variable, and gives the pin
  back when it is dropped or destroyed.
\<close>

subsection \<open>Guard objects\<close>

text \<open>
  \<open>buffer_manager_ptr\<close> is whether the pointer \<^verbatim>\<open>buffer_manager_\<close> is set; the pointer
  \<^verbatim>\<open>page_\<close> is the frame it points into, \<open>None\<close> for the null pointer.
\<close>

record GuardObject =
  buffer_manager_ptr :: bool
  page_id_field :: PageId
  frame_id_field :: FrameId
  page_ptr :: "FrameId option"

definition empty_guard :: GuardObject where
  "empty_guard = \<lparr>buffer_manager_ptr = False, page_id_field = 0, frame_id_field = 0, page_ptr = None\<rparr>"

text \<open>The constructor that \<^verbatim>\<open>MakeGuardLocked\<close> calls.\<close>

definition new_PageGuard :: "PageGuard \<Rightarrow> GuardObject" where
  "new_PageGuard g = \<lparr>buffer_manager_ptr = True, page_id_field = guard_page_id g, frame_id_field = guard_frame_id g,
     page_ptr = Some (guard_frame_id g)\<rparr>"

definition PageGuard_valid :: "GuardObject \<Rightarrow> bool" where
  "PageGuard_valid obj = buffer_manager_ptr obj"

definition PageGuard_page_id :: "GuardObject \<Rightarrow> exn + PageId" where
  "PageGuard_page_id obj = (if \<not> PageGuard_valid obj then Inl (logic_error ''page guard is empty'') else Inr (page_id_field obj))"

text \<open>The reference \<^verbatim>\<open>page()\<close> returns, as the frame it refers to.\<close>

definition PageGuard_page :: "GuardObject \<Rightarrow> exn + FrameId" where
  "PageGuard_page obj = (if \<not> PageGuard_valid obj then Inl (logic_error ''page guard is empty'') else Inr (the (page_ptr obj)))"

subsection \<open>Operations on the variables of a client\<close>

record 'r client =
  var :: "nat \<Rightarrow> GuardObject"
  manager :: "'r BufferManager"

definition put_var :: "nat \<Rightarrow> GuardObject \<Rightarrow> 'r client \<Rightarrow> 'r client" where
  "put_var x obj c = c\<lparr>var := (var c)(x := obj)\<rparr>"

definition on_manager :: "('r BufferManager, ending) act \<Rightarrow> ('r client, unit) act" where
  "on_manager m = bindA (zoomA manager (\<lambda>s c. c\<lparr>manager := s\<rparr>) m) (\<lambda>_. returnA ())"

definition PageGuard_MarkDirty :: "nat \<Rightarrow> ('r client, unit) act" where
  "PageGuard_MarkDirty x =
     bindA (getA (\<lambda>c. var c x)) (\<lambda>obj.
     if \<not> PageGuard_valid obj then throwA (logic_error ''page guard is empty'')
     else on_manager (MarkDirty (page_id_field obj) (frame_id_field obj)))"

text \<open>The fields are cleared before the call that may throw.\<close>

definition PageGuard_Drop :: "'r Replacer \<Rightarrow> nat \<Rightarrow> ('r client, unit) act" where
  "PageGuard_Drop R x =
     bindA (getA (\<lambda>c. var c x)) (\<lambda>obj.
     if \<not> PageGuard_valid obj then returnA ()
     else
       thenA (modifyA (put_var x empty_guard))
       (on_manager (DropPageGuard R (page_id_field obj) (frame_id_field obj))))"

text \<open>
  The destructor and the move assignment call \<^verbatim>\<open>std::terminate\<close> when the drop throws: the
  result is \<open>None\<close>.
\<close>

definition drop_or_terminate :: "'r Replacer \<Rightarrow> nat \<Rightarrow> 'r client \<Rightarrow> 'r client option" where
  "drop_or_terminate R x c = (case PageGuard_Drop R x c of (Inl e, c') \<Rightarrow> None | (Inr _, c') \<Rightarrow> Some c')"

definition delete_PageGuard :: "'r Replacer \<Rightarrow> nat \<Rightarrow> 'r client \<Rightarrow> 'r client option" where
  "delete_PageGuard R x c = (if \<not> PageGuard_valid (var c x) then Some c else drop_or_terminate R x c)"

text \<open>\<^verbatim>\<open>std::exchange\<close> of every field: the new guard is made, the other one is empty.\<close>

definition PageGuard_move :: "nat \<Rightarrow> nat \<Rightarrow> 'r client \<Rightarrow> 'r client" where
  "PageGuard_move x other c = put_var other empty_guard (put_var x (var c other) c)"

definition PageGuard_move_assign :: "'r Replacer \<Rightarrow> nat \<Rightarrow> nat \<Rightarrow> 'r client \<Rightarrow> 'r client option" where
  "PageGuard_move_assign R x other c =
     (if x = other then Some c
      else (case drop_or_terminate R x c of None \<Rightarrow> None | Some c' \<Rightarrow> Some (PageGuard_move x other c')))"

subsection \<open>Ownership\<close>

text \<open>The pins the variables in \<open>X\<close> own.\<close>

definition pin_of :: "GuardObject \<Rightarrow> token multiset" where
  "pin_of obj = (if PageGuard_valid obj then {#Pin (page_id_field obj) (frame_id_field obj)#} else {#})"

definition owned :: "nat set \<Rightarrow> 'r client \<Rightarrow> token multiset" where
  "owned X c = (\<Sum>x \<in> X. pin_of (var c x))"

lemma PageGuard_valid_empty [simp]: "\<not> PageGuard_valid empty_guard"
  by (simp add: PageGuard_valid_def empty_guard_def)

lemma pin_of_empty [simp]: "pin_of empty_guard = {#}"
  by (simp add: pin_of_def)

lemma var_put_var [simp]: "var (put_var x obj c) = (var c)(x := obj)" "manager (put_var x obj c) = manager c"
  by (simp_all add: put_var_def)

lemma owned_update:
  "finite X \<Longrightarrow> x \<in> X \<Longrightarrow> var c' = (var c)(x := obj) \<Longrightarrow> owned X c' + pin_of (var c x) = owned X c + pin_of obj"
  by (simp add: owned_def sum.remove add.assoc add.commute add.left_commute)

lemma owned_outside: "x \<notin> X \<Longrightarrow> var c' = (var c)(x := obj) \<Longrightarrow> owned X c' = owned X c"
  by (auto simp: owned_def intro!: sum.cong)

lemma on_manager_var: "on_manager m c = (r, c') \<Longrightarrow> var c' = var c"
  by (auto simp: on_manager_def zoomA_def bindA_def split: prod.splits sum.splits)

lemma PageGuard_Drop_var:
  "PageGuard_Drop R x c = (r, c') \<Longrightarrow> var c' = (if PageGuard_valid (var c x) then (var c)(x := empty_guard) else var c)"
  by (auto simp: PageGuard_Drop_def dest: on_manager_var split: if_splits)

lemma pin_of_invalid: "\<not> PageGuard_valid obj \<Longrightarrow> pin_of obj = {#}"
  by (simp add: pin_of_def)

lemma owned_drop:
  assumes "finite X" and "x \<in> X" and "PageGuard_Drop R x c = (r, c')"
  shows "owned X c' + pin_of (var c x) = owned X c" and "\<not> PageGuard_valid (var c' x)"
  using owned_update [OF assms(1,2), of c' c empty_guard] PageGuard_Drop_var [OF assms(3)]
  by (auto simp: pin_of_invalid owned_def)

lemma owned_move:
  assumes "finite X" and "x \<in> X" and "other \<in> X" and "x \<noteq> other"
  shows "owned X (PageGuard_move x other c) + pin_of (var c x) = owned X c"
proof -
  let ?c1 = "put_var x (var c other) c"
  have "owned X (PageGuard_move x other c) + pin_of (var ?c1 other) = owned X ?c1 + pin_of empty_guard"
    by (rule owned_update [OF assms(1,3)]) (simp add: PageGuard_move_def)
  then have c1: "owned X ?c1 = owned X (PageGuard_move x other c) + pin_of (var c other)" using assms(4) by simp
  have "owned X ?c1 + pin_of (var c x) = owned X c + pin_of (var c other)"
    by (rule owned_update [OF assms(1,2)]) simp
  then have "(owned X (PageGuard_move x other c) + pin_of (var c x)) + pin_of (var c other) = owned X c + pin_of (var c other)"
    unfolding c1 by (simp only: ac_simps)
  then show ?thesis by (simp only: add_right_cancel)
qed

lemma drop_or_terminate_Some:
  "drop_or_terminate R x c = Some c' \<Longrightarrow> PageGuard_Drop R x c = (Inr (), c')"
  by (auto simp: drop_or_terminate_def split: prod.splits sum.splits)

subsection \<open>Properties\<close>

lemma guard_drop_effect:
  assumes "clock_reachable opts n D S" and "g \<in># guards S" and "manager c = sys_bm S" and "var c x = new_PageGuard g"
    and "guard_page_id g \<in> unmarked S \<longrightarrow> (\<exists>h. h \<in># guards S - {#g#} \<and> guard_page_id h = guard_page_id g)"
  shows "\<exists>s2. UnpinFrameLocked clock_replacer (guard_frame_id g) (sys_bm S) = (Inr (), s2) \<and>
    PageGuard_Drop clock_replacer x c = (Inr (), put_var x empty_guard (c\<lparr>manager := s2\<lparr>state_changed := {}\<rparr>\<rparr>)) \<and>
    unat (guard_frame_id g) < length (frame_meta (sys_bm S)) \<and>
    entry_of (sys_bm S) (guard_page_id g) = resident (guard_frame_id g)"
proof -
  let ?p = "guard_page_id g" and ?f = "guard_frame_id g" and ?s = "sys_bm S"
  let ?T = "image_mset guard_token (guards S - {#g#}) + thread_tokens (threads S)"
  have inv: "clock.sinv S" using clock_reachable_inv [OF assms(1)] unfolding clock_system_inv_def .
  have tk: "all_tokens S = add_mset (Pin ?p ?f) ?T"
  proof -
    obtain G where "guards S = add_mset g G" using multi_member_split [OF assms(2)] by blast
    then show ?thesis by (simp add: all_tokens_def guard_token_def)
  qed
  have gd: "clock.good (disk S) (unmarked S) {} (add_mset (Pin ?p ?f) ?T) ?s"
    using clock.sinvD(1) [OF inv] tk by simp
  have u: "\<exists>h. Pin ?p h \<in># ?T" if m: "?p \<in> unmarked S"
  proof -
    obtain h where "h \<in># guards S - {#g#}" "guard_page_id h = ?p" using assms(5) m by blast
    then have "guard_token h \<in># image_mset guard_token (guards S - {#g#})" by simp
    then show ?thesis using \<open>guard_page_id h = ?p\<close> by (auto simp: guard_token_def)
  qed
  note pr = pin_resident [OF clock.goodD(2) [OF gd], of ?p ?f, simplified]
  note rf = clock.resident_frame [OF gd pr(3)]
  obtain s2 where s2: "UnpinFrameLocked clock_replacer ?f ?s = (Inr (), s2)"
    using clock.good_unpin [OF gd u] by blast
  have "DropPageGuard clock_replacer ?p ?f ?s = (Inr (Return None), s2\<lparr>state_changed := {}\<rparr>)"
    using rf by (simp add: DropPageGuard_def thenA_Inr s2)
  then have "PageGuard_Drop clock_replacer x c = (Inr (), put_var x empty_guard (c\<lparr>manager := s2\<lparr>state_changed := {}\<rparr>\<rparr>))"
    using assms(3,4)
    by (simp add: PageGuard_Drop_def PageGuard_valid_def new_PageGuard_def on_manager_def zoomA_def bindA_def put_var_def)
  then show ?thesis using s2 rf pr(3) by blast
qed

text \<open>
  The books of a client and the buffer manager balance: what a frame's pin count loses, the variables
  lose, and the other way round.
\<close>

definition balanced :: "nat set \<Rightarrow> 'r client \<Rightarrow> 'r client \<Rightarrow> bool" where
  "balanced X c c' \<longleftrightarrow> (\<forall>f. unat (pin_count (meta_of (manager c') f)) + pins (owned X c) f =
     unat (pin_count (meta_of (manager c) f)) + pins (owned X c') f)"

lemma balanced_trans:
  assumes "balanced X c d" and "balanced X d e"
  shows "balanced X c e"
  unfolding balanced_def
proof
  fix f
  show "unat (pin_count (meta_of (manager e) f)) + pins (owned X c) f = unat (pin_count (meta_of (manager c) f)) + pins (owned X e) f"
    using assms [unfolded balanced_def, rule_format, of f] by linarith
qed

text \<open>Every valid guard names a frame that exists.\<close>

definition frames_exist :: "nat set \<Rightarrow> 'r client \<Rightarrow> bool" where
  "frames_exist X c \<longleftrightarrow>
     (\<forall>x \<in> X. PageGuard_valid (var c x) \<longrightarrow> unat (frame_id_field (var c x)) < length (frame_meta (manager c)))"

lemma on_manager_DropPageGuard:
  assumes "on_manager (DropPageGuard R p f) c = (Inr (), c')" and "unat f < length (frame_meta (manager c))"
  shows "pin_count (meta_of (manager c) f) \<noteq> 0 \<and> meta_of (manager c') =
    (meta_of (manager c))(f := (meta_of (manager c) f)\<lparr>pin_count := pin_count (meta_of (manager c) f) - 1\<rparr>)"
proof -
  obtain e s' where d: "DropPageGuard R p f (manager c) = (Inr e, s')" "c' = c\<lparr>manager := s'\<rparr>"
    using assms(1) by (auto simp: on_manager_def zoomA_def bindA_def split: prod.splits sum.splits)
  then obtain s2 where "UnpinFrameLocked R f (manager c) = (Inr (), s2)" "s' = s2\<lparr>state_changed := {}\<rparr>"
    by (auto simp: DropPageGuard_def thenA_def bindA_def notify_all_def split: if_splits prod.splits sum.splits)
  then show ?thesis using Unpin_meta [of R f "manager c" s2] assms(2) d(2) by simp
qed

lemma PageGuard_Drop_balanced:
  assumes X: "finite X" "x \<in> X" and fr: "frames_exist X c" and run: "PageGuard_Drop R x c = (Inr (), d)"
  shows "balanced X c d"
proof (cases "PageGuard_valid (var c x)")
  case False
  then have "d = c" using run by (simp add: PageGuard_Drop_def)
  then show ?thesis by (simp add: balanced_def)
next
  case True
  let ?f = "frame_id_field (var c x)" and ?c1 = "put_var x empty_guard c"
  have "on_manager (DropPageGuard R (page_id_field (var c x)) ?f) ?c1 = (Inr (), d)"
    using run True by (simp add: PageGuard_Drop_def)
  then have m: "pin_count (meta_of (manager c) ?f) \<noteq> 0"
      "meta_of (manager d) = (meta_of (manager c))(?f := (meta_of (manager c) ?f)\<lparr>pin_count := pin_count (meta_of (manager c) ?f) - 1\<rparr>)"
    using on_manager_DropPageGuard [of R _ ?f ?c1 d] fr X(2) True by (auto simp: frames_exist_def)
  have u: "unat (pin_count (meta_of (manager c) ?f)) = Suc (unat (pin_count (meta_of (manager c) ?f) - 1))"
    using unat_minus_one [OF m(1)] unat_gt_0 [of "pin_count (meta_of (manager c) ?f)"] m(1) by linarith
  have o: "owned X c = add_mset (Pin (page_id_field (var c x)) ?f) (owned X d)"
    using owned_drop(1) [OF X run] True by (simp add: pin_of_def)
  show ?thesis
    unfolding balanced_def o m(2)
  proof
    fix f
    show "unat (pin_count (((meta_of (manager c))(?f := (meta_of (manager c) ?f)\<lparr>pin_count := pin_count (meta_of (manager c) ?f) - 1\<rparr>)) f)) +
        pins (add_mset (Pin (page_id_field (var c x)) ?f) (owned X d)) f =
        unat (pin_count (meta_of (manager c) f)) + pins (owned X d) f"
      using u by (cases "f = ?f") simp_all
  qed
qed

lemma PageGuard_move_balanced:
  assumes "finite X" "x \<in> X" "other \<in> X" "x \<noteq> other" and "\<not> PageGuard_valid (var c x)"
  shows "balanced X c (PageGuard_move x other c)" and "manager (PageGuard_move x other c) = manager c"
proof -
  show m: "manager (PageGuard_move x other c) = manager c" by (simp add: PageGuard_move_def)
  show "balanced X c (PageGuard_move x other c)"
    using owned_move [OF assms(1-4), of c] assms(5) m by (simp add: balanced_def pin_of_invalid)
qed

text \<open>C25: a pin has one owner, and is given back exactly once. A move touches nothing in the buffer
  manager, makes no pin and loses none, and the other guard is empty afterwards. A move assignment and
  a drop that return take one pin from the frame of the guard in their target, if it has one, no pin
  from any other frame, and the variables then own one pin of that page less: over all guards of a
  client, the pin counts of the buffer manager and the pins owned stay in balance. Also a drop that
  throws leaves its guard empty, so that no pin is given back twice. Assigning a guard to itself does
  nothing.\<close>

theorem pins_have_one_owner:
  assumes "finite X" and "x \<in> X" and "other \<in> X" and "frames_exist X c"
  shows "(x \<noteq> other \<and> \<not> PageGuard_valid (var c x) \<longrightarrow>
      balanced X c (PageGuard_move x other c) \<and> manager (PageGuard_move x other c) = manager c \<and>
      owned X (PageGuard_move x other c) = owned X c \<and>
      var (PageGuard_move x other c) x = var c other \<and> \<not> PageGuard_valid (var (PageGuard_move x other c) other)) \<and>
    (x \<noteq> other \<and> PageGuard_move_assign R x other c = Some c' \<longrightarrow>
      balanced X c c' \<and> owned X c' + pin_of (var c x) = owned X c \<and>
      var c' x = var c other \<and> \<not> PageGuard_valid (var c' other)) \<and>
    PageGuard_move_assign R x x c = Some c \<and>
    (PageGuard_Drop R x c = (r, d) \<longrightarrow>
      owned X d + pin_of (var c x) = owned X c \<and> \<not> PageGuard_valid (var d x) \<and> (r = Inr () \<longrightarrow> balanced X c d))"
proof (intro conjI impI)
  assume a: "x \<noteq> other \<and> \<not> PageGuard_valid (var c x)"
  then show "balanced X c (PageGuard_move x other c)" "manager (PageGuard_move x other c) = manager c"
    using PageGuard_move_balanced [OF assms(1-3)] by blast+
  show "owned X (PageGuard_move x other c) = owned X c"
    using owned_move [OF assms(1-3), of c] a by (simp add: pin_of_invalid)
  show "var (PageGuard_move x other c) x = var c other" "\<not> PageGuard_valid (var (PageGuard_move x other c) other)"
    using a by (simp_all add: PageGuard_move_def)
next
  assume a: "x \<noteq> other \<and> PageGuard_move_assign R x other c = Some c'"
  then obtain e where e: "PageGuard_Drop R x c = (Inr (), e)" "c' = PageGuard_move x other e"
    by (auto simp: PageGuard_move_assign_def dest: drop_or_terminate_Some split: option.splits)
  note d = owned_drop [OF assms(1,2) e(1)]
  have v: "var e other = var c other" using PageGuard_Drop_var [OF e(1)] a by auto
  have "balanced X e c'" using PageGuard_move_balanced(1) [OF assms(1-3) _ d(2)] a e(2) by simp
  then show "balanced X c c'"
    by (rule balanced_trans [OF PageGuard_Drop_balanced [OF assms(1,2,4) e(1)]])
  show "owned X c' + pin_of (var c x) = owned X c"
    using owned_move [OF assms(1-3), of e] a d by (simp add: e(2) pin_of_invalid)
  show "var c' x = var c other" "\<not> PageGuard_valid (var c' other)"
    using a v by (simp_all add: e(2) PageGuard_move_def)
next
  show "PageGuard_move_assign R x x c = Some c" by (simp add: PageGuard_move_assign_def)
next
  assume run: "PageGuard_Drop R x c = (r, d)"
  show "owned X d + pin_of (var c x) = owned X c" "\<not> PageGuard_valid (var d x)"
    using owned_drop [OF assms(1,2) run] by blast+
  show "balanced X c d" if "r = Inr ()" using PageGuard_Drop_balanced [OF assms(1,2,4)] run that by simp
qed

text \<open>A client whose variable 0 holds the guard of the example; its other variables are empty.\<close>

definition ex_client :: "ClockReplacer BufferManager \<Rightarrow> ClockReplacer client" where
  "ex_client s = \<lparr>var = (\<lambda>_. empty_guard)(0 := new_PageGuard ex_guard), manager = s\<rparr>"

lemma ex_client_frames: "frames_exist {0, 1} (ex_client s) \<longleftrightarrow> 0 < length (frame_meta s)"
  by (simp add: frames_exist_def ex_client_def PageGuard_valid_def new_PageGuard_def ex_guard_def empty_guard_def)

lemma ex_client_owned: "owned {0, 1} (ex_client s) = {#Pin 0 0#}"
  by (simp add: owned_def ex_client_def pin_of_def PageGuard_valid_def new_PageGuard_def ex_guard_def empty_guard_def)

text \<open>The guard moves to variable 1 and is dropped there: the frame has lost its only pin.\<close>

theorem pins_have_one_owner_witness:
  "\<exists>S d. clock_reachable ex_opts 2 ex_disk S \<and>
     PageGuard_Drop clock_replacer 0 (ex_client (sys_bm S)) = (Inr (), d) \<and>
     owned {0, 1} d = {#} \<and> balanced {0, 1} (ex_client (sys_bm S)) d \<and>
     unat (pin_count (meta_of (manager d) 0)) + 1 = unat (pin_count (meta_of (sys_bm S) 0)) \<and>
     owned {0, 1} (PageGuard_move 1 0 (ex_client (sys_bm S))) = {#Pin 0 0#}"
proof -
  obtain S where S: "clock_reachable ex_opts 2 ex_disk S" "guards S = {#ex_guard#}" "unmarked S = {}"
    using ex_pinned_state by blast
  let ?c = "ex_client (sys_bm S)"
  have inv: "clock.sinv S" using clock_reachable_inv [OF S(1)] unfolding clock_system_inv_def .
  have r: "entry_of (sys_bm S) 0 = resident 0" "0 \<in> allocated (frame_allocator (sys_bm S))"
    using clock.guard_valid(1,5) [OF inv, of ex_guard] S(2) by (simp_all add: ex_guard_def)
  have fr: "frames_exist {0, 1} ?c"
    using clock.binv_range [OF clock.goodD(1) [OF clock.sinvD(1) [OF inv]] r(2)] unfolding ex_client_frames by simp
  obtain d where d: "PageGuard_Drop clock_replacer 0 ?c = (Inr (), d)"
    using guard_drop_effect [OF S(1), of ex_guard ?c 0] S(2,3) by (auto simp: ex_client_def)
  note P = pins_have_one_owner [OF _ _ _ fr]
  have b: "balanced {0, 1} ?c d" "owned {0, 1} d + pin_of (var ?c 0) = owned {0, 1} ?c"
    using P [of 0 1] d by simp_all
  have "pin_of (var ?c 0) = {#Pin 0 0#}"
    by (simp add: ex_client_def pin_of_def PageGuard_valid_def new_PageGuard_def ex_guard_def)
  then have o: "owned {0, 1} d = {#}" using b(2) ex_client_owned by simp
  have "owned {0, 1} (PageGuard_move 1 0 ?c) = {#Pin 0 0#}"
    using P [of 1 0] ex_client_owned by (simp add: ex_client_def)
  moreover have "unat (pin_count (meta_of (manager d) 0)) + 1 = unat (pin_count (meta_of (sys_bm S) 0))"
    using b(1) [unfolded balanced_def o ex_client_owned, rule_format, of 0] by (simp add: ex_client_def)
  ultimately show ?thesis using S(1) d o b(1) by blast
qed

text \<open>An empty guard is harmless: its accessors throw, dropping or destroying it does nothing, and
  a guard that was dropped is empty, so that a second drop does nothing.\<close>

lemma empty_guards_are_harmless:
  "(\<not> PageGuard_valid (var c x) \<longrightarrow>
      PageGuard_page_id (var c x) = Inl (logic_error ''page guard is empty'') \<and>
      PageGuard_page (var c x) = Inl (logic_error ''page guard is empty'') \<and>
      PageGuard_MarkDirty x c = (Inl (logic_error ''page guard is empty''), c) \<and>
      PageGuard_Drop R x c = (Inr (), c) \<and> delete_PageGuard R x c = Some c) \<and>
   PageGuard_Drop R x (snd (PageGuard_Drop R x c)) = (Inr (), snd (PageGuard_Drop R x c))"
proof (intro conjI impI)
  obtain r c' where d: "PageGuard_Drop R x c = (r, c')" by fastforce
  have "\<not> PageGuard_valid (var c' x)" using PageGuard_Drop_var [OF d] by auto
  then show "PageGuard_Drop R x (snd (PageGuard_Drop R x c)) = (Inr (), snd (PageGuard_Drop R x c))"
    by (simp add: d) (simp add: PageGuard_Drop_def)
qed (simp_all add: PageGuard_page_id_def PageGuard_page_def PageGuard_MarkDirty_def PageGuard_Drop_def delete_PageGuard_def)

text \<open>C26: the destructor of a guard the client holds returns, and never calls
  \<^verbatim>\<open>std::terminate\<close>; it takes one pin from the frame, and the page stays where it is.\<close>

theorem guard_destructor_returns:
  assumes "clock_reachable opts n D S" and "g \<in># guards S" and "manager c = sys_bm S" and "var c x = new_PageGuard g"
    and "guard_page_id g \<in> unmarked S \<longrightarrow> (\<exists>h. h \<in># guards S - {#g#} \<and> guard_page_id h = guard_page_id g)"
  shows "\<exists>c'. delete_PageGuard clock_replacer x c = Some c' \<and> \<not> PageGuard_valid (var c' x) \<and>
    meta_of (manager c') (guard_frame_id g) =
      (meta_of (sys_bm S) (guard_frame_id g))\<lparr>pin_count := pin_count (meta_of (sys_bm S) (guard_frame_id g)) - 1\<rparr> \<and>
    entry_of (manager c') (guard_page_id g) = resident (guard_frame_id g)"
proof -
  obtain s2 where s2: "UnpinFrameLocked clock_replacer (guard_frame_id g) (sys_bm S) = (Inr (), s2)"
      "PageGuard_Drop clock_replacer x c = (Inr (), put_var x empty_guard (c\<lparr>manager := s2\<lparr>state_changed := {}\<rparr>\<rparr>))"
      "unat (guard_frame_id g) < length (frame_meta (sys_bm S))"
      "entry_of (sys_bm S) (guard_page_id g) = resident (guard_frame_id g)"
    using guard_drop_effect [OF assms] by blast
  have "delete_PageGuard clock_replacer x c = Some (put_var x empty_guard (c\<lparr>manager := s2\<lparr>state_changed := {}\<rparr>\<rparr>))"
    using assms(4) s2(2) by (simp add: delete_PageGuard_def drop_or_terminate_def PageGuard_valid_def new_PageGuard_def)
  then show ?thesis using Unpin_views [OF s2(1,3)] s2(4) by auto
qed

theorem guard_destructor_returns_witness:
  "\<exists>S c'. clock_reachable ex_opts 2 ex_disk S \<and> delete_PageGuard clock_replacer 0 (ex_client (sys_bm S)) = Some c' \<and>
     \<not> PageGuard_valid (var c' 0)"
proof -
  obtain S where S: "clock_reachable ex_opts 2 ex_disk S" "guards S = {#ex_guard#}" "unmarked S = {}"
    using ex_pinned_state by blast
  show ?thesis
    using guard_destructor_returns [OF S(1), of ex_guard "ex_client (sys_bm S)" 0] S by (auto simp: ex_client_def)
qed

end
