(* ===== verification/Async_System.thy ===== *)
theory Async_System
  imports Example_Run
begin

text \<open>
  The asynchronous operations of \<^verbatim>\<open>src/buffer_manager.cc\<close>: a task submitted to the executor
  runs the synchronous operation on the thread of the worker that takes it. The first threads of the
  system are the workers, the others belong to the clients.
\<close>

subsection \<open>Tasks\<close>












subsection \<open>Workers on the buffer manager\<close>







subsection \<open>A thread stays in its operation\<close>






subsection \<open>Invariant\<close>













subsection \<open>Properties\<close>



end
