(* ===== verification/Lost_Frame.thy ===== *)
theory Lost_Frame
  imports Buffer_Correctness
begin

text \<open>
  What the rule that a client only deletes pages it has been given is there for. A frame can be
  \<open>out_of_reach\<close>: in use for the allocator, unknown to the replacer, and named by no page, no
  guard and no thread. No operation of the buffer manager brings such a frame back, whatever the
  clients do; and a deletion in the middle of a \<^verbatim>\<open>NewPage\<close> makes one.
\<close>

subsection \<open>A frame out of reach\<close>

definition other_frame :: "FrameId \<Rightarrow> nat \<Rightarrow> FrameId \<Rightarrow> bool" where
  "other_frame f n g \<longleftrightarrow> g \<noteq> f \<and> unat g < n"

text \<open>\<open>n\<close> is the number of frames, \<open>m\<close> the metadata the frame is left with.\<close>

definition out_of_reach :: "FrameId \<Rightarrow> nat \<Rightarrow> FrameMeta \<Rightarrow> ClockReplacer BufferManager \<Rightarrow> bool" where
  "out_of_reach f n m s \<longleftrightarrow>
     fa_inv (frame_allocator s) \<and> pt_inv (page_table s) \<and> clock_inv (replacer s) \<and>
     unat (fa_frame_count (frame_allocator s)) = n \<and> length (frame_meta s) = n \<and>
     frame_count_clock (replacer s) = n \<and>
     f \<in> allocated (frame_allocator s) \<and> f \<notin> tracked_frames (replacer s) \<and> meta_of s f = m \<and>
     (\<forall>p g. pe_frame_id (entry_of s p) = Some g \<longrightarrow> other_frame f n g)"

fun token_elsewhere :: "FrameId \<Rightarrow> nat \<Rightarrow> token \<Rightarrow> bool" where
  "token_elsewhere f n (Pin p g) \<longleftrightarrow> other_frame f n g"
| "token_elsewhere f n (Loading p g) \<longleftrightarrow> other_frame f n g"
| "token_elsewhere f n (Evicting p g) \<longleftrightarrow> other_frame f n g"
| "token_elsewhere f n (Creating p) \<longleftrightarrow> True"

definition elsewhere :: "FrameId \<Rightarrow> nat \<Rightarrow> token multiset \<Rightarrow> bool" where
  "elsewhere f n T \<longleftrightarrow> (\<forall>t \<in># T. token_elsewhere f n t)"

definition frame_lost :: "FrameId \<Rightarrow> nat \<Rightarrow> FrameMeta \<Rightarrow> ClockReplacer system \<Rightarrow> bool" where
  "frame_lost f n m S \<longleftrightarrow>
     out_of_reach f n m (sys_bm S) \<and> elsewhere f n (all_tokens S) \<and> (\<forall>p. page_ok (disk S p))"

lemma elsewhere_simps [simp]:
  "elsewhere f n {#}"
  "elsewhere f n (add_mset t T) \<longleftrightarrow> token_elsewhere f n t \<and> elsewhere f n T"
  "elsewhere f n (T + T') \<longleftrightarrow> elsewhere f n T \<and> elsewhere f n T'"
  by (auto simp: elsewhere_def)

lemma elsewhere_sub: "elsewhere f n T' \<Longrightarrow> (\<And>t. t \<in># T \<Longrightarrow> t \<in># T') \<Longrightarrow> elsewhere f n T"
  by (auto simp: elsewhere_def)

lemma elsewhere_claim [simp]: "elsewhere f n (claim w)"
  by (cases w) simp_all

subsection \<open>Code that leaves it out of reach\<close>

text \<open>
  \<open>keeps f n m Q c s\<close>: run from \<open>s\<close>, the code \<open>c\<close> leaves the frame out of reach, also
  when it throws, and a result satisfies \<open>Q\<close>.
\<close>

definition keeps ::
  "FrameId \<Rightarrow> nat \<Rightarrow> FrameMeta \<Rightarrow> ('a \<Rightarrow> ClockReplacer BufferManager \<Rightarrow> bool) \<Rightarrow>
   (ClockReplacer BufferManager, 'a) act \<Rightarrow> ClockReplacer BufferManager \<Rightarrow> bool" where
  "keeps f n m Q c s \<longleftrightarrow>
     (case c s of (r, s') \<Rightarrow> out_of_reach f n m s' \<and> (\<forall>a. r = Inr a \<longrightarrow> Q a s'))"

named_theorems keeps_rules

lemma keeps_bind [keeps_rules]:
  "keeps f n m (\<lambda>a s'. keeps f n m Q (h a) s') c s \<Longrightarrow> keeps f n m Q (bindA c h) s"
  by (auto simp: keeps_def bindA_def split: sum.splits prod.splits)

lemma keeps_then [keeps_rules]:
  "keeps f n m (\<lambda>a s'. keeps f n m Q d s') c s \<Longrightarrow> keeps f n m Q (thenA c d) s"
  by (auto simp: thenA_def intro: keeps_bind)

lemma keeps_catch [keeps_rules]:
  assumes "keeps f n m Q c s" and "\<And>e s'. out_of_reach f n m s' \<Longrightarrow> keeps f n m Q (h e) s'"
  shows "keeps f n m Q (catchA c h) s"
  using assms by (fastforce simp: keeps_def catchA_def split: sum.splits prod.splits)

lemma keeps_return [keeps_rules]: "out_of_reach f n m s \<Longrightarrow> Q a s \<Longrightarrow> keeps f n m Q (returnA a) s"
  by (simp add: keeps_def)

lemma keeps_throw [keeps_rules]: "out_of_reach f n m s \<Longrightarrow> keeps f n m Q (throwA e) s"
  by (simp add: keeps_def)

lemma keeps_get [keeps_rules]: "out_of_reach f n m s \<Longrightarrow> Q (g s) s \<Longrightarrow> keeps f n m Q (getA g) s"
  by (simp add: keeps_def)

lemma keeps_read: "out_of_reach f n m s \<Longrightarrow> (\<And>a. g s = Inr a \<Longrightarrow> Q a s) \<Longrightarrow> keeps f n m Q (readA g) s"
  by (simp add: keeps_def)

lemma keeps_modify [keeps_rules]: "out_of_reach f n m (g s) \<Longrightarrow> Q () (g s) \<Longrightarrow> keeps f n m Q (modifyA g) s"
  by (simp add: keeps_def)

lemma keeps_weaken:
  assumes "keeps f n m Q' c s" and "\<And>a s'. out_of_reach f n m s' \<Longrightarrow> Q' a s' \<Longrightarrow> Q a s'"
  shows "keeps f n m Q c s"
  using assms by (auto simp: keeps_def split: prod.splits)

lemma keeps_if [keeps_rules]:
  "(b \<Longrightarrow> keeps f n m Q c s) \<Longrightarrow> (\<not> b \<Longrightarrow> keeps f n m Q d s) \<Longrightarrow> keeps f n m Q (if b then c else d) s"
  by simp

subsection \<open>The parts\<close>

lemma out_of_reach_parts:
  assumes "out_of_reach f n m s"
  shows "fa_inv (frame_allocator s)" and "pt_inv (page_table s)" and "clock_inv (replacer s)"
    and "unat (fa_frame_count (frame_allocator s)) = n" and "length (frame_meta s) = n"
    and "frame_count_clock (replacer s) = n" and "f \<in> allocated (frame_allocator s)"
    and "f \<notin> tracked_frames (replacer s)" and "meta_of s f = m"
    and "pe_frame_id (entry_of s p) = Some g \<Longrightarrow> other_frame f n g"
  using assms by (auto simp: out_of_reach_def)

lemma out_of_reach_allocator:
  "out_of_reach f n m s \<Longrightarrow> fa_inv a \<Longrightarrow> fa_frame_count a = fa_frame_count (frame_allocator s) \<Longrightarrow> f \<in> allocated a \<Longrightarrow>
   out_of_reach f n m (s\<lparr>frame_allocator := a\<rparr>)"
  by (simp add: out_of_reach_def)

lemma out_of_reach_replacer:
  "out_of_reach f n m s \<Longrightarrow> clock_inv r \<Longrightarrow> frame_count_clock r = frame_count_clock (replacer s) \<Longrightarrow> f \<notin> tracked_frames r \<Longrightarrow>
   out_of_reach f n m (s\<lparr>replacer := r\<rparr>)"
  by (simp add: out_of_reach_def)

lemma out_of_reach_table:
  assumes "out_of_reach f n m s" and "pt_inv t" and "page_entry t = (entry_of s)(p := e)"
    and "\<And>g. pe_frame_id e = Some g \<Longrightarrow> other_frame f n g"
  shows "out_of_reach f n m (s\<lparr>page_table := t\<rparr>)"
  using assms by (auto simp: out_of_reach_def)

lemma out_of_reach_put_meta [keeps_rules]:
  "out_of_reach f n m s \<Longrightarrow> other_frame f n g \<Longrightarrow> out_of_reach f n m (put_meta g m' s)"
  by (auto simp: out_of_reach_def other_frame_def)

lemma out_of_reach_changed [simp]: "out_of_reach f n m (s\<lparr>state_changed := w\<rparr>) = out_of_reach f n m s"
  by (simp add: out_of_reach_def)

lemma keeps_notify [keeps_rules]:
  "out_of_reach f n m s \<Longrightarrow> (\<And>s'. out_of_reach f n m s' \<Longrightarrow> Q () s') \<Longrightarrow> keeps f n m Q notify_all s"
  by (simp add: keeps_def)

lemma keeps_page_ref [keeps_rules]:
  "out_of_reach f n m s \<Longrightarrow> Q () s \<Longrightarrow> keeps f n m Q (page_ref g) s"
  by (auto simp: page_ref_def intro!: keeps_bind keeps_read keeps_return)

lemma keeps_page_state [keeps_rules]:
  assumes "out_of_reach f n m s" and "\<And>st. st = pe_state (entry_of s p) \<Longrightarrow> Q st s"
  shows "keeps f n m Q (page_state p) s"
  unfolding page_state_def using assms(1)
proof (rule keeps_read)
  fix st assume "State (page_table s) p = Inr st"
  then show "Q st s"
    using assms(2) out_of_reach_parts(2) [OF assms(1)] State_eq [of "page_table s" p] State_out_of_range [of "page_table s" p]
    by (cases "unat p < unat (max_page_count (page_table s))") simp_all
qed

lemma keeps_frame_for_page [keeps_rules]:
  assumes o: "out_of_reach f n m s" and st: "pe_state (entry_of s p) = kResident"
    and Q: "\<And>g. other_frame f n g \<Longrightarrow> Q g s"
  shows "keeps f n m Q (frame_for_page p) s"
proof -
  obtain g where g: "entry_of s p = resident g"
    using resident_has_frame [OF out_of_reach_parts(2) [OF o], of p] st by auto
  then show ?thesis
    using frame_for_page_resident [OF out_of_reach_parts(2) [OF o] g] Q out_of_reach_parts(10) [OF o, of p g] o
    by (simp add: keeps_def)
qed

lemma keeps_allocate [keeps_rules]:
  assumes o: "out_of_reach f n m s" and none: "Q None s"
    and some: "\<And>g s'. out_of_reach f n m s' \<Longrightarrow> other_frame f n g \<Longrightarrow> Q (Some g) s'"
  shows "keeps f n m Q allocate_frame s"
proof -
  obtain r fa' where al: "AllocateFrame (frame_allocator s) = (r, fa')" by fastforce
  then have run: "allocate_frame s = (Inr r, s\<lparr>frame_allocator := fa'\<rparr>)"
    by (simp add: allocate_frame_def on_allocator_eval)
  note spec = AllocateFrame_spec [OF out_of_reach_parts(1) [OF o] al]
  show ?thesis
  proof (cases r)
    case None
    then show ?thesis using spec run o none by (simp add: keeps_def)
  next
    case (Some g)
    then have a: "fa_inv fa'" "fa_frame_count fa' = fa_frame_count (frame_allocator s)" "f \<in> allocated fa'"
        "other_frame f n g"
      using spec out_of_reach_parts(4,7) [OF o] by (auto simp: other_frame_def)
    then show ?thesis
      using run Some some [OF out_of_reach_allocator [OF o a(1-3)] a(4)] out_of_reach_allocator [OF o a(1-3)]
      by (simp add: keeps_def)
  qed
qed

lemma keeps_on_allocator:
  assumes o: "out_of_reach f n m s" and run: "c (frame_allocator s) = (r, a)"
    and a: "fa_inv a" "fa_frame_count a = fa_frame_count (frame_allocator s)" "f \<in> allocated a"
    and Q: "\<And>s'. out_of_reach f n m s' \<Longrightarrow> Q () s'"
  shows "keeps f n m Q (on_allocator c) s"
  using on_allocator_eval [of c s, OF run] Q [OF out_of_reach_allocator [OF o a]] out_of_reach_allocator [OF o a]
  by (simp add: keeps_def)

lemma keeps_free_frame [keeps_rules]:
  assumes o: "out_of_reach f n m s" and g: "other_frame f n g"
    and Q: "\<And>s'. out_of_reach f n m s' \<Longrightarrow> Q () s'"
  shows "keeps f n m Q (on_allocator (FreeFrame g)) s"
proof (cases "g \<in> allocated (frame_allocator s)")
  case True
  obtain a where a: "FreeFrame g (frame_allocator s) = (Inr (), a)" "fa_inv a"
      "fa_frame_count a = fa_frame_count (frame_allocator s)" "allocated a = allocated (frame_allocator s) - {g}"
    using FreeFrame_spec [OF out_of_reach_parts(1) [OF o] True] by blast
  from a(1) show ?thesis
    by (rule keeps_on_allocator [OF o]) (use a g out_of_reach_parts(7) [OF o] Q in \<open>auto simp: other_frame_def\<close>)
next
  case False
  show ?thesis
    by (rule keeps_on_allocator [where c = "FreeFrame g", OF o FreeFrame_error [OF out_of_reach_parts(1) [OF o] False]])
      (use out_of_reach_parts(1,7) [OF o] Q in simp_all)
qed

lemma keeps_fill [keeps_rules]:
  assumes o: "out_of_reach f n m s" and Q: "\<And>s'. out_of_reach f n m s' \<Longrightarrow> Q () s'"
  shows "keeps f n m Q (on_allocator (update_page g (fill 0))) s"
proof (cases "g \<in> allocated (frame_allocator s)")
  case True
  note fa = out_of_reach_parts(1) [OF o]
  obtain a where a: "update_page g (fill 0) (frame_allocator s) = (Inr (), a)" "fa_inv a"
      "fa_frame_count a = fa_frame_count (frame_allocator s)" "allocated a = allocated (frame_allocator s)"
    using update_page_spec [OF fa True, of "fill 0"] page_ok_frame [OF fa allocated_bound [OF True]] by auto
  from a(1) show ?thesis by (rule keeps_on_allocator [OF o]) (use a out_of_reach_parts(7) [OF o] Q in simp_all)
next
  case False
  then have "\<exists>e. ValidateAllocatedFrameId (frame_allocator s) g = Inl e"
    by (simp add: ValidateAllocatedFrameId_eq [OF out_of_reach_parts(1) [OF o]])
  then obtain e where "ValidateAllocatedFrameId (frame_allocator s) g = Inl e" ..
  then have "update_page g (fill 0) (frame_allocator s) = (Inl e, frame_allocator s)"
    by (simp add: update_page_def)
  from this show ?thesis
    by (rule keeps_on_allocator [OF o]) (use out_of_reach_parts(1,7) [OF o] Q in simp_all)
qed

text \<open>An operation of the page table throws, or changes one entry.\<close>

lemma keeps_table_throws:
  "out_of_reach f n m s \<Longrightarrow> c (page_table s) = (Inl e, page_table s) \<Longrightarrow> keeps f n m Q (on_page_table c) s"
  by (simp add: keeps_def on_page_table_eval)

lemma keeps_table_sets:
  assumes o: "out_of_reach f n m s" and run: "c (page_table s) = (Inr a, t)"
    and t: "pt_inv t" "page_entry t = (entry_of s)(p := d)" "\<And>g. pe_frame_id d = Some g \<Longrightarrow> other_frame f n g"
    and Q: "\<And>s'. out_of_reach f n m s' \<Longrightarrow> Q a s'"
  shows "keeps f n m Q (on_page_table c) s"
  using on_page_table_eval [of c s, OF run] Q [OF out_of_reach_table [OF o t]] out_of_reach_table [OF o t]
  by (simp add: keeps_def)

lemma keeps_allocate_id [keeps_rules]:
  assumes o: "out_of_reach f n m s" and Q: "\<And>p s'. out_of_reach f n m s' \<Longrightarrow> Q p s'"
  shows "keeps f n m Q (on_page_table AllocatePageId) s"
proof -
  obtain r t where run: "AllocatePageId (page_table s) = (r, t)" by fastforce
  note spec = AllocatePageId_spec [OF out_of_reach_parts(2) [OF o] run]
  show ?thesis
  proof (cases r)
    case (Inl e)
    then show ?thesis using spec run by (intro keeps_table_throws [OF o]) auto
  next
    case (Inr p)
    then have r: "AllocatePageId (page_table s) = (Inr p, t)" using run by simp
    show ?thesis
      by (rule keeps_table_sets [where c = AllocatePageId and d = on_disk and p = p, OF o r])
        (use spec Inr Q in auto)
  qed
qed

lemma keeps_free_id [keeps_rules]:
  assumes o: "out_of_reach f n m s" and Q: "\<And>s'. out_of_reach f n m s' \<Longrightarrow> Q () s'"
  shows "keeps f n m Q (on_page_table (FreePageId p)) s"
proof (cases "pe_state (entry_of s p) = kNonResident")
  case True
  obtain t where t: "FreePageId p (page_table s) = (Inr (), t)" "pt_inv t" "page_entry t = (entry_of s)(p := no_entry)"
    using FreePageId_spec [OF out_of_reach_parts(2) [OF o] True] by blast
  from o this show ?thesis by (rule keeps_table_sets) (use Q in simp_all)
next
  case False
  from FreePageId_error [OF out_of_reach_parts(2) [OF o] False] show ?thesis by (rule keeps_table_throws [OF o])
qed

lemma keeps_set_loading [keeps_rules]:
  assumes o: "out_of_reach f n m s" and g: "other_frame f n g" and Q: "\<And>s'. out_of_reach f n m s' \<Longrightarrow> Q () s'"
  shows "keeps f n m Q (on_page_table (SetLoading p g)) s"
proof (cases "pe_state (entry_of s p) = kNonResident")
  case True
  obtain t where t: "SetLoading p g (page_table s) = (Inr (), t)" "pt_inv t" "page_entry t = (entry_of s)(p := loading g)"
    using SetLoading_spec [OF out_of_reach_parts(2) [OF o] True, of g] by blast
  from o this show ?thesis by (rule keeps_table_sets) (use Q g in simp_all)
next
  case False
  from SetLoading_error [OF out_of_reach_parts(2) [OF o] False] show ?thesis by (rule keeps_table_throws [OF o])
qed

lemma keeps_set_resident [keeps_rules]:
  assumes o: "out_of_reach f n m s" and g: "other_frame f n g" and Q: "\<And>s'. out_of_reach f n m s' \<Longrightarrow> Q () s'"
  shows "keeps f n m Q (on_page_table (SetResident p g)) s"
proof (cases "pe_state (entry_of s p) = kNonResident \<or> entry_of s p = loading g")
  case True
  obtain t where t: "SetResident p g (page_table s) = (Inr (), t)" "pt_inv t" "page_entry t = (entry_of s)(p := resident g)"
    using SetResident_spec [OF out_of_reach_parts(2) [OF o] True] by blast
  from o this show ?thesis by (rule keeps_table_sets) (use Q g in simp_all)
next
  case False
  then have "pe_state (entry_of s p) \<noteq> kNonResident" "entry_of s p \<noteq> loading g" by auto
  from SetResident_error [OF out_of_reach_parts(2) [OF o] this] show ?thesis by (rule keeps_table_throws [OF o])
qed

lemma keeps_set_nonresident [keeps_rules]:
  assumes o: "out_of_reach f n m s" and Q: "\<And>s'. out_of_reach f n m s' \<Longrightarrow> Q () s'"
  shows "keeps f n m Q (on_page_table (SetNonResident p)) s"
proof (cases "pe_state (entry_of s p) \<noteq> kUnused")
  case True
  obtain t where t: "SetNonResident p (page_table s) = (Inr (), t)" "pt_inv t" "page_entry t = (entry_of s)(p := on_disk)"
    using SetNonResident_spec [OF out_of_reach_parts(2) [OF o] True] by blast
  from o this show ?thesis by (rule keeps_table_sets) (use Q in simp_all)
next
  case False
  then have "pe_state (entry_of s p) = kUnused" by simp
  from SetNonResident_error [OF out_of_reach_parts(2) [OF o] this] show ?thesis by (rule keeps_table_throws [OF o])
qed

lemma keeps_set_evicting [keeps_rules]:
  assumes o: "out_of_reach f n m s" and Q: "\<And>s'. out_of_reach f n m s' \<Longrightarrow> Q () s'"
  shows "keeps f n m Q (on_page_table (SetEvicting p)) s"
proof (cases "pe_state (entry_of s p) = kResident")
  case True
  then obtain g where g: "entry_of s p = resident g"
    using resident_has_frame [OF out_of_reach_parts(2) [OF o], of p] by auto
  obtain t where t: "SetEvicting p (page_table s) = (Inr (), t)" "pt_inv t" "page_entry t = (entry_of s)(p := evicting g)"
    using SetEvicting_spec [OF out_of_reach_parts(2) [OF o] g] by blast
  from o this show ?thesis by (rule keeps_table_sets) (use Q out_of_reach_parts(10) [OF o, of p g] g in simp_all)
next
  case False
  from SetEvicting_error [OF out_of_reach_parts(2) [OF o] False] show ?thesis by (rule keeps_table_throws [OF o])
qed

lemma keeps_on_replacer:
  assumes o: "out_of_reach f n m s" and run: "c (replacer s) = (r, t)"
    and t: "clock_inv t" "frame_count_clock t = frame_count_clock (replacer s)" "f \<notin> tracked_frames t"
    and Q: "\<And>a s'. r = Inr a \<Longrightarrow> out_of_reach f n m s' \<Longrightarrow> Q a s'"
  shows "keeps f n m Q (on_replacer c) s"
  using on_replacer_eval [of c s, OF run] Q [OF _ out_of_reach_replacer [OF o t]] out_of_reach_replacer [OF o t]
  by (simp add: keeps_def)

lemma keeps_access [keeps_rules]:
  assumes o: "out_of_reach f n m s" and g: "other_frame f n g" and Q: "\<And>s'. out_of_reach f n m s' \<Longrightarrow> Q () s'"
  shows "keeps f n m Q (on_replacer (RecordAccess clock_replacer g)) s"
proof -
  note i = out_of_reach_parts(3,6,8) [OF o]
  obtain t where t: "RecordAccess clock_replacer g (replacer s) = (Inr (), t)" "clock_inv t"
      "frame_count_clock t = frame_count_clock (replacer s)" "tracked_frames t = insert g (tracked_frames (replacer s))"
    using clock.access [OF i(1), of g] g i(2) by (auto simp: other_frame_def)
  from t(1) show ?thesis by (rule keeps_on_replacer [OF o]) (use t g i Q in \<open>auto simp: other_frame_def\<close>)
qed

lemma keeps_set_evictable [keeps_rules]:
  assumes o: "out_of_reach f n m s" and g: "other_frame f n g" and Q: "\<And>s'. out_of_reach f n m s' \<Longrightarrow> Q () s'"
  shows "keeps f n m Q (on_replacer (SetEvictable clock_replacer g b)) s"
proof (cases "g \<in> tracked_frames (replacer s)")
  case True
  note i = out_of_reach_parts(3,6,8) [OF o]
  obtain t where t: "SetEvictable clock_replacer g b (replacer s) = (Inr (), t)" "clock_inv t"
      "frame_count_clock t = frame_count_clock (replacer s)" "tracked_frames t = tracked_frames (replacer s)"
    using clock.evictable [OF i(1) True, of b] by auto
  from t(1) show ?thesis by (rule keeps_on_replacer [OF o]) (use t i Q in auto)
next
  case False
  note i = out_of_reach_parts(3,6,8) [OF o]
  then have "SetEvictable clock_replacer g b (replacer s) =
      (Inl (logic_error ''cannot change evictability of an unknown frame''), replacer s)"
    using False g by (simp add: Clock_SetEvictable_def clock_valid other_frame_def tracked_frames_def frame_count_clock_def)
  from this show ?thesis by (rule keeps_on_replacer [OF o]) (use i in simp_all)
qed

lemma keeps_remove [keeps_rules]:
  assumes o: "out_of_reach f n m s" and g: "other_frame f n g" and Q: "\<And>s'. out_of_reach f n m s' \<Longrightarrow> Q () s'"
  shows "keeps f n m Q (on_replacer (Remove clock_replacer g)) s"
proof -
  note i = out_of_reach_parts(3,6,8) [OF o]
  obtain t where t: "Remove clock_replacer g (replacer s) = (Inr (), t)" "clock_inv t"
      "frame_count_clock t = frame_count_clock (replacer s)" "tracked_frames t = tracked_frames (replacer s) - {g}"
    using clock.remove [OF i(1), of g] g i(2) by (auto simp: other_frame_def)
  from t(1) show ?thesis by (rule keeps_on_replacer [OF o]) (use t i Q in auto)
qed

lemma keeps_victim [keeps_rules]:
  assumes o: "out_of_reach f n m s" and none: "Q None s"
    and some: "\<And>g s'. out_of_reach f n m s' \<Longrightarrow> other_frame f n g \<Longrightarrow> Q (Some g) s'"
  shows "keeps f n m Q (on_replacer (Victim clock_replacer)) s"
proof (cases "evictable_frames (replacer s) = {}")
  case True
  note i = out_of_reach_parts(3,6,8) [OF o]
  have "on_replacer (Victim clock_replacer) s = (Inr None, s)"
    using clock.victim_none [OF i(1) True] by (simp add: on_replacer_eval)
  then show ?thesis using o none by (simp add: keeps_def)
next
  case False
  note i = out_of_reach_parts(3,6,8) [OF o]
  obtain g t where v: "Victim clock_replacer (replacer s) = (Inr (Some g), t)" "g \<in> evictable_frames (replacer s)"
      "clock_inv t" "frame_count_clock t = frame_count_clock (replacer s)"
      "tracked_frames t = tracked_frames (replacer s) - {g}"
    using clock.victim_some [OF i(1) False] by blast
  then have "other_frame f n g"
    using clock.subset [OF i(1)] clock.bounded [OF i(1), of g] i(2,3) by (auto simp: other_frame_def)
  then show ?thesis using v i(3) some by (intro keeps_on_replacer [where c = "Victim clock_replacer", OF o v(1)]) auto
qed

subsection \<open>The critical sections\<close>

fun ending_tokens :: "ending \<Rightarrow> token multiset" where
  "ending_tokens (Return None) = {#}"
| "ending_tokens (Return (Some g)) = {#guard_token g#}"
| "ending_tokens (Wait pc) = held pc"
| "ending_tokens (Unlock pc) = held pc"

abbreviation keeps_section ::
  "FrameId \<Rightarrow> nat \<Rightarrow> FrameMeta \<Rightarrow> (ClockReplacer BufferManager, ending) act \<Rightarrow> ClockReplacer BufferManager \<Rightarrow> bool" where
  "keeps_section f n m \<equiv> keeps f n m (\<lambda>r s'. elsewhere f n (ending_tokens r))"

lemma keeps_make_guard [keeps_rules]:
  "out_of_reach f n m s \<Longrightarrow> other_frame f n g \<Longrightarrow> keeps_section f n m (MakeGuardLocked p g) s"
  unfolding MakeGuardLocked_def by (intro keeps_rules) (simp_all add: guard_token_def)

lemma keeps_unpin [keeps_rules]:
  assumes "out_of_reach f n m s" and "other_frame f n g" and "\<And>s'. out_of_reach f n m s' \<Longrightarrow> Q () s'"
  shows "keeps f n m Q (UnpinFrameLocked clock_replacer g) s"
  unfolding UnpinFrameLocked_def by (intro keeps_rules assms)

lemma keeps_pin [keeps_rules]:
  assumes "out_of_reach f n m s" and "other_frame f n g" and "\<And>s'. out_of_reach f n m s' \<Longrightarrow> Q () s'"
  shows "keeps f n m Q (PinResidentFrameLocked clock_replacer p g) s"
  unfolding PinResidentFrameLocked_def by (intro keeps_rules assms)

fun acquired_elsewhere :: "FrameId \<Rightarrow> nat \<Rightarrow> acquired \<Rightarrow> bool" where
  "acquired_elsewhere f n (Acquired g) \<longleftrightarrow> other_frame f n g"
| "acquired_elsewhere f n MustWait \<longleftrightarrow> True"
| "acquired_elsewhere f n (MustEvict g p d e) \<longleftrightarrow> other_frame f n g"

lemma keeps_cases [keeps_rules]:
  "(x = None \<Longrightarrow> keeps f n m Q a s) \<Longrightarrow> (\<And>y. x = Some y \<Longrightarrow> keeps f n m Q (b y) s) \<Longrightarrow>
   keeps f n m Q (case x of None \<Rightarrow> a | Some y \<Rightarrow> b y) s"
  by (cases x) simp_all

lemma keeps_select_victim:
  assumes o: "out_of_reach f n m s"
    and Q: "\<And>a s'. out_of_reach f n m s' \<Longrightarrow> acquired_elsewhere f n a \<Longrightarrow> Q a s'"
  shows "keeps f n m Q (SelectVictimLocked clock_replacer) s"
  unfolding SelectVictimLocked_def by (intro keeps_rules o) (auto intro!: Q o out_of_reach_put_meta)

lemma keeps_acquire:
  assumes "out_of_reach f n m s"
    and Q: "\<And>a s'. out_of_reach f n m s' \<Longrightarrow> acquired_elsewhere f n a \<Longrightarrow> Q a s'"
  shows "keeps f n m Q (AcquireFrameLocked clock_replacer) s"
  unfolding AcquireFrameLocked_def using assms by (intro keeps_rules keeps_select_victim) auto

lemma keeps_finish_eviction [keeps_rules]:
  assumes "out_of_reach f n m s" and "other_frame f n g" and "\<And>s'. out_of_reach f n m s' \<Longrightarrow> Q () s'"
  shows "keeps f n m Q (finish_eviction g p) s"
  unfolding finish_eviction_def by (intro keeps_rules assms)

lemma keeps_fail_eviction [keeps_rules]:
  assumes "out_of_reach f n m s" and "other_frame f n g"
  shows "keeps f n m Q (fail_eviction clock_replacer g p d e x) s"
  unfolding fail_eviction_def RestoreEvictedFrameLocked_def by (intro keeps_rules assms)

lemma keeps_acquired_after_eviction [keeps_rules]:
  assumes "out_of_reach f n m s" and "other_frame f n g" and "\<And>s'. out_of_reach f n m s' \<Longrightarrow> Q g s'"
  shows "keeps f n m Q (AcquireFrameLocked_evicted g p) s"
  unfolding AcquireFrameLocked_evicted_def by (intro keeps_rules assms)

subsection \<open>New pages\<close>

lemma keeps_install:
  "out_of_reach f n m s \<Longrightarrow> other_frame f n g \<Longrightarrow> keeps_section f n m (NewPage_install clock_replacer p g) s"
  unfolding NewPage_install_def by (intro keeps_rules)

lemma keeps_abandon: "out_of_reach f n m s \<Longrightarrow> keeps f n m Q (NewPage_catch p e) s"
  unfolding NewPage_catch_def by (intro keeps_rules)

lemma keeps_NewPage_acquired:
  "out_of_reach f n m s \<Longrightarrow> acquired_elsewhere f n a \<Longrightarrow> keeps_section f n m (NewPage_acquired clock_replacer p a) s"
  by (cases a) (auto simp: NewPage_acquired_def intro: keeps_return keeps_install)

lemma keeps_NewPage_locked [keeps_rules]:
  "out_of_reach f n m s \<Longrightarrow> keeps_section f n m (NewPage_locked clock_replacer p) s"
  unfolding NewPage_locked_def by (intro keeps_rules keeps_acquire keeps_abandon keeps_NewPage_acquired)

lemma keeps_NewPage: "out_of_reach f n m s \<Longrightarrow> keeps_section f n m (NewPage clock_replacer) s"
  unfolding NewPage_def by (intro keeps_rules)

lemma keeps_NewPage_evicted:
  "out_of_reach f n m s \<Longrightarrow> other_frame f n g \<Longrightarrow> keeps_section f n m (NewPage_evicted clock_replacer p g q) s"
  unfolding NewPage_evicted_def by (intro keeps_rules keeps_abandon keeps_install)

lemma keeps_NewPage_evict_failed:
  "out_of_reach f n m s \<Longrightarrow> other_frame f n g \<Longrightarrow>
   keeps_section f n m (NewPage_evict_failed clock_replacer p g q d e x) s"
  unfolding NewPage_evict_failed_def by (intro keeps_rules keeps_abandon)

subsection \<open>Fetching pages\<close>

lemma keeps_begin_load:
  "out_of_reach f n m s \<Longrightarrow> other_frame f n g \<Longrightarrow> keeps_section f n m (FetchPage_begin_load p g) s"
  unfolding FetchPage_begin_load_def by (intro keeps_rules) simp_all

lemma keeps_FetchPage_acquired:
  "out_of_reach f n m s \<Longrightarrow> acquired_elsewhere f n a \<Longrightarrow> keeps_section f n m (FetchPage_acquired p a) s"
  by (cases a) (auto simp: FetchPage_acquired_def intro: keeps_return keeps_begin_load)

lemma keeps_acquire_for_fetch:
  assumes "out_of_reach f n m s" and "\<And>s'. out_of_reach f n m s' \<Longrightarrow> Q None s'"
    and "\<And>a s'. out_of_reach f n m s' \<Longrightarrow> acquired_elsewhere f n a \<Longrightarrow> Q (Some a) s'"
  shows "keeps f n m Q (AcquireFrameForFetchLocked clock_replacer p) s"
  unfolding AcquireFrameForFetchLocked_def using assms by (intro keeps_rules keeps_select_victim) auto

lemma keeps_FetchPage_resident:
  "out_of_reach f n m s \<Longrightarrow> pe_state (entry_of s p) = kResident \<Longrightarrow> keeps_section f n m (FetchPage_resident clock_replacer p) s"
  unfolding FetchPage_resident_def by (intro keeps_rules)

lemma keeps_FetchPage:
  assumes "out_of_reach f n m s"
  shows "keeps_section f n m (FetchPage clock_replacer p) s"
  using assms
proof (induction "clock_replacer" p s rule: FetchPage.induct)
  case (1 p s)
  have st: "State (page_table s) p = Inr st \<Longrightarrow> pe_state (entry_of s p) = st" for st
    using State_eq [of "page_table s" p] State_out_of_range [of "page_table s" p] out_of_reach_parts(2) [OF 1(2)]
    by (cases "unat p < unat (max_page_count (page_table s))") simp_all
  obtain r s' where run: "AcquireFrameForFetchLocked clock_replacer p s = (r, s')" by fastforce
  have "keeps f n m (\<lambda>a s'. case a of None \<Rightarrow> True | Some a \<Rightarrow> acquired_elsewhere f n a)
      (AcquireFrameForFetchLocked clock_replacer p) s"
    by (rule keeps_acquire_for_fetch [OF 1(2)]) simp_all
  then have k: "out_of_reach f n m s'" "\<And>a. r = Inr (Some a) \<Longrightarrow> acquired_elsewhere f n a"
    by (auto simp: keeps_def run)
  show ?case
  proof (cases "State (page_table s) p")
    case (Inl e)
    then show ?thesis using 1(2) by (simp add: keeps_def FetchPage.simps)
  next
    case (Inr state)
    show ?thesis
      using 1(1) [OF Inr] 1(2) Inr run k keeps_FetchPage_resident [OF 1(2), of p] st [OF Inr] keeps_FetchPage_acquired [OF k(1)]
      by (auto simp: keeps_def FetchPage.simps [of _ p s] split: PageState.splits sum.splits option.splits)
  qed
qed

lemma keeps_FetchPage_retried:
  "out_of_reach f n m s \<Longrightarrow> keeps_section f n m (FetchPage_retried clock_replacer p) s"
  unfolding FetchPage_retried_def
  by (intro keeps_rules keeps_acquire_for_fetch) (auto intro: keeps_FetchPage keeps_FetchPage_acquired)

lemma keeps_FetchPage_evicted:
  "out_of_reach f n m s \<Longrightarrow> other_frame f n g \<Longrightarrow> keeps_section f n m (FetchPage_evicted clock_replacer p g q) s"
  unfolding FetchPage_evicted_def AcquireFrameForFetchLocked_evicted_def
  by (intro keeps_rules) (auto intro: keeps_FetchPage keeps_begin_load)

lemma keeps_FetchPage_loaded:
  "out_of_reach f n m s \<Longrightarrow> other_frame f n g \<Longrightarrow> keeps_section f n m (FetchPage_loaded clock_replacer p g) s"
  unfolding FetchPage_loaded_def by (intro keeps_rules)

lemma keeps_FetchPage_load_failed:
  "out_of_reach f n m s \<Longrightarrow> other_frame f n g \<Longrightarrow> keeps_section f n m (FetchPage_load_failed p g e) s"
  unfolding FetchPage_load_failed_def by (intro keeps_rules)

subsection \<open>Flushing, deleting and guards\<close>

lemma flush_next_tokens [simp]: "ending_tokens (flush_next rest) = {#}"
  by (simp add: flush_next_def split: list.splits)

lemma keeps_FlushPage_resident:
  "out_of_reach f n m s \<Longrightarrow> pe_state (entry_of s p) = kResident \<Longrightarrow>
   keeps_section f n m (FlushPage_resident clock_replacer p rest) s"
  unfolding FlushPage_resident_def by (intro keeps_rules) simp_all

lemma keeps_FlushPage: "out_of_reach f n m s \<Longrightarrow> keeps_section f n m (FlushPage clock_replacer p rest) s"
  unfolding FlushPage_def
  by (intro keeps_rules) (auto split: PageState.splits intro: keeps_throw keeps_return keeps_FlushPage_resident)

lemma keeps_FlushPage_written:
  "out_of_reach f n m s \<Longrightarrow> other_frame f n g \<Longrightarrow> keeps_section f n m (FlushPage_written clock_replacer p g e rest) s"
  unfolding FlushPage_written_def by (intro keeps_rules) (auto intro: out_of_reach_put_meta)

lemma keeps_FlushPage_write_failed:
  "out_of_reach f n m s \<Longrightarrow> other_frame f n g \<Longrightarrow> keeps_section f n m (FlushPage_write_failed clock_replacer g e) s"
  unfolding FlushPage_write_failed_def by (intro keeps_rules)

lemma keeps_FlushAllPages: "out_of_reach f n m s \<Longrightarrow> keeps_section f n m FlushAllPages s"
  unfolding FlushAllPages_def by (intro keeps_rules) simp_all

lemma keeps_DeletePage_resident:
  "out_of_reach f n m s \<Longrightarrow> pe_state (entry_of s p) = kResident \<Longrightarrow>
   keeps_section f n m (DeletePage_resident clock_replacer p) s"
  unfolding DeletePage_resident_def by (intro keeps_rules) simp_all

lemma keeps_DeletePage_nonresident:
  "out_of_reach f n m s \<Longrightarrow>
   keeps_section f n m (thenA (on_page_table (FreePageId p)) (thenA notify_all (returnA (Return None)))) s"
  by (intro keeps_rules) simp_all

lemma keeps_DeletePage: "out_of_reach f n m s \<Longrightarrow> keeps_section f n m (DeletePage clock_replacer p) s"
  unfolding DeletePage_def
  by (intro keeps_rules)
    (auto split: PageState.splits intro: keeps_return keeps_DeletePage_resident keeps_DeletePage_nonresident)

lemma keeps_DropPageGuard:
  "out_of_reach f n m s \<Longrightarrow> other_frame f n g \<Longrightarrow> keeps_section f n m (DropPageGuard clock_replacer p g) s"
  unfolding DropPageGuard_def by (intro keeps_rules) simp_all

lemma keeps_MarkDirty:
  "out_of_reach f n m s \<Longrightarrow> other_frame f n g \<Longrightarrow> keeps_section f n m (MarkDirty p g) s"
  unfolding MarkDirty_def by (intro keeps_rules) simp_all

lemmas keeps_sections =
  keeps_NewPage keeps_NewPage_locked keeps_FetchPage keeps_FetchPage_retried keeps_NewPage_evicted keeps_FetchPage_evicted
  keeps_NewPage_evict_failed keeps_fail_eviction keeps_FetchPage_loaded keeps_FetchPage_load_failed keeps_FlushPage
  keeps_FlushPage_written keeps_FlushPage_write_failed keeps_FlushAllPages keeps_DeletePage keeps_DropPageGuard keeps_MarkDirty

lemma section_keeps:
  assumes "out_of_reach f n m s" and "elsewhere f n (held pc)" and "critical_section clock_replacer pc = Some c"
  shows "keeps_section f n m c s"
  using assms by (cases "(clock_replacer, pc)" rule: critical_section.cases) (auto intro: keeps_sections)

subsection \<open>The steps of the system\<close>

lemma other_tokens_sub: "i < length (threads S) \<Longrightarrow> elsewhere f n (all_tokens S) \<Longrightarrow>
   elsewhere f n (held (threads S ! i)) \<and> elsewhere f n (other_tokens i S)"
  by (simp add: all_tokens_other)

lemma frame_lost_set_pc:
  assumes "i < length (threads S)" and "out_of_reach f n m (sys_bm S)" and "elsewhere f n (held pc)"
    and "elsewhere f n (other_tokens i S)" and "\<And>p. page_ok (disk S p)"
  shows "frame_lost f n m (set_pc i pc S)"
  using assms by (simp add: frame_lost_def all_tokens_set_pc) (simp add: set_pc_def)

lemma handed_tokens:
  assumes "elsewhere f n (held pc)" and "\<And>a. r = Inr a \<Longrightarrow> elsewhere f n (ending_tokens a)"
  shows "elsewhere f n (image_mset guard_token (handed pc r))" and "elsewhere f n (held (next_pc r))"
  using assms by (cases "(pc, r)" rule: handed.cases; force simp: guard_token_def)+

lemma lost_run:
  assumes l: "frame_lost f n m S" and i: "i < length (threads S)" and run: "run_section clock_replacer i S = Some S'"
  shows "frame_lost f n m S'"
proof -
  have o: "out_of_reach f n m (sys_bm S)" and t: "elsewhere f n (held (threads S ! i))" "elsewhere f n (other_tokens i S)"
    and d: "page_ok (disk S p)" for p
    using l other_tokens_sub [OF i, of f n] by (auto simp: frame_lost_def)
  obtain c where c: "critical_section clock_replacer (threads S ! i) = Some c"
    using run by (auto simp: run_section_def Let_def split: if_splits option.splits)
  obtain r bm where bm: "c (sys_bm S) = (r, bm)" by fastforce
  have S': "S' = set_pc i (next_pc r) (S\<lparr>sys_bm := block i r bm, guards := guards S + handed (threads S ! i) r,
      unmarked := marks (unmarked S) (threads S ! i)\<rparr>)"
    using run by (auto simp: run_section_def Let_def c bm split: if_splits)
  have k: "out_of_reach f n m bm" "\<And>a. r = Inr a \<Longrightarrow> elsewhere f n (ending_tokens a)"
    using section_keeps [OF o t(1) c] by (auto simp: keeps_def bm)
  have b: "out_of_reach f n m (block i r bm)" using k(1) by (auto simp: block_def split: sum.splits ending.splits)
  show ?thesis
    unfolding S' using i t b d handed_tokens [OF t(1) k(2)]
    by (intro frame_lost_set_pc) (simp_all add: other_tokens_def ac_simps)
qed

lemma out_of_reach_put_content:
  assumes o: "out_of_reach f n m s" and g: "other_frame f n g" and c: "page_ok c"
  shows "out_of_reach f n m (put_content g c s)"
proof -
  let ?fa = "frame_allocator s" and ?fa' = "frame_allocator (put_content g c s)"
  have al: "allocated ?fa' = allocated ?fa" by (simp add: put_content_def allocated_def)
  have "\<forall>pg \<in> set ((frames ?fa)[unat g := c]). page_ok pg"
    using out_of_reach_parts(1) [OF o] c set_update_subset_insert [of "frames ?fa" "unat g"] by (auto simp: fa_inv_def)
  then have "fa_inv ?fa'" using out_of_reach_parts(1) [OF o] al by (simp add: put_content_def fa_inv_def)
  then show ?thesis using o al by (simp add: out_of_reach_def put_content_def)
qed

lemma lost_page_ok:
  assumes "out_of_reach f n m s" and "other_frame f n g"
  shows "page_ok (content_of s g)"
  using page_ok_frame [OF out_of_reach_parts(1) [OF assms(1)], of g] out_of_reach_parts(4) [OF assms(1)] assms(2)
  by (simp add: content_of_def other_frame_def)

text \<open>A page read or write, whole or in part.\<close>

lemma lost_transfer:
  assumes l: "frame_lost f n m S" and i: "i < length (threads S)" and h: "elsewhere f n (held pc)"
  shows "frame_lost f n m (set_pc i pc S)"
    and "other_frame f n g \<Longrightarrow> frame_lost f n m (set_pc i pc (write_page p g S))"
    and "other_frame f n g \<Longrightarrow> frame_lost f n m (set_pc i pc (write_torn k p g S))"
    and "other_frame f n g \<Longrightarrow> page_ok c \<Longrightarrow> frame_lost f n m (set_pc i pc (fill_frame g c S))"
proof -
  have o: "out_of_reach f n m (sys_bm S)" and t: "elsewhere f n (other_tokens i S)" and d: "\<And>p. page_ok (disk S p)"
    using l other_tokens_sub [OF i, of f n] by (auto simp: frame_lost_def)
  show "frame_lost f n m (set_pc i pc S)" using i o h t d by (intro frame_lost_set_pc)
  assume g: "other_frame f n g"
  note c = lost_page_ok [OF o g]
  show "frame_lost f n m (set_pc i pc (write_page p g S))"
    using i o h t d c by (intro frame_lost_set_pc) (simp_all add: write_page_def)
  show "frame_lost f n m (set_pc i pc (write_torn k p g S))"
    using i o h t d page_ok_torn [OF c d] by (intro frame_lost_set_pc) (simp_all add: write_torn_def)
  assume "page_ok c"
  then show "frame_lost f n m (set_pc i pc (fill_frame g c S))"
    using i h t d out_of_reach_put_content [OF o g] by (intro frame_lost_set_pc) (simp_all add: fill_frame_def)
qed

lemma lost_io_ok:
  assumes l: "frame_lost f n m S" and i: "i < length (threads S)" and io: "io_ok i (threads S ! i) S = Some S'"
  shows "frame_lost f n m S'"
proof -
  have t: "elsewhere f n (held (threads S ! i))" and d: "\<And>p. page_ok (disk S p)"
    using l other_tokens_sub [OF i, of f n] by (auto simp: frame_lost_def)
  show ?thesis
    using io t d by (cases "threads S ! i") (auto intro!: lost_transfer [OF l i] split: if_splits)
qed

lemma lost_io_fail:
  assumes l: "frame_lost f n m S" and i: "i < length (threads S)" and io: "io_fail i (threads S ! i) x k c S = Some S'"
  shows "frame_lost f n m S'"
proof -
  have t: "elsewhere f n (held (threads S ! i))"
    using l other_tokens_sub [OF i, of f n] by (auto simp: frame_lost_def)
  show ?thesis
    using io t by (cases "threads S ! i") (auto intro!: lost_transfer [OF l i] split: if_splits)
qed

lemma lost_start:
  assumes l: "frame_lost f n m S" and i: "i < length (threads S)" "threads S ! i = Idle"
    and h: "held pc + image_mset guard_token G = image_mset guard_token (guards S)"
  shows "frame_lost f n m (set_pc i pc (S\<lparr>guards := G\<rparr>))"
proof -
  have "all_tokens (set_pc i pc (S\<lparr>guards := G\<rparr>)) = all_tokens S"
    using all_tokens_other [OF i(1)] all_tokens_set_pc [of i "S\<lparr>guards := G\<rparr>" pc] i h
    by (simp add: other_tokens_def ac_simps)
  then show ?thesis using l by (simp add: frame_lost_def) (simp add: set_pc_def)
qed

theorem lost_step:
  assumes l: "frame_lost f n m S" and st: "step clock_replacer lab S = Some S'"
  shows "frame_lost f n m S'"
proof (cases lab)
  case (Start i pc)
  then show ?thesis
    using st lost_start [OF l, of i pc "guards S"] by (cases pc) (auto split: if_splits)
next
  case (Start_drop i g)
  then show ?thesis
    using st lost_start [OF l, of i "Drop_enter (guard_page_id g) (guard_frame_id g)" "guards S - {#g#}"]
    by (auto simp: guard_token_def split: if_splits dest!: multi_member_split)
next
  case (Start_mark i g)
  then show ?thesis
    using st lost_start [OF l, of i "MarkDirty_enter (guard_page_id g) (guard_frame_id g)" "guards S - {#g#}"]
    by (auto simp: guard_token_def split: if_splits dest!: multi_member_split)
next
  case (Run i)
  then show ?thesis using st lost_run [OF l] by (auto split: if_splits)
next
  case (Io_ok i)
  then show ?thesis using st lost_io_ok [OF l] by (auto split: if_splits)
next
  case (Io_fail i x k c)
  then show ?thesis using st lost_io_fail [OF l] by (auto split: if_splits)
next
  case (Wakeup i)
  then show ?thesis using st l by (auto simp: frame_lost_def all_tokens_def)
next
  case (Client_write g c)
  then have g: "g \<in># guards S" "page_ok c"
      "S' = (fill_frame (guard_frame_id g) c S)\<lparr>unmarked := insert (guard_page_id g) (unmarked S)\<rparr>"
    using st by (auto split: if_splits)
  then have "guard_token g \<in># all_tokens S" by (simp add: all_tokens_def)
  then have "token_elsewhere f n (guard_token g)" using l by (simp add: frame_lost_def elsewhere_def)
  then have "other_frame f n (guard_frame_id g)" by (simp add: guard_token_def)
  then have "out_of_reach f n m (put_content (guard_frame_id g) c (sys_bm S))"
    using l g(2) by (intro out_of_reach_put_content) (simp_all add: frame_lost_def)
  then show ?thesis using l by (simp add: g(3) fill_frame_def frame_lost_def all_tokens_def)
qed

text \<open>Any further run, whether its clients keep to the rules or not: the steps without \<open>client_ok\<close>.\<close>

fun run_unchecked :: "label list \<Rightarrow> ClockReplacer system \<Rightarrow> ClockReplacer system option" where
  "run_unchecked [] S = Some S"
| "run_unchecked (l # ls) S = (case step clock_replacer l S of None \<Rightarrow> None | Some S' \<Rightarrow> run_unchecked ls S')"

lemma lost_for_ever: "frame_lost f n m S \<Longrightarrow> run_unchecked ls S = Some S' \<Longrightarrow> frame_lost f n m S'"
proof (induction ls arbitrary: S)
  case (Cons l ls)
  then show ?case using lost_step [of f n m S l] by (auto split: option.splits)
qed simp

subsection \<open>How a frame is lost\<close>

lemma DeletePage_creating:
  assumes g: "clock.good D U {} (add_mset (Creating p) R) s"
  shows "\<exists>s'. DeletePage clock_replacer p s = (Inr (Return None), s') \<and> clock.good D U {} R s' \<and>
    pe_state (entry_of s' p) = kUnused \<and> unat p < unat (max_page_count (page_table s')) \<and>
    content_of s' = content_of s \<and> state_changed s' = {}"
proof -
  have e: "entry_of s p = on_disk" using creating_entry [OF clock.goodD(2) [OF g], of p] by simp
  obtain t where t: "FreePageId p (page_table s) = (Inr (), t)" "pt_inv t"
      "max_page_count t = max_page_count (page_table s)" "page_entry t = (entry_of s)(p := no_entry)"
    using FreePageId_spec [OF clock.goodD(3) [OF g], of p] e by auto
  have st: "page_state p s = (Inr kNonResident, s)" using page_state_used [OF clock.goodD(3) [OF g], of p] e by simp
  have "clock.good D U {} R (s\<lparr>page_table := t\<rparr>)" using clock.good_entry(1) [OF g t(2-4), of R] e by simp
  moreover have "unat p < unat (max_page_count t)"
    using in_range_if_used [OF clock.goodD(3) [OF g], of p] e t(3) by simp
  moreover have "DeletePage clock_replacer p s = (Inr (Return None), s\<lparr>page_table := t, state_changed := {}\<rparr>)"
    by (simp add: DeletePage_def bindA_Inr [of "page_state p", OF st] thenA_Inr on_page_table_eval t(1))
  ultimately show ?thesis
    using t(4) clock.good_notify [of D U "{}" R "{}" "s\<lparr>page_table := t\<rparr>"]
    by (intro exI [where x = "s\<lparr>page_table := t, state_changed := {}\<rparr>"]) simp
qed

text \<open>A frame in the hands of a thread, just before it is given to a page that does not exist any more.\<close>

lemma taken_frame_elsewhere:
  assumes g: "clock.good D U {f} R s"
  shows "elsewhere f (length (frame_meta s)) R"
    and "pe_frame_id (entry_of s p) = Some h \<Longrightarrow> other_frame f (length (frame_meta s)) h"
proof -
  note tok = clock.goodD(2) [OF g]
  have free: "fm_state (meta_of s f) = kFree" using clock.binv_parts(8) [OF clock.goodD(1) [OF g]] by simp
  have o: "other_frame f (length (frame_meta s)) h" if "fm_state (meta_of s h) \<noteq> kFree" for h
    using that free meta_of_in_range [OF that] by (auto simp: other_frame_def)
  have "token_elsewhere f (length (frame_meta s)) t" if t: "t \<in># R" for t
    using t o pin_resident(1) [OF tok] duty_frame [OF tok] by (cases t) auto
  then show "elsewhere f (length (frame_meta s)) R" by (simp add: elsewhere_def)
  show "other_frame f (length (frame_meta s)) h" if "pe_frame_id (entry_of s p) = Some h"
    using o [of h] coherent_pageD(2) [OF clock.goodD(6) [OF g] that] by auto
qed

definition lost_meta :: "PageId \<Rightarrow> FrameMeta" where
  "lost_meta p = \<lparr>fm_page_id = Some p, pin_count = 1, dirty = True, dirty_epoch = 1, fm_state = kFrameResident\<rparr>"

lemma install_deleted_page:
  assumes g: "clock.good D U {f} R s" and p: "pe_state (entry_of s p) = kUnused" "unat p < unat (max_page_count (page_table s))"
  shows "\<exists>s' n. NewPage_install clock_replacer p f s = (Inl (logic_error ''cannot make an unused page resident''), s') \<and>
    out_of_reach f n (lost_meta p) s' \<and> elsewhere f n R \<and> entry_of s' = entry_of s \<and>
    max_page_count (page_table s') = max_page_count (page_table s)"
proof -
  obtain s0 where z: "on_allocator (update_page f (fill 0)) s = (Inr (), s0)" "clock.good D U {f} R s0"
      "entry_of s0 = entry_of s" "meta_of s0 = meta_of s"
    using clock.good_zero [OF g] by blast
  let ?s' = "put_meta f (lost_meta p) s0" and ?n = "length (frame_meta s0)"
  note b = clock.binv_parts [OF clock.goodD(1) [OF z(2)]]
  have mx: "page_table s0 = page_table s"
    using z(1) by (auto simp: on_allocator_def zoomA_def split: prod.splits)
  have f: "f \<in> allocated (frame_allocator s0)" "unat f < ?n" "f \<notin> tracked_frames (replacer s0)"
    using b(7) [of f] clock.binv_range [OF clock.goodD(1) [OF z(2)], of f] b(8,9) [of f] by auto
  have "entry_of s p \<noteq> loading f" using p(1) by auto
  then have "SetResident p f (page_table s0) = (Inl (logic_error ''cannot make an unused page resident''), page_table s0)"
    using SetResident_error [of "page_table s0" p f] b(2) p mx by auto
  then have "on_page_table (SetResident p f) ?s' = (Inl (logic_error ''cannot make an unused page resident''), ?s')"
    by (simp add: on_page_table_def zoomA_def)
  then have "NewPage_install clock_replacer p f s = (Inl (logic_error ''cannot make an unused page resident''), ?s')"
    by (simp add: NewPage_install_def thenA_Inr z(1) thenA_Inl lost_meta_def)
  moreover have "out_of_reach f ?n (lost_meta p) ?s'"
    using b(1-5) f taken_frame_elsewhere(2) [OF z(2)] by (simp add: out_of_reach_def)
  ultimately show ?thesis using taken_frame_elsewhere(1) [OF z(2)] z(3) mx by auto
qed

lemma creation_loses_frame:
  assumes g: "clock.good D U {} (add_mset (Evicting old f) R) s" and cl: "content_of s f = D old"
    and p: "pe_state (entry_of s p) = kUnused" "unat p < unat (max_page_count (page_table s))"
  shows "\<exists>s' n. NewPage_evicted clock_replacer p f old s = (Inl (logic_error ''cannot make an unused page resident''), s') \<and>
    out_of_reach f n (lost_meta p) s' \<and> elsewhere f n R"
proof -
  obtain s1 where s1: "finish_eviction f old s = (Inr (), s1)" "clock.good D U {f} R s1"
      "entry_of s1 = (entry_of s)(old := on_disk)" "moved R U U s s1"
    using clock.good_finish [OF g cl] by blast
  have "entry_of s old = evicting f" using duty_frame(2) [OF clock.goodD(2) [OF g], of old f] by simp
  then have "p \<noteq> old" using p(1) by auto
  then have p1: "pe_state (entry_of s1 p) = kUnused" "unat p < unat (max_page_count (page_table s1))"
    using p s1(3,4) by (auto simp: moved_def)
  obtain s2 n where s2: "NewPage_install clock_replacer p f s1 = (Inl (logic_error ''cannot make an unused page resident''), s2)"
      "out_of_reach f n (lost_meta p) s2" "elsewhere f n R" "entry_of s2 = entry_of s1"
      "max_page_count (page_table s2) = max_page_count (page_table s1)"
    using install_deleted_page [OF s1(2) p1] by blast
  have "page_state p s2 = (Inr kUnused, s2)"
    using page_state_eval [OF out_of_reach_parts(2) [OF s2(2)], of p] p1 s2(4,5) by simp
  then have "NewPage_catch p x s2 = (Inl x, s2\<lparr>state_changed := {}\<rparr>)" for x
    by (simp add: NewPage_catch_def bindA_Inr)
  then have "NewPage_evicted clock_replacer p f old s =
      (Inl (logic_error ''cannot make an unused page resident''), s2\<lparr>state_changed := {}\<rparr>)"
    by (simp add: NewPage_evicted_def AcquireFrameLocked_evicted_def catchA_def bindA_def thenA_def s1(1) s2(1))
  then show ?thesis using s2(2,3) by auto
qed

lemma eviction_written:
  assumes g: "clock.good D U {} (add_mset (Evicting old f) R) s"
  shows "clock.good (D(old := content_of s f)) U {} (add_mset (Evicting old f) R) s" and "page_ok (content_of s f)"
proof -
  note d = duty_frame(2) [OF clock.goodD(2) [OF g], of old f, simplified]
  show "clock.good (D(old := content_of s f)) U {} (add_mset (Evicting old f) R) s"
    using tok_disk [OF clock.goodD(2) [OF g], of old f "content_of s f"] clock.goodD(1) [OF g] d by (simp add: bm_good_def)
  show "page_ok (content_of s f)" using clock.content_ok [OF g, of f] d by simp
qed

lemma deletion_loses_frame:
  assumes inv: "clock.sinv S" and i: "i < length (threads S)" "threads S ! i = Evict_write (ForNewPage p) f old d e"
    and j: "j < length (threads S)" "threads S ! j = Idle"
  shows "\<exists>S1 c S2 n. run_unchecked [Start j (DeletePage_enter p), Run j, Io_ok i] S = Some S1 \<and>
    critical_section clock_replacer (threads S1 ! i) = Some c \<and>
    fst (c (sys_bm S1)) = Inl (logic_error ''cannot make an unused page resident'') \<and>
    step clock_replacer (Run i) S1 = Some S2 \<and> threads S2 = (threads S)[i := Idle] \<and> guards S2 = guards S \<and>
    frame_lost f n (lost_meta p) S2"
proof -
  let ?R = "other_tokens i S"
  have ij: "i \<noteq> j" using i(2) j(2) by auto
  have "all_tokens S = add_mset (Creating p) (add_mset (Evicting old f) ?R)"
    using all_tokens_other [OF i(1)] i(2) by (simp add: add_mset_commute)
  then have g: "clock.good (disk S) (unmarked S) {} (add_mset (Creating p) (add_mset (Evicting old f) ?R)) (sys_bm S)"
    using clock.sinvD(1) [OF inv] by simp
  obtain s1 where s1: "DeletePage clock_replacer p (sys_bm S) = (Inr (Return None), s1)"
      "clock.good (disk S) (unmarked S) {} (add_mset (Evicting old f) ?R) s1" "pe_state (entry_of s1 p) = kUnused"
      "unat p < unat (max_page_count (page_table s1))" "state_changed s1 = {}"
    using DeletePage_creating [OF g] by blast
  note w = eviction_written [OF s1(2)]
  obtain s2 n where s2: "NewPage_evicted clock_replacer p f old s1 =
        (Inl (logic_error ''cannot make an unused page resident''), s2)"
      "out_of_reach f n (lost_meta p) s2" "elsewhere f n ?R"
    using creation_loses_frame [OF w(1) _ s1(3,4)] by auto
  have nj: "j \<notin> state_changed (sys_bm S)" using clock.not_blocked [OF inv, of j] j by simp
  define D where "D = (if d then (disk S)(old := content_of s1 f) else disk S)"
  define S1 where "S1 = S\<lparr>sys_bm := s1, disk := D, threads := (threads S)[i := Evict_done (ForNewPage p) f old]\<rparr>"
  define S2 where "S2 = S\<lparr>sys_bm := s2, disk := D, threads := (threads S)[i := Idle]\<rparr>"
  have upd: "(threads S)[j := Idle] = threads S" using list_update_id [of "threads S" j] j(2) by simp
  have run: "run_unchecked [Start j (DeletePage_enter p), Run j, Io_ok i] S = Some S1"
    using i j ij nj s1(1)
    by (simp add: run_section_def set_pc_def block_def upd write_page_def S1_def D_def)
  have st: "step clock_replacer (Run i) S1 = Some S2"
    using i(1) s1(5) s2(1) by (simp add: run_section_def set_pc_def block_def S1_def S2_def)
  have "other_tokens i S2 = ?R" by (simp add: other_tokens_def S2_def)
  then have "elsewhere f n (all_tokens S2)" using all_tokens_other [of i S2] i(1) s2(3) by (simp add: S2_def)
  moreover have "page_ok (D q)" for q using clock.sinvD(5) [OF inv] w(2) by (simp add: D_def)
  ultimately have "frame_lost f n (lost_meta p) S2" using s2(2) by (simp add: frame_lost_def) (simp add: S2_def)
  moreover have "critical_section clock_replacer (threads S1 ! i) = Some (NewPage_evicted clock_replacer p f old)"
    using i(1) by (simp add: S1_def)
  ultimately show ?thesis
    using run st s2(1) by (intro exI conjI) (assumption | simp add: S1_def S2_def)+
qed

text \<open>What a lost frame is to everyone else.\<close>

lemma frame_lostD:
  assumes "frame_lost f n m S"
  shows "f \<in> allocated (frame_allocator (sys_bm S))" and "f \<notin> tracked_frames (replacer (sys_bm S))"
    and "meta_of (sys_bm S) f = m" and "pe_frame_id (entry_of (sys_bm S) q) \<noteq> Some f"
    and "Pin q f \<notin># all_tokens S" and "Loading q f \<notin># all_tokens S" and "Evicting q f \<notin># all_tokens S"
  using assms by (auto simp: frame_lost_def out_of_reach_def other_frame_def elsewhere_def)

end
