(* ===== verification/Spec2Isabelle.thy ===== *)
theory Spec2Isabelle
  imports Example_Storage Page_Guard Async_System Lost_Frame
begin

text \<open>
  The buffer manager of the repository: a cache of 4096-byte pages in memory over one database file.
  Sources are under \<^verbatim>\<open>src/include/buffer_manager\<close> and \<^verbatim>\<open>src/src\<close>; the Linux build on a little-endian
  machine is modelled.

  \<^bold>\<open>The program.\<close> A \<^verbatim>\<open>BufferManager\<close> owns a \<^verbatim>\<open>FrameAllocator\<close> (which frames of memory are in use), a
  \<^verbatim>\<open>PageTable\<close> (the state of every page identifier and the frame it is in), a \<^verbatim>\<open>Replacer\<close> (which frame to
  evict), metadata of each frame, a \<^verbatim>\<open>DiskManager\<close> (the file) and an \<^verbatim>\<open>AsyncExecutor\<close> (worker threads).
  One mutex protects all of it except the file; it is released while a page is read or written, and
  while a thread waits on the condition variable \<^verbatim>\<open>state_changed_\<close>. Clients hold pages by
  \<^verbatim>\<open>PageGuard\<close> objects, each of which owns one pin.

  \<^bold>\<open>The theories, bottom up.\<close>
  \<^item> \<^verbatim>\<open>BM_Prelude\<close>: exceptions as values, code that changes a state and may throw as functions
    \<^verbatim>\<open>'s => (exn + 'a) * 's\<close>, the types of \<^verbatim>\<open>types.h\<close> and \<^verbatim>\<open>page.h\<close>, shared lemmas.
  \<^item> \<^verbatim>\<open>Id_Pool\<close>: the contract that the frame allocator and the page table share, as locales
    \<^verbatim>\<open>id_source\<close> and \<^verbatim>\<open>id_pool\<close>, with what follows for clients; interpreted as \<^verbatim>\<open>frame_pool\<close>
    and \<^verbatim>\<open>page_id_pool\<close>.
  \<^item> \<^verbatim>\<open>Frame_Allocator\<close> (\<^verbatim>\<open>page/frame_allocator.cc\<close>): the bit map of 64-bit words with its
    wrapping scan; shown to be a set of frames.
  \<^item> \<^verbatim>\<open>Page_Table\<close> (\<^verbatim>\<open>page/page_table.cc\<close>): entries, the list of free identifiers, every error
    branch; shown to follow a state machine per page.
  \<^item> \<^verbatim>\<open>Replacer_Interface\<close> (\<^verbatim>\<open>replacement/replacer.h\<close>): the virtual functions as a record and their
    contract as the locale \<^verbatim>\<open>replacer_contract\<close>. All of the buffer manager's invariants are shown under
    this contract; \<^verbatim>\<open>Clock_Replacer\<close> (\<^verbatim>\<open>clock_replacer.cc\<close>) interprets it as \<^verbatim>\<open>clock\<close>, and shows which
    frame the second chance rule picks.
  \<^item> \<^verbatim>\<open>Async_Executor\<close> (\<^verbatim>\<open>buffer_manager.cc\<close>, class \<^verbatim>\<open>AsyncExecutor\<close>): workers, queue, notifications
    and shutdown as a step relation.
  \<^item> \<^verbatim>\<open>Posix_File\<close>, \<^verbatim>\<open>Disk_Manager\<close> (\<^verbatim>\<open>storage/disk_manager.cc\<close>), \<^verbatim>\<open>Disk_Correctness\<close>,
    \<^verbatim>\<open>Disk_Pages\<close>, \<^verbatim>\<open>Disk_Open\<close>, \<^verbatim>\<open>Disk_Properties\<close>: the operating system calls as a parameter, each
    function of the disk manager, and the file as an array of pages behind a header.
  \<^item> \<^verbatim>\<open>Buffer_Manager\<close> (\<^verbatim>\<open>buffer_manager.cc\<close>): one definition per critical section, that is, per stretch
    of an operation between two places where the mutex is taken or given up; \<^verbatim>\<open>pc\<close> names these places.
    A section ends by returning, waiting or unlocking (\<^verbatim>\<open>ending\<close>), or throws.
  \<^item> \<^verbatim>\<open>Buffer_Invariant\<close>, \<^verbatim>\<open>Buffer_Ownership\<close>, \<^verbatim>\<open>Buffer_Sections\<close>, \<^verbatim>\<open>Buffer_Threads\<close>: the invariant
    of the data; tokens for pins and for duties (to finish a load, an eviction, a creation); what each
    section does to both, and to the contents of the pages.
  \<^item> \<^verbatim>\<open>Buffer_System\<close>, \<^verbatim>\<open>Buffer_Correctness\<close>: any number of threads at their places, the file as a
    map from pages, the guards of the clients; the steps are interleaved critical sections, page
    transfers, spurious wake-ups and writes by clients. Reachable states satisfy the invariant.
  \<^item> \<^verbatim>\<open>Storage_System\<close>: the same system with \<^verbatim>\<open>ReadPage\<close> and \<^verbatim>\<open>WritePage\<close> on a real file; every run
    of it is a run of the system above. \<^verbatim>\<open>Sync\<close> is here.
  \<^item> \<^verbatim>\<open>Page_Guard\<close>: guard objects, their moves and destructor; the pins that guards own and the pin
    counts of the buffer manager stay in balance, frame by frame.
  \<^item> \<^verbatim>\<open>Async_System\<close>: the executor's workers as threads of the system: the asynchronous calls submit
    tasks, a worker that takes one enters the operation of the task and comes back when it has ended;
    compared with the synchronous operation each call stands for.
  \<^item> \<^verbatim>\<open>Lost_Frame\<close>: what happens without the first rule for clients below: an invariant that says that
    a frame is out of reach, kept by every step of every client.
  \<^item> \<^verbatim>\<open>Example_File\<close>, \<^verbatim>\<open>Example_Run\<close>, \<^verbatim>\<open>Example_Storage\<close>: a small operating system and a run with one
    frame, to which the theorems are applied.

  \<^bold>\<open>What is shown.\<close> The cache is transparent: each step does to the contents of pages what its
  operation promises, and evictions, flushes and failed transfers do nothing to them. The four records of
  who is where agree; guards pin their pages; a page is loaded or evicted by one thread at a time; waiting
  threads wait for pages whose owners can go on; frames are not lost; only documented exceptions are thrown;
  clean pages are in the file, down to its bytes, and after \<^verbatim>\<open>Sync\<close> they survive a crash. Each component implements its abstract specification.

  \<^bold>\<open>Assumptions.\<close>
  \<^item> On the operating system: \<^verbatim>\<open>posix_file\<close>, the documented behaviour of the calls on the file a descriptor
    is open on, with short and failing transfers; for the return of transfers \<^verbatim>\<open>interrupts_end\<close>, that only
    finitely many signals interrupt them; for crashes \<^verbatim>\<open>crash_keeps_synced\<close>, that a file keeps its content
    after \<^verbatim>\<open>fdatasync\<close> if the directory still names it, which the code never asks for: it does not
    synchronise the directory of a new file. \<^verbatim>\<open>toy_posix\<close> meets all of them.
  \<^item> On the clients (\<^verbatim>\<open>client_ok\<close>, \<^verbatim>\<open>pc_pre\<close>): nobody fetches or deletes the page of a \<^verbatim>\<open>NewPage\<close> that has
    not returned; the last guard of a page is not dropped while writes made through it are not marked
    dirty; a flush does not find a frame with 2^32 - 1 pins, and a page is not marked dirty 2^64 - 1 times
    while it is in memory. The first one is needed: without it a frame can be lost for ever
    (\<^verbatim>\<open>deletion_during_creation_leaks_a_frame\<close>). The third is a missing check in \<^verbatim>\<open>FlushPage\<close>.
  \<^item> A page transfer is one step of the system, so that a client that writes to a page while it is being
    written out, which is a data race in C++, is before or after it.

  \<^bold>\<open>Termination.\<close> The scans of the allocator and the replacer are functions that count their probes as the
  loops do, up to the number of words and, in each of two passes, the number of frames. The retry loops of the disk
  manager are partial functions into options: \<^verbatim>\<open>None\<close> is a call that never returns, and they are shown to
  return. The loops of \<^verbatim>\<open>FetchPage\<close>, \<^verbatim>\<open>FlushPage\<close> and \<^verbatim>\<open>AcquireFrameLocked\<close> are places a thread
  comes back to after a wait.

  \<^bold>\<open>Not modelled.\<close> Tests and benchmarks; the Apple branches; failing memory allocation and thread
  creation; the values of futures (the result of an operation is that of its task); \<^verbatim>\<open>std::filesystem\<close>
  paths beyond their text; the destructor of the buffer manager beyond the join of the workers and the closing
  of the file, which is what the destructors of its members do.
\<close>

subsection \<open>A buffer manager with a clock replacer, its threads and its file\<close>

lemma reachable_good:
  assumes "clock_reachable opts n D S"
  shows "clock.sinv S"
    and "clock.good (disk S) (unmarked S) {} (all_tokens S) (sys_bm S)"
    and "clock.binv {} (sys_bm S)"
    and "tok_inv (disk S) (unmarked S) (all_tokens S) (meta_of (sys_bm S)) (entry_of (sys_bm S)) (content_of (sys_bm S))"
  using clock_reachable_inv [OF assms] clock.sinvD(1) clock.goodD(1,2) unfolding clock_system_inv_def by blast+

text \<open>C1: every step of the system does to the contents of the pages what its operation promises and
  nothing else: a \<^verbatim>\<open>NewPage\<close> that returns adds a page of zeros under an identifier that had
  none, a \<^verbatim>\<open>FetchPage\<close> that returns gives a guard of the page asked for, a
  \<^verbatim>\<open>DeletePage\<close> that returns removes the page, a write through a guard changes that page; any
  other step, in particular every eviction, page read, page write (also one that fails halfway),
  flush and exception, leaves the contents of all pages alone.\<close>

theorem caching_is_transparent:
  assumes "clock_reachable opts n D S" and "client_ok S l" and "step clock_replacer l S = Some S'"
  shows "label_effect clock_replacer S l (system_contents S) (system_contents S')"
  using clock.step_progress [OF reachable_good(1) [OF assms(1)] assms(2,3)] by blast

theorem caching_is_transparent_witness:
  "\<exists>S S'. clock_reachable ex_opts 2 ex_disk S \<and> step clock_replacer (Client_write ex_guard zero_page) S = Some S' \<and>
     system_contents S' = (system_contents S)(0 := Some zero_page)"
proof -
  obtain S where S: "clock_reachable ex_opts 2 ex_disk S" "guards S = {#ex_guard#}"
    using ex_pinned_state by blast
  have st: "step clock_replacer (Client_write ex_guard zero_page) S =
      Some ((fill_frame 0 zero_page S)\<lparr>unmarked := insert 0 (unmarked S)\<rparr>)"
    using S(2) by (simp add: ex_guard_def)
  have "system_contents ((fill_frame 0 zero_page S)\<lparr>unmarked := insert 0 (unmarked S)\<rparr>) =
      (system_contents S)(0 := Some zero_page)"
    using caching_is_transparent [OF S(1) _ st] by (simp add: ex_guard_def)
  then show ?thesis using S(1) st by blast
qed

text \<open>C2: the allocator, the page table, the replacer and the frame metadata agree: the allocated
  frames are those that are not free, the replacer knows exactly the resident frames and may evict
  exactly the resident frames that nobody has pinned, and the page table says that page \<open>p\<close> is
  in frame \<open>f\<close> exactly if the metadata of frame \<open>f\<close> says that it holds page \<open>p\<close>.\<close>

theorem bookkeeping_agrees:
  assumes "clock_reachable opts n D S"
  shows "(f \<in> allocated (frame_allocator (sys_bm S)) \<longleftrightarrow> fm_state (meta_of (sys_bm S) f) \<noteq> kFree) \<and>
    (f \<in> tracked_frames (replacer (sys_bm S)) \<longleftrightarrow> fm_state (meta_of (sys_bm S) f) = kFrameResident) \<and>
    (f \<in> evictable_frames (replacer (sys_bm S)) \<longleftrightarrow>
      fm_state (meta_of (sys_bm S) f) = kFrameResident \<and> pin_count (meta_of (sys_bm S) f) = 0) \<and>
    (pe_frame_id (entry_of (sys_bm S) p) = Some f \<longleftrightarrow> fm_page_id (meta_of (sys_bm S) f) = Some p)"
proof -
  note b = clock.binv_parts(6,7,9,10) [OF reachable_good(3) [OF assms]]
  have "pe_frame_id (entry_of (sys_bm S) p) = Some f" if m: "fm_page_id (meta_of (sys_bm S) f) = Some p"
  proof -
    have "fm_state (meta_of (sys_bm S) f) \<noteq> kFree" using coherent_frameD(1) [OF b(1), of f] m by auto
    then show ?thesis
      using coherent_frameD(2-4) [OF b(1), of f] m by (cases "fm_state (meta_of (sys_bm S) f)") auto
  qed
  then show ?thesis using b coherent_pageD(1) [OF b(1)] by auto
qed

theorem bookkeeping_agrees_witness:
  "\<exists>S. clock_reachable ex_opts 2 ex_disk S \<and> guards S = {#ex_guard#} \<and>
    (0 \<in> tracked_frames (replacer (sys_bm S)) \<longleftrightarrow> fm_state (meta_of (sys_bm S) 0) = kFrameResident)"
proof -
  obtain S where "clock_reachable ex_opts 2 ex_disk S" "guards S = {#ex_guard#}"
    using ex_pinned_state by blast
  then show ?thesis using bookkeeping_agrees [of ex_opts 2 ex_disk S 0] by blast
qed

text \<open>C3: while a client holds a guard, its page stays in the frame the guard names, the frame is
  allocated and cannot be chosen as a victim, the pin count is the number of pins held by guards and
  by threads, and what the client sees in the frame is the content of the page.\<close>

theorem guard_pins_its_page:
  assumes "clock_reachable opts n D S" and "g \<in># guards S"
  shows "entry_of (sys_bm S) (guard_page_id g) = resident (guard_frame_id g) \<and>
    guard_frame_id g \<in> allocated (frame_allocator (sys_bm S)) \<and>
    guard_frame_id g \<notin> evictable_frames (replacer (sys_bm S)) \<and>
    unat (pin_count (meta_of (sys_bm S) (guard_frame_id g))) = pins (all_tokens S) (guard_frame_id g) \<and>
    system_contents S (guard_page_id g) = Some (content_of (sys_bm S) (guard_frame_id g))"
  using clock.guard_valid [OF reachable_good(1) [OF assms(1)] assms(2)] by blast

theorem guard_pins_its_page_witness:
  "\<exists>S. clock_reachable ex_opts 2 ex_disk S \<and> ex_guard \<in># guards S \<and> entry_of (sys_bm S) 0 = resident 0"
proof -
  obtain S where S: "clock_reachable ex_opts 2 ex_disk S" "ex_guard \<in># guards S"
    using ex_pinned_state by fastforce
  then show ?thesis using guard_pins_its_page [OF S] by (auto simp: ex_guard_def)
qed

text \<open>C4: no deadlock and no lost wake-up: a thread is blocked on \<^verbatim>\<open>state_changed_\<close> only while
  a page it waits for is still being loaded or evicted (the page of its operation, or, when it needs a
  frame, any page), and each such page has an owner: another thread, not blocked, that has the duty to
  finish the load or the eviction of this very page and can take its next step.\<close>

theorem blocked_thread_is_not_stuck:
  assumes "clock_reachable opts n D S" and "i \<in> state_changed (sys_bm S)"
  shows "(\<exists>p. awaits (threads S ! i) p \<and> transient (entry_of (sys_bm S) p)) \<and>
    (\<forall>p. awaits (threads S ! i) p \<and> transient (entry_of (sys_bm S) p) \<longrightarrow>
      (\<exists>j f S'. j < length (threads S) \<and> j \<noteq> i \<and> j \<notin> state_changed (sys_bm S) \<and>
        (Loading p f \<in># held (threads S ! j) \<and> entry_of (sys_bm S) p = loading f \<or>
         Evicting p f \<in># held (threads S ! j) \<and> entry_of (sys_bm S) p = evicting f) \<and>
        (step clock_replacer (Run j) S = Some S' \<or> step clock_replacer (Io_ok j) S = Some S')))"
proof (intro conjI allI impI)
  note inv = reachable_good(1) [OF assms(1)]
  show "\<exists>p. awaits (threads S ! i) p \<and> transient (entry_of (sys_bm S) p)"
    using clock.sinvD(3) [OF inv assms(2)] waits_awaits by blast
  fix p assume "awaits (threads S ! i) p \<and> transient (entry_of (sys_bm S) p)"
  then show "\<exists>j f S'. j < length (threads S) \<and> j \<noteq> i \<and> j \<notin> state_changed (sys_bm S) \<and>
        (Loading p f \<in># held (threads S ! j) \<and> entry_of (sys_bm S) p = loading f \<or>
         Evicting p f \<in># held (threads S ! j) \<and> entry_of (sys_bm S) p = evicting f) \<and>
        (step clock_replacer (Run j) S = Some S' \<or> step clock_replacer (Io_ok j) S = Some S')"
    using clock.transient_owner_steps [OF inv, of p] assms(2) by blast
qed

theorem blocked_thread_is_not_stuck_witness:
  "\<exists>S p j f. clock_reachable ex_opts 2 ex_disk S \<and> 1 \<in> state_changed (sys_bm S) \<and> awaits (threads S ! 1) p \<and> j \<noteq> 1 \<and>
    (Loading p f \<in># held (threads S ! j) \<and> entry_of (sys_bm S) p = loading f \<or>
     Evicting p f \<in># held (threads S ! j) \<and> entry_of (sys_bm S) p = evicting f)"
proof -
  obtain S where S: "clock_reachable ex_opts 2 ex_disk S" "1 \<in> state_changed (sys_bm S)"
    using ex_blocked_state by blast
  then show ?thesis using blocked_thread_is_not_stuck [OF S] by blast
qed

text \<open>C6: the only exceptions a critical section throws are the documented ones of its operation: an
  invalid or unused page, no frame, no page identifier, too many pins, a pinned page, or the input or
  output error that was reported to it. None of the internal consistency checks ever fires.\<close>

theorem only_documented_exceptions:
  assumes "clock_reachable opts n D S" and "client_ok S (Run i)" and "i < length (threads S)"
    and "i \<notin> state_changed (sys_bm S)" and "critical_section clock_replacer (threads S ! i) = Some m"
    and "m (sys_bm S) = (Inl e, bm)"
  shows "e \<in> errors (threads S ! i)"
proof -
  have "\<exists>S'. run_section clock_replacer i S = Some S'"
    using assms(4-6) by (simp add: run_section_def Let_def)
  then show ?thesis
    using clock.step_run [OF reachable_good(1) [OF assms(1)] assms(2,3)] assms(5,6) by auto
qed

theorem only_documented_exceptions_witness:
  "\<exists>S e bm. clock_reachable ex_opts 2 ex_disk S \<and> FetchPage clock_replacer 0 (sys_bm S) = (Inl e, bm) \<and>
     e \<in> fetch_errors"
proof -
  obtain S0 where S0: "ex_start = Some S0"
      "threads S0 = [Idle, Idle] \<and> state_changed (sys_bm S0) = {} \<and> other_tokens 0 S0 = {#} \<and>
       fst (FetchPage clock_replacer 0 (sys_bm S0)) = Inl (logic_error ''cannot fetch an unused page'')"
    using ex_start_facts by (auto simp: holds_after_def split: option.splits)
  let ?S = "set_pc 0 (FetchPage_enter 0) S0"
  have st: "step clock_replacer (Start 0 (FetchPage_enter 0)) S0 = Some ?S" using S0(2) by simp
  have r: "clock_reachable ex_opts 2 ex_disk ?S"
    using ex_reaches_start S0(1) clock_reachable_step [OF _ _ st] by (simp add: ex_reaches_def)
  have f: "FetchPage clock_replacer 0 (sys_bm ?S) =
      (Inl (logic_error ''cannot fetch an unused page''), snd (FetchPage clock_replacer 0 (sys_bm ?S)))"
    using S0(2) by (simp add: set_pc_def prod_eq_iff)
  have "logic_error ''cannot fetch an unused page'' \<in> errors (threads ?S ! 0)"
    by (rule only_documented_exceptions [OF r, of 0 "FetchPage clock_replacer 0" _ "snd (FetchPage clock_replacer 0 (sys_bm ?S))"])
      (use S0(2) f in \<open>simp_all add: set_pc_def other_tokens_def thread_tokens_def\<close>)
  then have "logic_error ''cannot fetch an unused page'' \<in> fetch_errors" using S0(2) by (simp add: set_pc_def)
  then show ?thesis using r f by blast
qed

lemma DropPageGuard_returns: "DropPageGuard R p f s = (Inr x, s') \<Longrightarrow> x = Return None"
  by (auto simp: DropPageGuard_def thenA_def bindA_def split: if_splits prod.splits sum.splits)

text \<open>Dropping a valid guard never throws, so that \<^verbatim>\<open>~PageGuard\<close> never calls
  \<^verbatim>\<open>std::terminate\<close>.\<close>

theorem dropping_a_guard_never_fails:
  assumes "clock_reachable opts n D S" and "i < length (threads S)" and "threads S ! i = Drop_enter p f"
  shows "\<exists>bm. DropPageGuard clock_replacer p f (sys_bm S) = (Inr (Return None), bm)"
proof -
  have nb: "i \<notin> state_changed (sys_bm S)"
    using clock.not_blocked [OF reachable_good(1) [OF assms(1)]] assms(3) by simp
  obtain r bm where rb: "DropPageGuard clock_replacer p f (sys_bm S) = (r, bm)" by fastforce
  have run: "\<exists>S'. run_section clock_replacer i S = Some S'"
    using nb assms(3) rb by (simp add: run_section_def)
  have ok: "client_ok S (Run i)" using assms(3) by simp
  have "ending_ok (disk S) (unmarked S) (Op_Drop p f) {} r bm"
    using clock.step_run [OF reachable_good(1) [OF assms(1)] ok assms(2)] run assms(3) rb by auto
  then obtain x where x: "r = Inr x" by (cases r) auto
  then have "x = Return None" using rb DropPageGuard_returns by blast
  then show ?thesis using rb x by blast
qed

theorem dropping_a_guard_never_fails_witness:
  "\<exists>S bm. clock_reachable ex_opts 2 ex_disk S \<and> threads S ! 0 = Drop_enter 0 0 \<and>
     DropPageGuard clock_replacer 0 0 (sys_bm S) = (Inr (Return None), bm)"
proof -
  obtain S where S: "clock_reachable ex_opts 2 ex_disk S" "threads S = [Idle, Idle]" "guards S = {#ex_guard#}" "unmarked S = {}"
    using ex_pinned_state by blast
  let ?T = "set_pc 0 (Drop_enter 0 0) (S\<lparr>guards := {#}\<rparr>)"
  have st: "step clock_replacer (Start_drop 0 ex_guard) S = Some ?T"
    using S by (simp add: ex_guard_def)
  have r: "clock_reachable ex_opts 2 ex_disk ?T"
    using clock_reachable_step [OF S(1) _ st] S(4) by simp
  have t: "0 < length (threads ?T)" "threads ?T ! 0 = Drop_enter 0 0" using S(2) by (simp_all add: set_pc_def)
  show ?thesis using dropping_a_guard_never_fails [OF r t] r t(2) by blast
qed

text \<open>C5: when no thread is active and no guard is left, no frame is lost: every allocated frame holds
  a resident page and can be evicted, nobody waits, and no page is being loaded or evicted.\<close>

theorem no_frame_is_leaked:
  assumes "clock_reachable opts n D S" and "\<forall>pc \<in> set (threads S). pc = Idle" and "guards S = {#}"
  shows "evictable_frames (replacer (sys_bm S)) = allocated (frame_allocator (sys_bm S)) \<and>
    allocated (frame_allocator (sys_bm S)) = {f. \<exists>p. entry_of (sys_bm S) p = resident f} \<and>
    state_changed (sys_bm S) = {} \<and>
    (\<forall>p. pe_state (entry_of (sys_bm S) p) \<in> {kUnused, kNonResident, kResident})"
  using clock.quiet_state [OF reachable_good(1) [OF assms(1)] assms(2,3)] by blast

theorem no_frame_is_leaked_witness:
  "\<exists>S. clock_reachable ex_opts 2 ex_disk S \<and>
     evictable_frames (replacer (sys_bm S)) = allocated (frame_allocator (sys_bm S))"
proof -
  obtain S where S: "clock_reachable ex_opts 2 ex_disk S" "threads S = [Idle, Idle]" "guards S = {#}"
    using ex_quiet_state by blast
  then show ?thesis using no_frame_is_leaked [OF S(1)] by auto
qed

text \<open>C7: a page is read in, or evicted, by at most one thread at a time: while its entry says that it
  is loading into a frame, or being evicted from one, exactly one thread has the duty to finish that,
  and otherwise none has.\<close>

theorem single_flight:
  assumes "clock_reachable opts n D S"
  shows "count (thread_tokens (threads S)) (Loading p f) = (if entry_of (sys_bm S) p = loading f then 1 else 0) \<and>
    count (thread_tokens (threads S)) (Evicting p f) = (if entry_of (sys_bm S) p = evicting f then 1 else 0)"
proof -
  note tok = tok_invD(1,3) [OF reachable_good(4) [OF assms]]
  have g: "count (all_tokens S) t = count (thread_tokens (threads S)) t" if "\<And>q h. t \<noteq> Pin q h" for t
  proof -
    have "t \<notin># image_mset guard_token (guards S)" using that by (auto simp: guard_token_def)
    then show ?thesis by (simp add: all_tokens_def count_eq_zero_iff)
  qed
  note loading_iff [OF tok(1), of f p] evicting_iff [OF tok(1), of f p]
  then show ?thesis
    using tok(2) g [of "Loading p f"] g [of "Evicting p f"] by (simp add: duties_agree_def)
qed

theorem single_flight_witness:
  "\<exists>S. clock_reachable ex_opts 2 ex_disk S \<and> entry_of (sys_bm S) 0 = evicting 0 \<and>
     count (thread_tokens (threads S)) (Evicting 0 0) = 1"
proof -
  obtain S where S: "clock_reachable ex_opts 2 ex_disk S"
      "threads S = [Evict_write (ForNewPage 1) 0 0 True 1, NewPage_retry 2]"
    using ex_blocked_state by blast
  have c: "count (thread_tokens (threads S)) (Evicting 0 0) = 1" by (simp add: S(2) thread_tokens_def)
  have "count (thread_tokens (threads S)) (Evicting 0 0) = (if entry_of (sys_bm S) 0 = evicting 0 then 1 else 0)"
    using single_flight [OF S(1)] by blast
  then have "entry_of (sys_bm S) 0 = evicting 0" using c by presburger
  then show ?thesis using S(1) c by blast
qed

text \<open>C8: the file has what the pages contain, except for pages that are dirty, written to and not
  yet marked dirty, or just being evicted. With the clean state of \<^verbatim>\<open>FlushAllPages\<close> in a
  quiet system: all of them.\<close>

theorem clean_pages_are_on_disk:
  assumes "clock_reachable opts n D S" and "system_contents S p = Some c"
    and "\<forall>f. entry_of (sys_bm S) p = resident f \<longrightarrow> \<not> dirty (meta_of (sys_bm S) f) \<and> p \<notin> unmarked S"
    and "\<forall>f. entry_of (sys_bm S) p \<noteq> evicting f"
  shows "disk S p = c"
  using clock.clean_page_on_disk [OF reachable_good(1) [OF assms(1)] assms(2)] assms(3,4) by blast

theorem clean_pages_are_on_disk_witness:
  "\<exists>S c. clock_reachable ex_opts 2 ex_disk S \<and> system_contents S 0 = Some c \<and> disk S 0 = c"
proof -
  obtain S where S: "clock_reachable ex_opts 2 ex_disk S" "guards S = {#ex_guard#}" "unmarked S = {}"
      "\<not> dirty (meta_of (sys_bm S) 0)"
    using ex_clean_state by blast
  have g: "entry_of (sys_bm S) 0 = resident 0" "system_contents S 0 = Some (content_of (sys_bm S) 0)"
    using clock.guard_valid(1,2) [OF reachable_good(1) [OF S(1)], of ex_guard] S(2) by (simp_all add: ex_guard_def)
  have "disk S 0 = content_of (sys_bm S) 0"
    by (rule clean_pages_are_on_disk [OF S(1) g(2)]) (use g(1) S in auto)
  then show ?thesis using S(1) g(2) by blast
qed

text \<open>C9: a flush that is not overtaken makes its page durable: when \<^verbatim>\<open>FlushPage\<close> comes back
  after a successful write, and the page was neither marked dirty since nor written to, the frame is
  clean and the file has the content of the page.\<close>

theorem flush_makes_durable:
  assumes "clock_reachable opts n D S" and "i < length (threads S)" and "threads S ! i = Flush_done p f e rest"
    and "dirty_epoch (meta_of (sys_bm S) f) = e" and "p \<notin> unmarked S"
    and "step clock_replacer (Run i) S = Some S'"
  shows "\<not> dirty (meta_of (sys_bm S') f) \<and> entry_of (sys_bm S') p = resident f \<and>
    system_contents S' p = Some (disk S' p)"
proof -
  let ?s = "sys_bm S" and ?R = "other_tokens i S"
  have inv: "clock.sinv S" by (rule reachable_good [OF assms(1)])
  have mem: "threads S ! i \<in> set (threads S)" using assms(2) by simp
  have g: "clock.good (disk S) (unmarked S) {} (add_mset (Pin p f) ?R) ?s"
    using reachable_good(2) [OF assms(1)] all_tokens_other [OF assms(2)] assms(3) by simp
  have c: "content_of ?s f = disk S p" using clock.sinvD(2) [OF inv mem] assms(3-5) by auto
  note pr = pin_resident [OF clock.goodD(2) [OF g], of p f, simplified]
  have "\<exists>S'. run_section clock_replacer i S = Some S'" using assms(6) by (auto split: if_splits)
  then have nb: "i \<notin> state_changed ?s" by (auto simp: run_section_def Let_def split: if_splits)
  obtain s2 where s2: "FlushPage_written clock_replacer p f e rest ?s = (Inr (flush_next rest), s2)"
      "meta_of s2 f = (meta_of ?s f)\<lparr>dirty := False, pin_count := pin_count (meta_of ?s f) - 1\<rparr>"
      "entry_of s2 = entry_of ?s" "content_of s2 = content_of ?s"
    using clock.flush_written_effect [OF g _ c assms(4)] assms(5) by auto
  have S': "S' = set_pc i (next_pc (Inr (flush_next rest))) (S\<lparr>sys_bm := block i (Inr (flush_next rest)) s2,
      guards := guards S + handed (Flush_done p f e rest) (Inr (flush_next rest))\<rparr>)"
    using assms(2,3,6) nb s2(1) by (simp add: run_section_def)
  have "clock_reachable opts n D S'"
    by (rule clock_reachable_step [OF assms(1) _ assms(6)]) (simp add: assms(3))
  note tok' = reachable_good(4) [OF this]
  have v: "meta_of (sys_bm S') f = meta_of s2 f" "entry_of (sys_bm S') = entry_of ?s"
    "content_of (sys_bm S') = content_of ?s" "disk S' = disk S"
    using s2(3,4) by (simp_all add: S' set_pc_def)
  have "Creating p \<notin># all_tokens S'" using creating_entry [OF tok', of p] v(2) pr(3) by auto
  then show ?thesis using s2(2) v pr(3) c by (simp add: system_contents_def contents_def)
qed

theorem flush_makes_durable_witness:
  "\<exists>S S'. clock_reachable ex_opts 2 ex_disk S \<and> step clock_replacer (Run 0) S = Some S' \<and>
     \<not> dirty (meta_of (sys_bm S') 0) \<and> system_contents S' 0 = Some (disk S' 0)"
proof -
  obtain S where S: "clock_reachable ex_opts 2 ex_disk S" "threads S = [Flush_done 0 0 1 [], Idle]"
      "unmarked S = {}" "state_changed (sys_bm S) = {}" "dirty_epoch (meta_of (sys_bm S) 0) = 1"
    using ex_flushed_state by blast
  have "\<exists>S'. step clock_replacer (Run 0) S = Some S'"
    using S(2,4) by (simp add: run_section_def Let_def split: prod.split)
  then obtain S' where st: "step clock_replacer (Run 0) S = Some S'" by blast
  have t: "0 < length (threads S)" "threads S ! 0 = Flush_done 0 0 1 []" "0 \<notin> unmarked S" using S(2,3) by simp_all
  show ?thesis using flush_makes_durable [OF S(1) t(1,2) S(5) t(3) st] S(1) st by blast
qed

text \<open>C24: \<^verbatim>\<open>AcquireFrameLocked\<close> fails only for one of two reasons. Before the mutex is given up, it throws
  only when every frame holds a resident page that is pinned, and the buffer manager is then as it
  was. After the write-back of the victim it returns the frame, allocated and empty, when the
  write has succeeded; when the write has failed it throws the error of the write, and the victim is a
  resident page again in the same frame, as dirty as it was, unpinned and a candidate for eviction.\<close>

theorem acquiring_a_frame_fails_only_for_cause:
  assumes "clock_reachable opts n D S"
  shows "(\<forall>e s'. AcquireFrameLocked clock_replacer (sys_bm S) = (Inl e, s') \<longrightarrow>
      e = runtime_error ''no frame available'' \<and> s' = sys_bm S \<and>
      (\<forall>f. unat f < unat (fa_frame_count (frame_allocator (sys_bm S))) \<longrightarrow>
        fm_state (meta_of (sys_bm S) f) = kFrameResident \<and> pin_count (meta_of (sys_bm S) f) \<noteq> 0)) \<and>
    (\<forall>i who f p. i < length (threads S) \<and> threads S ! i = Evict_done who f p \<longrightarrow>
      (\<exists>s'. AcquireFrameLocked_evicted f p (sys_bm S) = (Inr f, s') \<and> entry_of s' p = on_disk \<and>
        f \<in> allocated (frame_allocator s') \<and> meta_of s' f = empty_meta)) \<and>
    (\<forall>i who f p d e x. i < length (threads S) \<and> threads S ! i = Evict_failed who f p d e x \<longrightarrow>
      (\<exists>s'. (fail_eviction clock_replacer f p d e x :: (ClockReplacer BufferManager, ending) act) (sys_bm S) = (Inl x, s') \<and>
        entry_of s' p = resident f \<and> f \<in> evictable_frames (replacer s') \<and>
        meta_of s' f = \<lparr>fm_page_id = Some p, pin_count = 0, dirty = d, dirty_epoch = e, fm_state = kFrameResident\<rparr>))"
proof (intro conjI allI impI)
  let ?s = "sys_bm S"
  note inv = reachable_good(1) [OF assms] and b = reachable_good(3) [OF assms]
  note bp = clock.binv_parts(1,7) [OF b]
  {
    fix e s' assume run: "AcquireFrameLocked clock_replacer ?s = (Inl e, s')"
    obtain r fa where al: "AllocateFrame (frame_allocator ?s) = (r, fa)" by fastforce
    note A = AllocateFrame_spec [OF bp(1) al]
    have "allocate_frame ?s = (Inr r, ?s\<lparr>frame_allocator := fa\<rparr>)"
      by (simp add: allocate_frame_def on_allocator_def zoomA_def al)
    then have r: "r = None" and sv: "SelectVictimLocked clock_replacer ?s = (Inl e, s')"
      using run A by (auto simp: AcquireFrameLocked_def bindA_def split: option.splits)
    have all: "fm_state (meta_of ?s f) \<noteq> kFree" if "unat f < unat (fa_frame_count (frame_allocator ?s))" for f
      using A r that bp(2) [of f] by auto
    from clock.select_victim_spec [OF b sv] all
    show "e = runtime_error ''no frame available''" "s' = ?s"
      "unat f < unat (fa_frame_count (frame_allocator ?s)) \<Longrightarrow> fm_state (meta_of ?s f) = kFrameResident"
      "unat f < unat (fa_frame_count (frame_allocator ?s)) \<Longrightarrow> pin_count (meta_of ?s f) \<noteq> 0" for f
      by auto
  }
  have ev: "clock.good (disk S) (unmarked S) {} (add_mset (Evicting p f) (claim who + other_tokens i S)) ?s"
    if "i < length (threads S)" "held (threads S ! i) = add_mset (Evicting p f) (claim who)" for i who f p
    using reachable_good(2) [OF assms] all_tokens_other [OF that(1)] that(2) by simp
  {
    fix i who f p assume t: "i < length (threads S) \<and> threads S ! i = Evict_done who f p"
  then have "Evict_done who f p \<in> set (threads S)" by (metis nth_mem)
  then have "content_of ?s f = disk S p" using clock.sinvD(2) [OF inv] by fastforce
    from clock.good_finish [OF ev [of i p f who] this] t
    obtain s' where s': "finish_eviction f p ?s = (Inr (), s')" "clock.good (disk S) (unmarked S) {f} (claim who + other_tokens i S) s'"
        "entry_of s' = (entry_of ?s)(p := on_disk)" "fm_state (meta_of s' f) = kFree"
      by auto
    note b' = clock.goodD(1) [OF s'(2)]
    have "f \<in> allocated (frame_allocator s')" using clock.binv_parts(7) [OF b'] s'(4) by simp
    moreover have "meta_of s' f = empty_meta"
      using coherent_frameD(1) [OF clock.goodD(6) [OF s'(2)] s'(4)] by simp
    ultimately show "\<exists>s'. AcquireFrameLocked_evicted f p ?s = (Inr f, s') \<and> entry_of s' p = on_disk \<and>
        f \<in> allocated (frame_allocator s') \<and> meta_of s' f = empty_meta"
      using s'(1,3) by (simp add: AcquireFrameLocked_evicted_def thenA_Inr)
  }
  fix i who f p d e x assume t: "i < length (threads S) \<and> threads S ! i = Evict_failed who f p d e x"
  then have "Evict_failed who f p d e x \<in> set (threads S)" by (metis nth_mem)
  then have "d \<or> content_of ?s f = disk S p" using clock.sinvD(2) [OF inv] by fastforce
  from clock.good_restore [where 'a = ending, OF ev [of i p f who] this, of e x] t
  obtain s' where s': "(fail_eviction clock_replacer f p d e x :: (ClockReplacer BufferManager, ending) act) ?s = (Inl x, s')"
      "clock.good (disk S) (unmarked S) {} (claim who + other_tokens i S) s'" "entry_of s' = (entry_of ?s)(p := resident f)"
      "meta_of s' f = \<lparr>fm_page_id = Some p, pin_count = 0, dirty = d, dirty_epoch = e, fm_state = kFrameResident\<rparr>"
    by auto
  then show "\<exists>s'. (fail_eviction clock_replacer f p d e x :: (ClockReplacer BufferManager, ending) act) ?s = (Inl x, s') \<and>
        entry_of s' p = resident f \<and> f \<in> evictable_frames (replacer s') \<and>
        meta_of s' f = \<lparr>fm_page_id = Some p, pin_count = 0, dirty = d, dirty_epoch = e, fm_state = kFrameResident\<rparr>"
    using clock.binv_parts(10) [OF clock.goodD(1) [OF s'(2)]] by simp
qed

theorem acquiring_a_frame_fails_only_for_cause_witness:
  "\<exists>S. clock_reachable ex_opts 2 ex_disk S \<and> fm_state (meta_of (sys_bm S) 0) = kFrameResident \<and>
     pin_count (meta_of (sys_bm S) 0) \<noteq> 0"
proof -
  obtain S where S: "clock_reachable ex_opts 2 ex_disk S"
      "fst (AcquireFrameLocked clock_replacer (sys_bm S)) = Inl (runtime_error ''no frame available'')"
      "fa_frame_count (frame_allocator (sys_bm S)) = 1"
    using ex_all_pinned_state by blast
  then obtain s' where "AcquireFrameLocked clock_replacer (sys_bm S) = (Inl (runtime_error ''no frame available''), s')"
    by (cases "AcquireFrameLocked clock_replacer (sys_bm S)") auto
  then show ?thesis
    using acquiring_a_frame_fails_only_for_cause [OF S(1)] S(1,3) by (metis unat_0 unat_1 zero_less_one)
qed

text \<open>C39: what a client can do that deletes a page identifier it has not been given. From every
  reachable state in which \<^verbatim>\<open>NewPage\<close> has given up the mutex to write its victim back: if an idle
  thread deletes the identifier that is being created, and the write then succeeds, \<^verbatim>\<open>NewPage\<close> throws
  the logic error of an internal check, and the frame of the victim is lost. In every state reached from
  there, whatever the clients do, the frame is still allocated and has one pin, the replacer does not
  know it, and no page, no guard and no thread has it. This is why the other properties ask of a client
  that it only fetches and deletes pages it has been given.\<close>

theorem deletion_during_creation_leaks_a_frame:
  assumes "clock_reachable opts n D S"
    and "i < length (threads S)" and "threads S ! i = Evict_write (ForNewPage p) f old d e"
    and "j < length (threads S)" and "threads S ! j = Idle"
  shows "\<exists>S1 c S2. run_unchecked [Start j (DeletePage_enter p), Run j, Io_ok i] S = Some S1 \<and>
    critical_section clock_replacer (threads S1 ! i) = Some c \<and>
    fst (c (sys_bm S1)) = Inl (logic_error ''cannot make an unused page resident'') \<and>
    step clock_replacer (Run i) S1 = Some S2 \<and> threads S2 = (threads S)[i := Idle] \<and> guards S2 = guards S \<and>
    (\<forall>ls S'. run_unchecked ls S2 = Some S' \<longrightarrow>
      f \<in> allocated (frame_allocator (sys_bm S')) \<and> pin_count (meta_of (sys_bm S') f) = 1 \<and>
      f \<notin> tracked_frames (replacer (sys_bm S')) \<and>
      (\<forall>q. pe_frame_id (entry_of (sys_bm S') q) \<noteq> Some f \<and> Pin q f \<notin># all_tokens S' \<and>
        Loading q f \<notin># all_tokens S' \<and> Evicting q f \<notin># all_tokens S'))"
proof -
  obtain S1 c S2 k where r: "run_unchecked [Start j (DeletePage_enter p), Run j, Io_ok i] S = Some S1"
      "critical_section clock_replacer (threads S1 ! i) = Some c"
      "fst (c (sys_bm S1)) = Inl (logic_error ''cannot make an unused page resident'')"
      "step clock_replacer (Run i) S1 = Some S2" "threads S2 = (threads S)[i := Idle]" "guards S2 = guards S"
    and lost: "frame_lost f k (lost_meta p) S2"
    using deletion_loses_frame [OF reachable_good(1) [OF assms(1)] assms(2-5)] by blast
  have "f \<in> allocated (frame_allocator (sys_bm S')) \<and> pin_count (meta_of (sys_bm S') f) = 1 \<and>
      f \<notin> tracked_frames (replacer (sys_bm S')) \<and>
      (\<forall>q. pe_frame_id (entry_of (sys_bm S') q) \<noteq> Some f \<and> Pin q f \<notin># all_tokens S' \<and>
        Loading q f \<notin># all_tokens S' \<and> Evicting q f \<notin># all_tokens S')"
    if "run_unchecked ls S2 = Some S'" for ls S'
    using frame_lostD [OF lost_for_ever [OF lost that]] by (simp add: lost_meta_def)
  with r show ?thesis by blast
qed

theorem deletion_during_creation_leaks_a_frame_witness:
  "\<exists>S S1 S2. clock_reachable ex_opts 2 ex_disk S \<and> run_unchecked [Start 1 (DeletePage_enter 1), Run 1, Io_ok 0] S = Some S1 \<and>
    step clock_replacer (Run 0) S1 = Some S2 \<and> threads S2 = [Idle, Idle] \<and> pin_count (meta_of (sys_bm S2) 0) = 1"
proof -
  obtain S where S: "clock_reachable ex_opts 2 ex_disk S" "threads S = [Evict_write (ForNewPage 1) 0 0 True 1, Idle]"
    using ex_evicting_state by blast
  then have t: "0 < length (threads S)" "threads S ! 0 = Evict_write (ForNewPage 1) 0 0 True 1" "1 < length (threads S)"
      "threads S ! 1 = Idle"
    by simp_all
  obtain S1 S2 where r: "run_unchecked [Start 1 (DeletePage_enter 1), Run 1, Io_ok 0] S = Some S1"
      "step clock_replacer (Run 0) S1 = Some S2" "threads S2 = (threads S)[0 := Idle]"
      "\<And>ls S'. run_unchecked ls S2 = Some S' \<Longrightarrow> pin_count (meta_of (sys_bm S') 0) = 1"
    using deletion_during_creation_leaks_a_frame [OF S(1) t] by blast
  have "threads S2 = [Idle, Idle]" using r(3) S(2) by simp
  moreover have "pin_count (meta_of (sys_bm S2) 0) = 1" using r(4) [of "[]"] by simp
  ultimately show ?thesis using S(1) r(1,2) by blast
qed

text \<open>C37: the constructor of the buffer manager with the default replacer returns exactly when the disk
  manager was constructed, there is at least one frame and no more than a frame identifier can name,
  at least one page and at least one worker; it then satisfies the invariant, with no thread active
  and no page in use.\<close>

theorem construction_succeeds_exactly:
  "((\<exists>bm. new_BufferManager opts dm None new_ClockReplacer = Inr (bm :: 'd \<times> ClockReplacer BufferManager \<times> 't AsyncExecutor)) \<longleftrightarrow>
      (\<exists>d. dm = Inr d) \<and> frame_count opts \<noteq> 0 \<and> unat (frame_count opts) \<le> 4294967295 \<and>
      disk_max_page_count (disk_options opts) \<noteq> 0 \<and> async_worker_count opts \<noteq> 0) \<and>
   (\<forall>d bm ex. new_BufferManager opts dm None new_ClockReplacer = Inr (d, bm, ex :: 't AsyncExecutor) \<longrightarrow>
      clock_system_inv (initial_system bm n (\<lambda>_. zero_page)) \<and> entry_of bm p = no_entry)"
proof (intro conjI allI impI)
  have fa: "(\<exists>fa. new_FrameAllocator fc = Inr fa) \<longleftrightarrow> fc \<noteq> 0 \<and> unat fc \<le> 4294967295" for fc
    using new_FrameAllocator_spec [of fc] by (cases "new_FrameAllocator fc") (auto simp: unat_gt_0)
  have ck: "(\<exists>r. new_ClockReplacer fc = Inr r) \<longleftrightarrow> fc \<noteq> 0 \<and> unat fc \<le> 4294967295" for fc
    using new_ClockReplacer_spec [of fc] by (cases "new_ClockReplacer fc") (auto simp: unat_gt_0)
  have pt: "(\<exists>pt. new_PageTable m = Inr pt) \<longleftrightarrow> m \<noteq> 0" for m
    using new_PageTable_spec [of m] by (cases "new_PageTable m") (auto simp: unat_gt_0)
  have ex: "(\<exists>ex. new_AsyncExecutor m = Inr (ex :: 't AsyncExecutor)) \<longleftrightarrow> m \<noteq> 0" for m
    by (simp add: new_AsyncExecutor_def)
  show "(\<exists>bm. new_BufferManager opts dm None new_ClockReplacer = Inr (bm :: 'd \<times> ClockReplacer BufferManager \<times> 't AsyncExecutor)) \<longleftrightarrow>
      (\<exists>d. dm = Inr d) \<and> frame_count opts \<noteq> 0 \<and> unat (frame_count opts) \<le> 4294967295 \<and>
      disk_max_page_count (disk_options opts) \<noteq> 0 \<and> async_worker_count opts \<noteq> 0"
    using fa [of "frame_count opts"] ck [of "frame_count opts"] pt [of "disk_max_page_count (disk_options opts)"]
      ex [of "async_worker_count opts"]
    by (auto simp: new_BufferManager_def bindE_Inr_iff BufferManager_ValidateOptions_def)
next
  fix d bm ex
  assume a: "new_BufferManager opts dm None new_ClockReplacer = Inr (d, bm, ex :: 't AsyncExecutor)"
  then obtain e2 :: "unit AsyncExecutor" where "new_AsyncExecutor (async_worker_count opts) = Inr e2"
    by (auto simp: new_BufferManager_def bindE_Inr_iff new_AsyncExecutor_def split: if_splits)
  then have st: "clock_start opts n (\<lambda>_. zero_page) = Inr (initial_system bm n (\<lambda>_. zero_page))"
    using a by (auto simp: clock_start_def new_BufferManager_def bindE_Inr_iff)
  then show "clock_system_inv (initial_system bm n (\<lambda>_. zero_page))" by (rule clock_start_inv) simp
  show "entry_of bm p = no_entry"
    using a new_PageTable_spec [of "disk_max_page_count (disk_options opts)"]
    by (auto simp: new_BufferManager_def bindE_Inr_iff)
qed

theorem construction_succeeds_exactly_witness:
  "\<exists>bm. new_BufferManager ex_opts (Inr ()) None new_ClockReplacer = Inr (bm :: unit \<times> ClockReplacer BufferManager \<times> unit AsyncExecutor)"
  by (rule iffD2 [OF conjunct1 [OF construction_succeeds_exactly]]) (simp add: ex_opts_def)

subsection \<open>The buffer manager on its file\<close>

text \<open>C10: the buffer manager with its disk manager on a file that behaves as documented is a run of the
  system with an abstract disk, whose pages are those of the file: all that is shown for that system
  holds with \<^verbatim>\<open>ReadPage\<close> and \<^verbatim>\<open>WritePage\<close> in place of its abstract transfers, through
  interrupted, short and failing calls.\<close>

theorem buffer_manager_runs_on_file:
  assumes "posix_file P V" and "new_DiskManager P (disk_options opts) os = Some (Inr dm, os0)"
    and "clock_start opts n D0 = Inr S0" and "file_reachable P dm (S0, os0) (S, os')"
  shows "\<exists>c0 c. initialised (disk_options opts) (found V os (disk_options opts)) c0 \<and>
    open_on V os' (dm_fd dm) (path (disk_options opts)) c \<and>
    clock_reachable opts n (file_page (disk_options opts) c0) (with_file (disk_options opts) c S)"
proof -
  obtain c0 where n: "dm_options dm = disk_options opts" "Disk_ValidateOptions (disk_options opts) = Inr ()"
      "open_on V os0 (dm_fd dm) (path (disk_options opts)) c0"
      "initialised (disk_options opts) (found V os (disk_options opts)) c0"
    using new_DiskManager_effect [OF assms(1,2)] by blast
  show ?thesis
    using file_system_simulates [OF assms(1) _ assms(3) n(3) assms(4)] n by auto
qed

theorem buffer_manager_runs_on_file_witness:
  "\<exists>S os c0 c. open_on toy_view os 3 ''db'' c \<and> \<not> dirty (meta_of (sys_bm S) 0) \<and>
     clock_reachable ex_opts 2 (file_page toy_opts c0) (with_file toy_opts c S)"
proof -
  obtain S0 os0 S os where *: "new_DiskManager toy_posix (disk_options ex_opts) toy_start = Some (Inr toy_dm, os0)"
      "clock_start ex_opts 2 ex_disk = Inr S0" "file_reachable toy_posix toy_dm (S0, os0) (S, os)"
      "\<not> dirty (meta_of (sys_bm S) 0)"
    using ex_stored_state by blast
  obtain c0 c where "open_on toy_view os 3 ''db'' c" "clock_reachable ex_opts 2 (file_page toy_opts c0) (with_file toy_opts c S)"
    using buffer_manager_runs_on_file [OF toy_posix_file *(1-3)] by (auto simp: toy_opts_ex toy_dm_def toy_opts_def)
  then show ?thesis using *(4) by blast
qed

text \<open>C11: the bytes of every resident page that is clean, and that nobody has written to since it was
  last marked, are in the file at the offset of the page.\<close>

theorem clean_frames_are_in_the_file:
  assumes "posix_file P V" and "new_DiskManager P (disk_options opts) os = Some (Inr dm, os0)"
    and "clock_start opts n D0 = Inr S0" and "file_reachable P dm (S0, os0) (S, os')"
    and "entry_of (sys_bm S) p = resident f" and "\<not> dirty (meta_of (sys_bm S) f)" and "p \<notin> unmarked S"
  shows "\<exists>c. open_on V os' (dm_fd dm) (path (disk_options opts)) c \<and>
    bytes_at c (page_offset (disk_options opts) p) 4096 = data (content_of (sys_bm S) f)"
proof -
  obtain c0 where n: "dm_options dm = disk_options opts" "Disk_ValidateOptions (disk_options opts) = Inr ()"
      "open_on V os0 (dm_fd dm) (path (disk_options opts)) c0"
    using new_DiskManager_effect [OF assms(1,2)] by blast
  obtain c where c: "open_on V os' (dm_fd dm) (path (disk_options opts)) c"
      "clock_reachable opts n (file_page (disk_options opts) c0) (with_file (disk_options opts) c S)"
    using file_system_simulates [OF assms(1) _ assms(3) n(3) assms(4)] n by auto
  note tok = tok_invD [OF reachable_good(4) [OF c(2)], simplified]
  have "fm_state (meta_of (sys_bm S) f) = kFrameResident" "fm_page_id (meta_of (sys_bm S) f) = Some p"
    using coherent_pageD [OF tok(1), of p f] assms(5) by auto
  then have "file_page (disk_options opts) c p = content_of (sys_bm S) f"
    using tok(5) assms(6,7) by (simp add: clean_on_disk_def)
  then have "data (file_page (disk_options opts) c p) = data (content_of (sys_bm S) f)" by simp
  then show ?thesis using c(1) by (auto simp: file_page_def)
qed

theorem clean_frames_are_in_the_file_witness:
  "\<exists>(S :: ClockReplacer system) os c. open_on toy_view os 3 ''db'' c \<and> bytes_at c 4096 4096 = data (content_of (sys_bm S) 0)"
proof -
  obtain S0 os0 S os where *: "new_DiskManager toy_posix (disk_options ex_opts) toy_start = Some (Inr toy_dm, os0)"
      "clock_start ex_opts 2 ex_disk = Inr S0" "file_reachable toy_posix toy_dm (S0, os0) (S, os)"
      "entry_of (sys_bm S) 0 = resident 0" "\<not> dirty (meta_of (sys_bm S) 0)" "unmarked S = {}"
    using ex_stored_state by blast
  then have "0 \<notin> unmarked S" by simp
  then show ?thesis
    using clean_frames_are_in_the_file [OF toy_posix_file *(1-5)] by (auto simp: toy_opts_ex toy_dm_def toy_opts_def page_offset_def)
qed

text \<open>C12: synchronised pages survive a crash: what the client has written and flushed when
  \<^verbatim>\<open>Sync\<close> returns is read by the next disk manager on the file, after the machine has stopped at
  any time before the next write, if \<^verbatim>\<open>fdatasync\<close> keeps what it promises and the directory still
  names the file.\<close>

theorem synced_pages_survive_a_crash:
  assumes "posix_file P V" and "crash_keeps_synced P V crash"
    and "new_DiskManager P (disk_options opts) os = Some (Inr dm, os0)" and "clock_start opts n D0 = Inr S0"
    and "file_reachable P dm (S0, os0) (S, os1)"
    and "\<forall>f. entry_of (sys_bm S) p = resident f \<longrightarrow> \<not> dirty (meta_of (sys_bm S) f) \<and> p \<notin> unmarked S"
    and "\<forall>f. entry_of (sys_bm S) p \<noteq> evicting f"
    and "BufferManager_Sync P dm os1 = (Inr (), os2)" and "crash os2 os3" and "stored V os3 (path (disk_options opts)) = Some c3"
    and "\<not> truncate_existing opts'" and "path opts' = path (disk_options opts)"
    and "new_DiskManager P opts' os3 = Some (Inr dm', os4)"
    and "page_ok buffer" and "ReadPage P dm' p address (buffer, os4) = Some (Inr (), got, os5)"
  shows "\<exists>c. open_on V os1 (dm_fd dm) (path (disk_options opts)) c \<and>
    (\<forall>content. system_contents (with_file (disk_options opts) c S) p = Some content \<longrightarrow> got = content)"
proof -
  obtain c0 where n: "dm_options dm = disk_options opts" "Disk_ValidateOptions (disk_options opts) = Inr ()" "0 \<le> dm_fd dm"
      "open_on V os0 (dm_fd dm) (path (disk_options opts)) c0" "has_header (disk_options opts) c0"
    using new_DiskManager_effect [OF assms(1,3)] by (auto simp: initialised_def)
  obtain c where c: "open_on V os1 (dm_fd dm) (path (disk_options opts)) c" "has_header (disk_options opts) c"
      "clock_reachable opts n (file_page (disk_options opts) c0) (with_file (disk_options opts) c S)"
    using file_system_simulates [OF assms(1) _ assms(4) n(4) assms(5)] n(1,2,5) by auto
  obtain u where "sys_fdatasync P (dm_fd dm) os1 = (Inr u, os2)"
    using assms(8) by (auto simp: BufferManager_Sync_def Disk_Sync_def split: if_splits prod.splits sum.splits)
  then have "c3 = c" using assms(2,9,10) c(1) unfolding crash_keeps_synced_def by (metis (full_types) old.unit.exhaust)
  then have "stored V os3 (path opts') = Some c" using assms(10,12) by simp
  then have got: "got = file_page (disk_options opts) c p"
    by (rule reopened_page [OF assms(1) c(2) _ assms(11,13-15)])
  have "file_page (disk_options opts) c p = content"
    if "system_contents (with_file (disk_options opts) c S) p = Some content" for content
    using clock.clean_page_on_disk [OF reachable_good(1) [OF c(3)] that] assms(6,7) by simp
  then show ?thesis using c(1) got by blast
qed

theorem synced_pages_survive_a_crash_witness:
  "\<exists>(S :: ClockReplacer system) os1 os2 os3 os4 c got.
     BufferManager_Sync toy_posix toy_dm os1 = (Inr (), os2) \<and> toy_crash os2 os3 \<and> toy_fds os3 3 = None \<and>
     ReadPage toy_posix (toy_fd_dm 4) 0 4096 (zero_page, os4) = Some (Inr (), got, os4) \<and>
     system_contents (with_file toy_opts c S) 0 = Some got"
proof -
  obtain S0 os0 S os1 c1 where *: "new_DiskManager toy_posix (disk_options ex_opts) toy_start = Some (Inr toy_dm, os0)"
      "clock_start ex_opts 2 ex_disk = Inr S0" "file_reachable toy_posix toy_dm (S0, os0) (S, os1)"
      "entry_of (sys_bm S) 0 = resident 0" "\<not> dirty (meta_of (sys_bm S) 0)" "unmarked S = {}" "guards S = {#ex_guard#}" and
      ready: "toy_ready 3 c1 os1" "toy_next os1 = 4" "length c1 = 8192"
    using ex_stored_state by blast
  have o: "open_on toy_view os1 3 ''db'' c1" by (rule toy_ready_open [OF ready(1)])
  obtain c0 where n: "open_on toy_view os0 3 ''db'' c0" "has_header toy_opts c0"
    using new_DiskManager_effect [OF toy_posix_file *(1)] by (auto simp: initialised_def toy_opts_ex toy_dm_def toy_opts_def)
  have "dm_options toy_dm = toy_opts" "dm_fd toy_dm = 3" by (simp_all add: toy_dm_def)
  with file_system_simulates [OF toy_posix_file _ *(2) _ *(3), of "''db''" c0] n toy_valid
  have h: "has_header toy_opts c1" and reach: "clock_reachable ex_opts 2 (file_page toy_opts c0) (with_file toy_opts c1 S)"
    using o by (auto simp: open_on_def)
  then have content: "system_contents (with_file toy_opts c1 S) 0 = Some (content_of (sys_bm S) 0)"
    using clock.guard_valid [OF reachable_good(1) [OF reach], of ex_guard] *(7) by (simp add: ex_guard_def)
  define os3 where "os3 = os1\<lparr>toy_fds := (\<lambda>_. None)\<rparr>"
  obtain os4 where n4: "new_DiskManager toy_posix toy_opts os3 = Some (Inr (toy_fd_dm 4), os4)" "toy_ready 4 c1 os4"
    using toy_open_again [of os3 c1] ready h by (auto simp: toy_ready_def os3_def)
  obtain got where rd: "ReadPage toy_posix (toy_fd_dm 4) 0 4096 (zero_page, os4) = Some (Inr (), got, os4)"
    using toy_read_page [OF n4(2), of 0 zero_page] ready(3) by auto
  have sy: "BufferManager_Sync toy_posix toy_dm os1 = (Inr (), os1)"
    by (simp add: BufferManager_Sync_def Disk_Sync_def toy_dm_def toy_fdatasync_def)
  have cr: "toy_crash os1 os3" by (simp add: toy_crash_def os3_def)
  have st: "stored toy_view os3 (path (disk_options ex_opts)) = Some c1"
    using ready(1) by (simp add: toy_view_def os3_def toy_ready_def toy_opts_ex toy_opts_def)
  obtain c where c: "open_on toy_view os1 3 ''db'' c" "\<forall>content. system_contents (with_file toy_opts c S) 0 = Some content \<longrightarrow> got = content"
    using synced_pages_survive_a_crash [OF toy_posix_file toy_crash_keeps_synced *(1-3) _ _ sy cr st _ _ n4(1) page_ok_zero_page rd]
      *(4-6) by (auto simp: toy_opts_ex toy_opts_def toy_dm_def)
  have "c = c1" using c(1) o by (simp add: open_on_def)
  then have "system_contents (with_file toy_opts c1 S) 0 = Some got" using c(2) content by simp
  moreover have "toy_fds os3 3 = None" by (simp add: os3_def)
  ultimately show ?thesis using sy cr rd by blast
qed

end
